(* ===== verification/Prelude.thy ===== *)
theory Prelude
  imports Main "HOL-Library.Word" "HOL-Library.AList" "HOL-Library.Monad_Syntax"
begin

text \<open>
  Shared vocabulary of the development: the machine integers of the Rust sources, byte
  strings, the little-endian encoding of \<open>u32\<close>, the few functions of Rust's standard
  library on strings and maps that the sources use, and the generic lemmas about lists,
  association lists and words that more than one component needs.

  Integers keep their width: \<open>u64\<close> is \<open>64 word\<close> and its arithmetic wraps, which is the
  arithmetic of the release profile (\<open>Cargo.toml\<close> turns no overflow check on).
  Lengths that come from a collection are natural numbers.
\<close>

unbundle bit_operations_syntax

type_synonym u8 = "8 word"
type_synonym u32 = "32 word"
type_synonym u64 = "64 word"
type_synonym bytes = "8 word list"

named_theorems seq_simps \<open>laws of the sequential containers (ordered maps, association lists)\<close>

section \<open>Little-endian words\<close>

text \<open>\<open>u32::to_le_bytes\<close> and \<open>u32::from_le_bytes\<close>.\<close>

definition u32_to_le :: "u32 \<Rightarrow> bytes" where
  "u32_to_le w = [ucast w, ucast (drop_bit 8 w), ucast (drop_bit 16 w), ucast (drop_bit 24 w)]"

definition u32_from_le :: "u8 \<Rightarrow> u8 \<Rightarrow> u8 \<Rightarrow> u8 \<Rightarrow> u32" where
  "u32_from_le a b c d =
     ucast a OR push_bit 8 (ucast b) OR push_bit 16 (ucast c) OR push_bit 24 (ucast d)"

lemma length_u32_to_le [simp]: "length (u32_to_le w) = 4"
  by (simp add: u32_to_le_def)

lemma u32_from_to_le [simp]:
  "u32_from_le (ucast w) (ucast (drop_bit 8 w)) (ucast (drop_bit 16 w)) (ucast (drop_bit 24 w)) = w"
proof (rule bit_word_eqI)
  fix n assume "n < LENGTH(32)"
  then have "n < 8 \<or> (8 \<le> n \<and> n < 16) \<or> (16 \<le> n \<and> n < 24) \<or> (24 \<le> n \<and> n < 32)" by auto
  then show "bit (u32_from_le (ucast w) (ucast (drop_bit 8 w)) (ucast (drop_bit 16 w))
      (ucast (drop_bit 24 w))) n = bit w n"
    by (elim disjE) (auto simp: u32_from_le_def bit_simps)
qed

lemma bit_u8_out: "8 \<le> n \<Longrightarrow> \<not> bit (a :: u8) n"
  using bit_imp_le_length [of a n] by auto

lemma u32_to_from_le [simp]: "u32_to_le (u32_from_le a b c d) = [a, b, c, d]"
  by (auto simp: u32_to_le_def u32_from_le_def bit_simps bit_u8_out intro!: bit_word_eqI)

section \<open>Strings\<close>

text \<open>
  Rust's \<open>str::strip_suffix\<close>, \<open>str::strip_prefix\<close>, \<open>str::split_once\<close> and
  \<open>str::rsplit_once\<close> on a single-character pattern. \<open>splitn2\<close> is the two reads
  \<open>splitn(2, c)\<close>, \<open>next().unwrap_or("")\<close>, \<open>next().unwrap_or("")\<close>.
\<close>

definition strip_suffix :: "string \<Rightarrow> string \<Rightarrow> string option" where
  "strip_suffix suf s =
     (if length suf \<le> length s \<and> drop (length s - length suf) s = suf
      then Some (take (length s - length suf) s) else None)"

definition ends_with :: "string \<Rightarrow> string \<Rightarrow> bool" where
  "ends_with suf s \<longleftrightarrow> strip_suffix suf s \<noteq> None"

definition strip_prefix :: "string \<Rightarrow> string \<Rightarrow> string option" where
  "strip_prefix pre s =
     (if take (length pre) s = pre then Some (drop (length pre) s) else None)"

fun split_once :: "char \<Rightarrow> string \<Rightarrow> (string \<times> string) option" where
  "split_once c [] = None"
| "split_once c (x # xs) =
     (if x = c then Some ([], xs)
      else (case split_once c xs of None \<Rightarrow> None | Some (a, b) \<Rightarrow> Some (x # a, b)))"

definition rsplit_once :: "char \<Rightarrow> string \<Rightarrow> (string \<times> string) option" where
  "rsplit_once c s =
     (case split_once c (rev s) of None \<Rightarrow> None | Some (a, b) \<Rightarrow> Some (rev b, rev a))"

definition splitn2 :: "char \<Rightarrow> string \<Rightarrow> string \<times> string" where
  "splitn2 c s = (case split_once c s of None \<Rightarrow> (s, []) | Some p \<Rightarrow> p)"

lemma strip_suffix_append [simp]: "strip_suffix suf (s @ suf) = Some s"
  by (simp add: strip_suffix_def)

lemma strip_suffix_Some: "strip_suffix suf s = Some t \<longleftrightarrow> s = t @ suf"
proof
  assume "strip_suffix suf s = Some t"
  then have "drop (length s - length suf) s = suf" "t = take (length s - length suf) s"
    by (auto simp: strip_suffix_def split: if_splits)
  then show "s = t @ suf" by (metis append_take_drop_id)
qed simp

lemma strip_suffix_None: "strip_suffix suf s = None \<longleftrightarrow> (\<nexists>t. s = t @ suf)"
  by (metis not_None_eq strip_suffix_Some)

lemma ends_with_iff: "ends_with suf s \<longleftrightarrow> (\<exists>t. s = t @ suf)"
  by (auto simp: ends_with_def strip_suffix_None)

lemma strip_prefix_append [simp]: "strip_prefix pre (pre @ s) = Some s"
  by (simp add: strip_prefix_def)

lemma strip_prefix_Some: "strip_prefix pre s = Some t \<longleftrightarrow> s = pre @ t"
  by (auto simp: strip_prefix_def) (metis append_take_drop_id)

lemma split_once_append [simp]:
  "c \<notin> set a \<Longrightarrow> split_once c (a @ c # b) = Some (a, b)"
  by (induction a) auto

lemma split_once_SomeD: "split_once c s = Some (a, b) \<Longrightarrow> s = a @ c # b \<and> c \<notin> set a"
  by (induction s arbitrary: a b) (fastforce split: option.splits if_splits)+

lemma split_once_Some: "split_once c s = Some (a, b) \<longleftrightarrow> s = a @ c # b \<and> c \<notin> set a"
  by (metis split_once_SomeD split_once_append)

lemma split_once_None: "split_once c s = None \<longleftrightarrow> c \<notin> set s"
  by (induction s) (auto split: option.splits)

lemma rsplit_once_append [simp]:
  "c \<notin> set b \<Longrightarrow> rsplit_once c (a @ c # b) = Some (a, b)"
  by (simp add: rsplit_once_def)

lemma splitn2_append [simp]: "c \<notin> set a \<Longrightarrow> splitn2 c (a @ c # b) = (a, b)"
  by (simp add: splitn2_def)

section \<open>Decimal numerals\<close>

text \<open>
  \<open>dec n\<close> is \<open>n.to_string()\<close>, \<open>pad12\<close> is \<open>format!("{:012}", n)\<close>, and
  \<open>parse_u64\<close> is \<open>str::parse::<u64>\<close>: an optional \<open>+\<close>, at least one digit, every
  partial result checked against the type's range.
\<close>

definition digit_char :: "nat \<Rightarrow> char" where
  "digit_char n = char_of (48 + n)"

fun dec :: "nat \<Rightarrow> string" where
  "dec n = (if n < 10 then [digit_char n] else dec (n div 10) @ [digit_char (n mod 10)])"

declare dec.simps [simp del]

definition pad12 :: "nat \<Rightarrow> string" where
  "pad12 n = replicate (12 - length (dec n)) (CHR ''0'') @ dec n"

definition digit_val :: "char \<Rightarrow> nat option" where
  "digit_val c = (if 48 \<le> (of_char c :: nat) \<and> (of_char c :: nat) < 58
                  then Some (of_char c - 48) else None)"

fun parse_digits :: "nat \<Rightarrow> string \<Rightarrow> nat option" where
  "parse_digits acc [] = Some acc"
| "parse_digits acc (c # cs) =
     (case digit_val c of
        None \<Rightarrow> None
      | Some d \<Rightarrow> if acc * 10 + d < 2 ^ 64 then parse_digits (acc * 10 + d) cs else None)"

definition parse_u64 :: "string \<Rightarrow> u64 option" where
  "parse_u64 s =
     (case s of
        [] \<Rightarrow> None
      | c # cs \<Rightarrow>
          let ds = (if c = CHR ''+'' then cs else s)
          in if ds = [] then None else map_option of_nat (parse_digits 0 ds))"

lemma digit_val_char [simp]: "n < 10 \<Longrightarrow> digit_val (digit_char n) = Some n"
  by (simp add: digit_val_def digit_char_def)

lemma digit_char_neq [simp]:
  "n < 10 \<Longrightarrow> digit_char n \<noteq> CHR ''-''" "n < 10 \<Longrightarrow> digit_char n \<noteq> CHR ''.''"
  "n < 10 \<Longrightarrow> digit_char n \<noteq> CHR ''+''" "n < 10 \<Longrightarrow> digit_char n \<noteq> CHR ''/''"
  by (auto simp: digit_char_def dest!: arg_cong [where f = "of_char :: char \<Rightarrow> nat"])

lemma dec_digits: "c \<in> set (dec n) \<Longrightarrow> \<exists>d < 10. c = digit_char d"
proof (induction n rule: dec.induct)
  case (1 n)
  show ?case
  proof (cases "n < 10")
    case True
    with "1.prems" show ?thesis by (auto simp: dec.simps [of n])
  next
    case False
    with "1.prems" have "c \<in> set (dec (n div 10)) \<or> c = digit_char (n mod 10)"
      by (auto simp: dec.simps [of n])
    moreover have "n mod 10 < 10" by simp
    ultimately show ?thesis using False "1.IH" by blast
  qed
qed

lemma dec_nonempty [simp]: "dec n \<noteq> []"
  by (simp add: dec.simps [of n])

lemma zero_digit_char: "CHR ''0'' = digit_char 0"
proof -
  have "(of_char (CHR ''0'') :: nat) = 48" by simp
  then have "CHR ''0'' = char_of (48 :: nat)" by (metis char_of_char)
  then show ?thesis by (simp add: digit_char_def)
qed

lemma pad12_digits: "c \<in> set (pad12 n) \<Longrightarrow> \<exists>d < 10. c = digit_char d"
  by (auto simp: pad12_def zero_digit_char dest: dec_digits intro: exI [of _ 0])

lemma pad12_nonempty [simp]: "pad12 n \<noteq> []"
  by (simp add: pad12_def)

lemma pad12_no_separator [simp]:
  "CHR ''-'' \<notin> set (pad12 n)" "CHR ''.'' \<notin> set (pad12 n)"
  "CHR ''+'' \<notin> set (pad12 n)" "CHR ''/'' \<notin> set (pad12 n)"
  by (metis digit_char_neq pad12_digits)+

lemma parse_digits_append:
  "parse_digits acc (xs @ ys) =
     (case parse_digits acc xs of None \<Rightarrow> None | Some a \<Rightarrow> parse_digits a ys)"
  by (induction xs arbitrary: acc) (auto split: option.splits)

lemma parse_digits_dec: "n < 2 ^ 64 \<Longrightarrow> parse_digits 0 (dec n) = Some n"
proof (induction n rule: dec.induct)
  case (1 n)
  show ?case
  proof (cases "n < 10")
    case True
    then show ?thesis by (simp add: dec.simps [of n])
  next
    case False
    then have "parse_digits 0 (dec (n div 10)) = Some (n div 10)"
      using 1 by simp
    moreover have "n div 10 * 10 + n mod 10 = n" by simp
    ultimately show ?thesis
      using False "1.prems" by (simp add: dec.simps [of n] parse_digits_append)
  qed
qed

lemma parse_digits_zeros: "parse_digits 0 (replicate k (CHR ''0'') @ xs) = parse_digits 0 xs"
  by (induction k) (auto simp: zero_digit_char)

lemma parse_u64_pad12 [simp]: "parse_u64 (pad12 (unat w)) = Some w"
proof -
  have "parse_digits 0 (pad12 (unat w)) = Some (unat w)"
    using parse_digits_dec [of "unat w"] unsigned_less [of w, where 'a = nat]
    by (simp add: pad12_def parse_digits_zeros)
  moreover obtain c cs where c: "pad12 (unat w) = c # cs"
    by (metis pad12_nonempty neq_Nil_conv)
  moreover have "c \<noteq> CHR ''+''"
    using pad12_no_separator(3) [of "unat w"] c by (metis list.set_intros(1))
  ultimately show ?thesis
    by (simp add: parse_u64_def)
qed

section \<open>Words\<close>

lemma unat_u64_lt: "unat (w :: u64) < 2 ^ 64"
  using unsigned_less [of w, where 'a = nat] by simp

lemma unat_inc: "(w :: u64) \<noteq> - 1 \<Longrightarrow> unat (w + 1) = Suc (unat w)"
proof -
  assume ne: "w \<noteq> - 1"
  have "unat w + 1 < 2 ^ 64"
  proof (rule ccontr)
    assume "\<not> unat w + 1 < 2 ^ 64"
    with unat_u64_lt [of w] have "unat w + 1 = 2 ^ 64" by simp
    then have "unat (w + 1) = 0" by (simp add: unat_word_ariths)
    then have "w + 1 = 0" by (simp only: unat_eq_zero)
    with ne max_word_wrap show False by blast
  qed
  then show ?thesis by (simp add: unat_word_ariths)
qed

lemma u64_not_max: "unat (w :: u64) < 2 ^ 64 - 1 \<Longrightarrow> w \<noteq> - 1"
proof
  assume "unat w < 2 ^ 64 - 1" and "w = - 1"
  moreover have "unat (- 1 :: u64) = 2 ^ 64 - 1" by (simp add: unsigned_minus_1_eq_mask mask_eq_exp_minus_1)
  ultimately show False by simp
qed

lemma word_less_inc: "(w :: u64) \<noteq> - 1 \<Longrightarrow> w < w + 1"
  by (simp add: word_less_nat_alt unat_inc)

section \<open>Sorting by a key, association lists\<close>

lemma filter_sort_key: "filter P (sort_key f xs) = sort_key f (filter P xs)"
  by (induction xs) (simp_all add: filter_insort filter_insort_triv)

lemma sort_key_unique:
  assumes "sorted (map f ys)" and "distinct (map f ys)" and "distinct (map f xs)"
    and "set xs = set ys"
  shows "sort_key f xs = ys"
proof (rule map_sorted_distinct_set_unique)
  from assms(2) have "inj_on f (set ys)" by (simp add: distinct_map)
  with assms(4) show "inj_on f (set (sort_key f xs) \<union> set ys)" by simp
  from assms(3) show "distinct (map f (sort_key f xs))" by (simp add: distinct_map)
qed (use assms in simp_all)

lemma set_map_filter: "set (List.map_filter f xs) = {y. \<exists>x \<in> set xs. f x = Some y}"
  by (induction xs) (auto simp: List.map_filter_simps split: option.splits)

lemma set_update_distinct:
  "distinct (map fst xs) \<Longrightarrow> set (AList.update k v xs) = insert (k, v) {x \<in> set xs. fst x \<noteq> k}"
  by (induction xs) (auto simp: rev_image_eqI)

lemma delete_filter: "AList.delete k xs = filter (\<lambda>x. fst x \<noteq> k) xs"
  by (induction xs) auto

lemma set_delete_filter: "set (AList.delete k xs) = {x \<in> set xs. fst x \<noteq> k}"
  by (simp add: delete_filter)

lemma length_keys_eq:
  assumes "distinct (map fst xs)" and "distinct (map fst ys)" and "fst ` set xs = fst ` set ys"
  shows "length xs = length ys"
  using assms by (metis distinct_card length_map list.set_map)

lemma length_card_keys: "distinct (map fst xs) \<Longrightarrow> length xs = card (fst ` set xs)"
  using distinct_card [of "map fst xs"] by simp

lemma length_keys_le:
  "distinct (map fst xs) \<Longrightarrow> distinct (map fst ys) \<Longrightarrow> fst ` set xs \<subseteq> fst ` set ys \<Longrightarrow>
   length xs \<le> length ys"
  by (simp add: length_card_keys card_mono)

lemma length_keys_insert:
  "distinct (map fst xs) \<Longrightarrow> distinct (map fst ys) \<Longrightarrow> fst ` set xs \<subseteq> insert k (fst ` set ys) \<Longrightarrow>
   length xs \<le> Suc (length ys)"
  using card_mono [of "insert k (fst ` set ys)" "fst ` set xs"] card_insert_le_m1 [of "Suc (card (fst ` set ys))" "fst ` set ys" k]
  by (simp add: length_card_keys)

lemma update_new: "k \<notin> fst ` set xs \<Longrightarrow> AList.update k v xs = xs @ [(k, v)]"
  by (induction xs) auto

section \<open>Extrema\<close>

text \<open>\<open>Iterator::max\<close> and \<open>Iterator::min\<close>.\<close>

definition max_opt :: "u64 list \<Rightarrow> u64 option" where
  "max_opt xs = (case xs of [] \<Rightarrow> None | y # ys \<Rightarrow> Some (foldl max y ys))"

definition min_opt :: "u64 list \<Rightarrow> u64 option" where
  "min_opt xs = (case xs of [] \<Rightarrow> None | y # ys \<Rightarrow> Some (foldl min y ys))"

lemma foldl_max: "foldl max y ys = Max (set (y # ys))"
  by (simp only: Max.set_eq_fold foldl_conv_fold) (simp add: max.commute)

lemma foldl_min: "foldl min y ys = Min (set (y # ys))"
  by (simp only: Min.set_eq_fold foldl_conv_fold) (simp add: min.commute)

lemma max_opt_Max: "max_opt xs = (if xs = [] then None else Some (Max (set xs)))"
  by (cases xs) (simp_all add: max_opt_def foldl_max)

lemma min_opt_Min: "min_opt xs = (if xs = [] then None else Some (Min (set xs)))"
  by (cases xs) (simp_all add: min_opt_def foldl_min)

end
