(* ===== verification/F64.thy ===== *)
theory F64
  imports Complex_Main Prelude
begin

text \<open>
  Double precision numbers: a finite rational, an infinity or NaN, with the operations the
  sources use. Results are rounded to the nearest double, ties to the even one, with gradual
  underflow and overflow to infinity. A zero has no sign.
\<close>

datatype f64 = Finite rat | PosInf | NegInf | NaN

fun is_finite :: "f64 \<Rightarrow> bool" where
  "is_finite (Finite _) = True"
| "is_finite _ = False"

text \<open>Comparisons with NaN are false.\<close>

fun f64_less :: "f64 \<Rightarrow> f64 \<Rightarrow> bool" where
  "f64_less (Finite a) (Finite b) = (a < b)"
| "f64_less NaN _ = False"
| "f64_less _ NaN = False"
| "f64_less NegInf b = (b \<noteq> NegInf)"
| "f64_less _ NegInf = False"
| "f64_less PosInf _ = False"
| "f64_less (Finite _) PosInf = True"

fun le_zero :: "f64 \<Rightarrow> bool" where
  "le_zero (Finite q) = (q \<le> 0)"
| "le_zero NegInf = True"
| "le_zero _ = False"

section \<open>Rounding\<close>

definition round_half_even :: "rat \<Rightarrow> int" where
  "round_half_even q =
     (let f = \<lfloor>q\<rfloor>; r = q - of_int f
      in if r < 1 / 2 then f else if 1 / 2 < r then f + 1 else if even f then f else f + 1)"

fun bit_count :: "nat \<Rightarrow> nat" where
  "bit_count n = (if n = 0 then 0 else Suc (bit_count (n div 2)))"

declare bit_count.simps [simp del]

text \<open>The exponent of a positive rational: \<open>2 ^ k \<le> q < 2 ^ (k + 1)\<close>.\<close>

definition exponent :: "rat \<Rightarrow> int" where
  "exponent q =
     (case quotient_of q of (n, d) \<Rightarrow>
        let k = int (bit_count (nat n)) - int (bit_count (nat d))
        in if power_int 2 k \<le> q then k else k - 1)"

definition unit_exponent :: "rat \<Rightarrow> int" where
  "unit_exponent q = max (exponent q - 52) (- 1074)"

definition round_pos :: "rat \<Rightarrow> rat" where
  "round_pos q =
     (if q \<le> 0 then 0
      else of_int (round_half_even (q / power_int 2 (unit_exponent q))) * power_int 2 (unit_exponent q))"

definition round_f64 :: "rat \<Rightarrow> f64" where
  "round_f64 q =
     (if q < 0
      then (if power_int 2 1024 \<le> round_pos (- q) then NegInf else Finite (- round_pos (- q)))
      else (if power_int 2 1024 \<le> round_pos q then PosInf else Finite (round_pos q)))"

section \<open>Operations\<close>

fun f64_neg :: "f64 \<Rightarrow> f64" where
  "f64_neg (Finite a) = Finite (- a)"
| "f64_neg PosInf = NegInf"
| "f64_neg NegInf = PosInf"
| "f64_neg NaN = NaN"

fun f64_abs :: "f64 \<Rightarrow> f64" where
  "f64_abs (Finite a) = Finite \<bar>a\<bar>"
| "f64_abs NaN = NaN"
| "f64_abs _ = PosInf"

fun f64_add :: "f64 \<Rightarrow> f64 \<Rightarrow> f64" where
  "f64_add (Finite a) (Finite b) = round_f64 (a + b)"
| "f64_add NaN _ = NaN"
| "f64_add _ NaN = NaN"
| "f64_add PosInf NegInf = NaN"
| "f64_add NegInf PosInf = NaN"
| "f64_add PosInf _ = PosInf"
| "f64_add _ PosInf = PosInf"
| "f64_add _ _ = NegInf"

definition f64_sub :: "f64 \<Rightarrow> f64 \<Rightarrow> f64" where
  "f64_sub a b = f64_add a (f64_neg b)"

fun f64_div :: "f64 \<Rightarrow> f64 \<Rightarrow> f64" where
  "f64_div (Finite a) (Finite b) =
     (if b = 0 then (if a = 0 then NaN else if 0 < a then PosInf else NegInf) else round_f64 (a / b))"
| "f64_div NaN _ = NaN"
| "f64_div _ NaN = NaN"
| "f64_div (Finite a) _ = Finite 0"
| "f64_div PosInf (Finite b) = (if b < 0 then NegInf else PosInf)"
| "f64_div NegInf (Finite b) = (if b < 0 then PosInf else NegInf)"
| "f64_div _ _ = NaN"

definition f64_sign :: "f64 \<Rightarrow> int" where
  "f64_sign a = (case a of Finite q \<Rightarrow> if q < 0 then - 1 else if q = 0 then 0 else 1 | NegInf \<Rightarrow> - 1 | _ \<Rightarrow> 1)"

fun f64_mul :: "f64 \<Rightarrow> f64 \<Rightarrow> f64" where
  "f64_mul (Finite a) (Finite b) = round_f64 (a * b)"
| "f64_mul a b =
     (if a = NaN \<or> b = NaN \<or> f64_sign a * f64_sign b = 0 then NaN
      else if 0 < f64_sign a * f64_sign b then PosInf else NegInf)"

text \<open>\<open>Duration::as_secs_f64\<close> of a number of nanoseconds.\<close>

definition as_secs_f64 :: "nat \<Rightarrow> f64" where
  "as_secs_f64 ns =
     f64_add (round_f64 (of_nat (ns div 1000000000)))
       (f64_div (round_f64 (of_nat (ns mod 1000000000))) (Finite 1000000000))"

text \<open>\<open>n as f64\<close>, and \<open>x as u64\<close>, which saturates.\<close>

definition f64_of_u64 :: "u64 \<Rightarrow> f64" where
  "f64_of_u64 n = round_f64 (of_nat (unat n))"

fun u64_of_f64 :: "f64 \<Rightarrow> u64" where
  "u64_of_f64 (Finite q) = (if q \<le> 0 then 0 else if 2 ^ 64 \<le> q then - 1 else of_int \<lfloor>q\<rfloor>)"
| "u64_of_f64 PosInf = - 1"
| "u64_of_f64 _ = 0"

section \<open>Rounding is monotone\<close>

lemma round_half_even_bounds: "\<lfloor>q\<rfloor> \<le> round_half_even q \<and> round_half_even q \<le> \<lfloor>q\<rfloor> + 1"
  by (simp add: round_half_even_def Let_def)

lemma round_half_even_of_int [simp]: "round_half_even (of_int n) = n"
  by (simp add: round_half_even_def)

lemma round_half_even_0 [simp]: "round_half_even 0 = 0"
  using round_half_even_of_int [of 0] by simp

lemma round_half_even_mono: "x \<le> y \<Longrightarrow> round_half_even x \<le> round_half_even y"
proof -
  assume xy: "x \<le> y"
  show ?thesis
  proof (cases "\<lfloor>x\<rfloor> = \<lfloor>y\<rfloor>")
    case True
    with xy show ?thesis by (auto simp: round_half_even_def Let_def)
  next
    case False
    then have "\<lfloor>x\<rfloor> + 1 \<le> \<lfloor>y\<rfloor>" using floor_mono [OF xy] by linarith
    then show ?thesis using round_half_even_bounds [of x] round_half_even_bounds [of y] by linarith
  qed
qed

lemma bit_count_bounds: "0 < n \<Longrightarrow> 2 ^ (bit_count n - 1) \<le> n \<and> n < 2 ^ bit_count n \<and> 0 < bit_count n"
proof (induction n rule: bit_count.induct)
  case (1 n)
  show ?case
  proof (cases "n div 2 = 0")
    case True
    then have "n = 1" using "1.prems" by auto
    then show ?thesis by (simp add: bit_count.simps [of "Suc 0"] bit_count.simps [of 0])
  next
    case False
    let ?m = "n div 2"
    have IH: "2 ^ (bit_count ?m - 1) \<le> ?m" "?m < 2 ^ bit_count ?m" "0 < bit_count ?m"
      using "1.IH" "1.prems" False by auto
    have bc: "bit_count n = Suc (bit_count ?m)" using "1.prems" by (simp add: bit_count.simps [of n])
    define P :: nat where "P = 2 ^ (bit_count ?m - 1)"
    have P: "2 ^ bit_count ?m = 2 * P" using IH(3) by (cases "bit_count ?m") (auto simp: P_def)
    have "P \<le> n div 2" "n div 2 < 2 * P" using IH(1,2) by (simp_all only: P P_def [symmetric])
    then have "2 * P \<le> n" "n < 4 * P" by linarith+
    then show ?thesis by (simp add: bc P)
  qed
qed

lemma power_int_of_nat: "power_int (2 :: rat) (int n) = of_nat (2 ^ n)"
  by (simp add: power_int_def)

lemma exponent_bounds:
  assumes "0 < q"
  shows "power_int 2 (exponent q) \<le> q \<and> q < power_int 2 (exponent q + 1)"
proof -
  obtain n d where nd: "quotient_of q = (n, d)" by fastforce
  have d: "0 < d" using quotient_of_denom_pos [OF nd] .
  have q: "q = of_int n / of_int d" using quotient_of_div [OF nd] .
  have n: "0 < n" using assms d by (simp add: q zero_less_divide_iff)
  define b c where "b = bit_count (nat n)" and "c = bit_count (nat d)"
  have b: "2 ^ (b - 1) \<le> nat n" "nat n < 2 ^ b" "0 < b"
    using bit_count_bounds [of "nat n"] n by (auto simp: b_def)
  have c: "2 ^ (c - 1) \<le> nat d" "nat d < 2 ^ c" "0 < c"
    using bit_count_bounds [of "nat d"] d by (auto simp: c_def)
  have rn: "(of_int n :: rat) = of_nat (nat n)" "(of_int d :: rat) = of_nat (nat d)"
    using n d by (simp_all add: of_nat_nat)
  have up: "q < power_int 2 (int b - int c + 1)"
  proof -
    have "q \<le> of_nat (nat n) / of_nat (2 ^ (c - 1))"
      unfolding q rn using c(1) d by (intro divide_left_mono) (simp_all del: of_nat_nat of_nat_power add: of_nat_le_iff)
    also have "\<dots> < of_nat (2 ^ b) / of_nat (2 ^ (c - 1))"
      using b(2) by (intro divide_strict_right_mono) (simp_all del: of_nat_nat of_nat_power add: of_nat_less_iff)
    also have "\<dots> = power_int 2 (int b - int (c - 1))"
      by (simp add: power_int_diff power_int_of_nat)
    also have "int b - int (c - 1) = int b - int c + 1" using c(3) by simp
    finally show ?thesis .
  qed
  have lo: "power_int 2 (int b - int c - 1) \<le> q"
  proof -
    have "int b - int c - 1 = int (b - 1) - int c" using b(3) by simp
    then have "power_int (2 :: rat) (int b - int c - 1) = power_int 2 (int (b - 1) - int c)" by (simp only:)
    also have "\<dots> = of_nat (2 ^ (b - 1)) / of_nat (2 ^ c)" by (simp add: power_int_diff power_int_of_nat)
    also have "\<dots> \<le> of_nat (nat n) / of_nat (2 ^ c)"
      using b(1) by (intro divide_right_mono) (simp_all del: of_nat_nat of_nat_power add: of_nat_le_iff)
    also have "\<dots> \<le> q"
      unfolding q rn using c(2) d n
      by (intro divide_left_mono) (simp_all del: of_nat_nat of_nat_power add: of_nat_le_iff)
    finally show ?thesis .
  qed
  show ?thesis
  proof (cases "power_int 2 (int b - int c) \<le> q")
    case True
    then have "exponent q = int b - int c" by (simp add: exponent_def nd b_def c_def Let_def)
    with True up show ?thesis by simp
  next
    case False
    then have "exponent q = int b - int c - 1" by (simp add: exponent_def nd b_def c_def Let_def)
    with False lo show ?thesis by simp
  qed
qed

lemma power_int_mono2: "a \<le> b \<Longrightarrow> power_int (2 :: rat) a \<le> power_int 2 b"
  by (simp add: power_int_increasing)

lemma power_int_pos2 [simp]: "0 < power_int (2 :: rat) a"
  by (simp add: zero_less_power_int)

lemma power_int_shift: "(2 :: rat) ^ 52 * power_int 2 (k - 52) = power_int 2 k"
proof -
  have "power_int (2 :: rat) 52 = 2 ^ 52" by (simp only: power_int_numeral)
  moreover have "power_int (2 :: rat) k = power_int 2 52 * power_int 2 (k - 52)"
    using power_int_add [of "2 :: rat" 52 "k - 52"] by simp
  ultimately show ?thesis by (simp only:)
qed

lemma exponent_mono:
  assumes "0 < p" and "p \<le> q"
  shows "exponent p \<le> exponent q"
proof (rule ccontr)
  assume "\<not> exponent p \<le> exponent q"
  then have "exponent q + 1 \<le> exponent p" by simp
  then have "power_int (2 :: rat) (exponent q + 1) \<le> power_int 2 (exponent p)" by (rule power_int_mono2)
  with exponent_bounds [of p] exponent_bounds [of q] assms show False by auto
qed

lemma round_pos_mono:
  assumes "p \<le> q"
  shows "round_pos p \<le> round_pos q"
proof (cases "p \<le> 0")
  case True
  have "0 \<le> round_pos q"
  proof (cases "q \<le> 0")
    case False
    then have "0 \<le> q / power_int 2 (unit_exponent q)" by (simp add: less_imp_le)
    then have "0 \<le> round_half_even (q / power_int 2 (unit_exponent q))"
      using round_half_even_mono [of "of_int 0" "q / power_int 2 (unit_exponent q)"] by simp
    with False show ?thesis by (simp add: round_pos_def)
  qed (simp add: round_pos_def)
  with True show ?thesis by (simp add: round_pos_def)
next
  case False
  then have p: "0 < p" and q: "0 < q" using assms by auto
  let ?e = "unit_exponent p" and ?f = "unit_exponent q"
  have ef: "?e \<le> ?f" using exponent_mono [OF p assms] by (simp add: unit_exponent_def)
  show ?thesis
  proof (cases "?e = ?f")
    case True
    have "round_half_even (p / power_int 2 ?f) \<le> round_half_even (q / power_int 2 ?f)"
      using assms by (intro round_half_even_mono divide_right_mono) (simp_all add: less_imp_le)
    with p q True show ?thesis by (simp add: round_pos_def mult_right_mono)
  next
    case False
    with ef have f: "?f = exponent q - 52" and lt: "?e < ?f" by (auto simp: unit_exponent_def max_def split: if_splits)
    let ?k = "exponent q"
    have pk: "p \<le> power_int 2 ?k"
    proof -
      have "exponent p + 1 \<le> ?k" using lt f by (simp add: unit_exponent_def)
      then have "power_int (2 :: rat) (exponent p + 1) \<le> power_int 2 ?k" by (rule power_int_mono2)
      with exponent_bounds [OF p] show ?thesis by simp
    qed
    have "round_half_even (p / power_int 2 ?e) \<le> round_half_even (of_int (2 ^ nat (?k - ?e)))"
    proof (rule round_half_even_mono)
      have "p / power_int 2 ?e \<le> power_int 2 ?k / power_int 2 ?e"
        using pk by (simp add: divide_right_mono less_imp_le)
      also have "\<dots> = power_int 2 (?k - ?e)" by (simp add: power_int_diff)
      also have "\<dots> = of_int (2 ^ nat (?k - ?e))" using lt f by (simp add: power_int_def)
      finally show "p / power_int 2 ?e \<le> of_int (2 ^ nat (?k - ?e))" .
    qed
    then have "of_int (round_half_even (p / power_int 2 ?e)) \<le> (2 :: rat) ^ nat (?k - ?e)"
      by (simp only: round_half_even_of_int) (metis of_int_le_iff of_int_numeral of_int_power)
    then have "of_int (round_half_even (p / power_int 2 ?e)) * power_int 2 ?e \<le> (2 :: rat) ^ nat (?k - ?e) * power_int 2 ?e"
      by (simp add: mult_right_mono less_imp_le)
    also have "\<dots> = power_int 2 (?k - ?e) * power_int 2 ?e" using lt f by (simp add: power_int_def)
    also have "\<dots> = power_int 2 ?k" by (simp add: power_int_diff)
    finally have 1: "round_pos p \<le> power_int 2 ?k" using p by (simp add: round_pos_def)
    have shift: "(2 :: rat) ^ 52 * power_int 2 ?f = power_int 2 ?k" unfolding f by (rule power_int_shift)
    then have "(2 :: rat) ^ 52 = power_int 2 ?k / power_int 2 ?f"
      by (metis less_irrefl nonzero_mult_div_cancel_right power_int_pos2)
    also have "\<dots> \<le> q / power_int 2 ?f"
      using exponent_bounds [OF q] by (simp add: divide_right_mono less_imp_le)
    finally have "round_half_even (of_int (2 ^ 52)) \<le> round_half_even (q / power_int 2 ?f)"
      by (intro round_half_even_mono) simp
    then have "(2 :: int) ^ 52 \<le> round_half_even (q / power_int 2 ?f)" by (simp only: round_half_even_of_int)
    then have "(2 :: rat) ^ 52 \<le> of_int (round_half_even (q / power_int 2 ?f))"
      by (metis of_int_le_iff of_int_numeral of_int_power)
    then have "(2 :: rat) ^ 52 * power_int 2 ?f \<le> of_int (round_half_even (q / power_int 2 ?f)) * power_int 2 ?f"
      by (simp add: mult_right_mono less_imp_le)
    then have "power_int 2 ?k \<le> round_pos q" using q unfolding shift by (simp add: round_pos_def)
    with 1 show ?thesis by simp
  qed
qed

lemma round_pos_nonneg: "0 \<le> round_pos q"
  using round_pos_mono [of "min 0 q" q] by (simp add: round_pos_def)

lemma round_f64_finite: "0 \<le> q \<Longrightarrow> round_pos q < power_int 2 1024 \<Longrightarrow> round_f64 q = Finite (round_pos q)"
proof -
  assume "0 \<le> q" and "round_pos q < power_int 2 1024"
  then have "\<not> q < 0" "\<not> power_int 2 1024 \<le> round_pos q" by (simp_all only: not_less not_le)
  then show ?thesis unfolding round_f64_def by (simp only: if_False)
qed

text \<open>Whole numbers of up to 53 bits are exact.\<close>

lemma round_pos_exact: "n < 2 ^ 53 \<Longrightarrow> round_pos (of_nat n) = of_nat n"
proof (cases "n = 0")
  case False
  assume n: "n < 2 ^ 53"
  let ?q = "of_nat n :: rat"
  have q: "0 < ?q" using False by simp
  have "exponent ?q \<le> 52"
  proof (rule ccontr)
    assume "\<not> exponent ?q \<le> 52"
    then have "power_int (2 :: rat) 53 \<le> power_int 2 (exponent ?q)" by (intro power_int_mono2) simp
    with exponent_bounds [OF q] have "power_int 2 53 \<le> ?q" by simp
    then have "of_nat (2 ^ 53) \<le> ?q" using power_int_of_nat [of 53] by (simp only: of_nat_numeral)
    with n show False by (simp only: of_nat_le_iff)
  qed
  then have "unit_exponent ?q \<le> 0" by (simp add: unit_exponent_def)
  then obtain m where m: "unit_exponent ?q = - int m" by (metis nonpos_int_cases)
  have pe: "power_int (2 :: rat) (- int m) = inverse (2 ^ m)" by (simp add: power_int_minus)
  have "?q / power_int 2 (unit_exponent ?q) = of_int (int n * 2 ^ m)"
    unfolding m pe by (simp add: divide_inverse)
  then have "round_half_even (?q / power_int 2 (unit_exponent ?q)) = int n * 2 ^ m"
    by (simp only: round_half_even_of_int)
  then show ?thesis using q unfolding round_pos_def by (simp add: m pe not_le)
qed (simp add: round_pos_def)

text \<open>Scaling a 64-bit number of nanoseconds by a positive speed is monotone.\<close>

definition scale_u64 :: "u64 \<Rightarrow> f64 \<Rightarrow> u64" where
  "scale_u64 n speed = u64_of_f64 (f64_div (f64_of_u64 n) speed)"

lemma uint_of_int_u64: "0 \<le> k \<Longrightarrow> k < 2 ^ 64 \<Longrightarrow> uint (of_int k :: u64) = k"
  by (simp add: unsigned_of_int take_bit_int_eq_self)

lemma u64_of_f64_mono: "p \<le> q \<Longrightarrow> u64_of_f64 (Finite p) \<le> u64_of_f64 (Finite q)"
proof -
  assume pq: "p \<le> q"
  have big: "x \<le> (- 1 :: u64)" for x by simp
  show ?thesis
  proof (cases "p \<le> 0 \<or> 2 ^ 64 \<le> q")
    case True
    with pq big show ?thesis by auto
  next
    case False
    then have p: "0 < p" "p < 2 ^ 64" "q < 2 ^ 64" "0 < q" using pq by auto
    have fl: "0 \<le> \<lfloor>p\<rfloor>" "\<lfloor>p\<rfloor> \<le> \<lfloor>q\<rfloor>" "\<lfloor>q\<rfloor> < 2 ^ 64"
      using p floor_mono [OF pq] by (auto simp: floor_less_iff)
    have "uint (of_int \<lfloor>p\<rfloor> :: u64) = \<lfloor>p\<rfloor>" "uint (of_int \<lfloor>q\<rfloor> :: u64) = \<lfloor>q\<rfloor>"
      by (rule uint_of_int_u64, use fl in linarith, use fl in linarith)+
    with fl p show ?thesis by (simp add: word_le_def)
  qed
qed

lemma u64_of_round_mono: "0 \<le> p \<Longrightarrow> p \<le> q \<Longrightarrow> u64_of_f64 (round_f64 p) \<le> u64_of_f64 (round_f64 q)"
  using round_pos_mono [of p q] u64_of_f64_mono [of "round_pos p" "round_pos q"]
  by (auto simp: round_f64_def)

lemma scale_mono:
  assumes "0 < s" and "m \<le> n"
  shows "scale_u64 m (Finite s) \<le> scale_u64 n (Finite s)"
proof -
  have inf: "f64_of_u64 k = Finite (round_pos (of_nat (unat k)))" for k
  proof -
    have "(of_nat (unat k) :: rat) \<le> of_nat (2 ^ 64)" using unsigned_less [of k, where 'a = nat]
      by (simp only: of_nat_le_iff) simp
    from round_pos_mono [OF this] have "round_pos (of_nat (unat k)) \<le> round_pos (of_nat (2 ^ 64))" .
    also have "\<dots> < power_int 2 1024"
    proof -
      have "exponent (2 ^ 64) = 64"
      proof -
        have b: "power_int 2 (exponent (2 ^ 64)) \<le> (2 :: rat) ^ 64" "(2 :: rat) ^ 64 < power_int 2 (exponent (2 ^ 64) + 1)"
          using exponent_bounds [of "2 ^ 64"] by auto
        have p: "(2 :: rat) ^ 64 = power_int 2 64" by (simp add: power_int_def)
        have "\<not> exponent (2 ^ 64) < 64" using b(2) power_int_mono2 [of "exponent (2 ^ 64) + 1" 64] unfolding p by force
        moreover have "\<not> 65 \<le> exponent (2 ^ 64)"
          using b(1) power_int_mono2 [of 65 "exponent (2 ^ 64)"] by (auto simp: power_int_def)
        ultimately show ?thesis by simp
      qed
      then have "round_pos (2 ^ 64) = 2 ^ 64"
        using round_half_even_of_int [of "2 ^ 52"]
        by (simp add: round_pos_def unit_exponent_def power_int_def)
      then show ?thesis by (simp add: power_int_def)
    qed
    finally show ?thesis unfolding f64_of_u64_def by (intro round_f64_finite of_nat_0_le_iff)
  qed
  have "(of_nat (unat m) :: rat) \<le> of_nat (unat n)" using assms(2) by (simp only: of_nat_le_iff word_le_nat_alt)
  from round_pos_mono [OF this] have "round_pos (of_nat (unat m)) / s \<le> round_pos (of_nat (unat n)) / s"
    using assms(1) by (simp add: divide_right_mono)
  moreover have "0 \<le> round_pos (of_nat (unat m)) / s" using assms(1) round_pos_nonneg by simp
  ultimately show ?thesis
    using assms(1) u64_of_round_mono by (simp add: scale_u64_def inf)
qed

lemma u64_of_f64_of_nat: "u64_of_f64 (Finite (of_nat (unat n))) = n"
proof (cases "unat n = 0")
  case True
  then show ?thesis by (simp add: unat_eq_0)
next
  case False
  have "unat n < 2 ^ 64" using unsigned_less [of n, where 'a = nat] by simp
  then have "(of_nat (unat n) :: rat) < of_nat (2 ^ 64)" by (simp only: of_nat_less_iff)
  then have lt: "\<not> 2 ^ 64 \<le> (of_nat (unat n) :: rat)" by simp
  have nz: "\<not> (of_nat (unat n) :: rat) \<le> 0" using False by (simp only: of_nat_le_0_iff not_False_eq_True)
  have "\<lfloor>(of_nat (unat n) :: rat)\<rfloor> = int (unat n)" by (rule floor_of_nat)
  then have "u64_of_f64 (Finite (of_nat (unat n))) = of_int (int (unat n))"
    by (simp only: u64_of_f64.simps lt nz if_False)
  also have "\<dots> = n" by simp
  finally show ?thesis .
qed

lemma scale_one: "unat n < 2 ^ 53 \<Longrightarrow> scale_u64 n (Finite 1) = n"
proof -
  assume n: "unat n < 2 ^ 53"
  have r: "round_pos (of_nat (unat n)) = of_nat (unat n)" using round_pos_exact [OF n] .
  have lt: "(of_nat (unat n) :: rat) < of_nat (2 ^ 53)" using n by (simp only: of_nat_less_iff)
  then have "(of_nat (unat n) :: rat) < power_int 2 (int 53)" by (simp only: power_int_of_nat)
  also have "\<dots> \<le> power_int 2 1024" by (intro power_int_mono2) simp
  finally have "(of_nat (unat n) :: rat) < power_int 2 1024" .
  with r have f: "round_f64 (of_nat (unat n)) = Finite (of_nat (unat n))"
    using round_f64_finite [of "of_nat (unat n)"] by (simp only: of_nat_0_le_iff)
  have "u64_of_f64 (Finite (of_nat (unat n))) = n" by (rule u64_of_f64_of_nat)
  with f show ?thesis by (simp only: scale_u64_def f64_of_u64_def f64_div.simps div_by_1 zero_neq_one [symmetric] if_False)
qed

end
