(* ===== verification/Config.thy ===== *)
theory Config
  imports F64
begin

text \<open>
  The settings of the two binaries (\<open>sillage-common/src/config.rs\<close>): the sections, their
  defaults, the comma-separated token list, and \<open>validate\<close>.

  Reading the TOML file and the environment is the work of the \<open>config\<close> and \<open>serde\<close> packages.
  What they hand over is modelled by the \<open>raw_\<close> records, in which a key that was not given is
  \<open>None\<close>; \<open>resolve\<close> fills in what the \<open>serde(default)\<close> attributes say. A value of the wrong
  type is an error of the packages and is not modelled.

  Doubles are those of theory \<open>F64\<close>.
\<close>

section \<open>Sections\<close>

datatype commitment = Confirmed | Finalized

record tls_config =
  tls_enabled :: bool
  cert_path :: string
  key_path :: string

record server_config =
  listen_addr :: string
  srv_tls :: tls_config

record r2_config =
  r2_bucket :: string
  r2_region :: string
  r2_endpoint_url :: string
  access_key_id :: string
  secret_access_key :: string

record storage_config =
  nvme_path :: string

record log_config =
  log_level :: string
  log_format :: string

record geyser_config =
  g_endpoint :: string
  x_token :: string
  geyser_commitment :: commitment
  max_message_size_bytes :: nat

record writer_config =
  slots_per_chunk :: u64
  out_of_order_tolerance_slots :: u64
  max_open_chunks :: nat
  channel_capacity :: nat

record uploader_config =
  u_scan_interval_secs :: u64
  max_concurrent_uploads :: nat
  u_retry_attempts :: u32
  u_retry_initial_delay_ms :: u64
  u_local_retention_hours :: u64
  disk_pressure_warn_pct :: u8

record pacing_config =
  pacing_enabled :: bool
  speed_multiplier :: f64
  lag_warn_ms :: u64
  lag_drop_ms :: u64

record metrics_config =
  metrics_enabled :: bool
  metrics_listen_addr :: string

record reader_config =
  r_scan_interval_secs :: u64
  max_concurrent_downloads :: nat
  r_local_retention_hours :: u64
  r_retry_attempts :: u32
  r_retry_initial_delay_ms :: u64
  decoded_cache_bytes :: u64
  index_cache_bytes :: u64
  auth_tokens :: "string list"
  subscription_channel_capacity :: nat
  follow_idle_timeout_secs :: u64
  max_connections_total :: nat
  max_connections_per_token :: nat
  r_pacing :: pacing_config
  r_metrics :: metrics_config

record settings =
  s_server :: server_config
  s_r2 :: r2_config
  s_storage :: storage_config
  s_log :: log_config
  s_geyser :: "geyser_config option"
  s_writer :: writer_config
  s_uploader :: uploader_config
  s_reader :: reader_config

section \<open>The \<open>Default\<close> implementations\<close>

definition default_tls :: tls_config where
  "default_tls = \<lparr>tls_enabled = False, cert_path = [], key_path = []\<rparr>"

definition default_server :: server_config where
  "default_server = \<lparr>listen_addr = ''0.0.0.0:10000'', srv_tls = default_tls\<rparr>"

definition default_storage :: storage_config where
  "default_storage = \<lparr>nvme_path = ''/data''\<rparr>"

definition default_log :: log_config where
  "default_log = \<lparr>log_level = ''info'', log_format = ''json''\<rparr>"

definition default_writer :: writer_config where
  "default_writer =
     \<lparr>slots_per_chunk = 1000, out_of_order_tolerance_slots = 100, max_open_chunks = 4,
      channel_capacity = 8192\<rparr>"

definition default_uploader :: uploader_config where
  "default_uploader =
     \<lparr>u_scan_interval_secs = 5, max_concurrent_uploads = 4, u_retry_attempts = 3,
      u_retry_initial_delay_ms = 1000, u_local_retention_hours = 24, disk_pressure_warn_pct = 80\<rparr>"

definition default_pacing :: pacing_config where
  "default_pacing =
     \<lparr>pacing_enabled = True, speed_multiplier = Finite 1, lag_warn_ms = 5000, lag_drop_ms = 30000\<rparr>"

definition default_metrics :: metrics_config where
  "default_metrics = \<lparr>metrics_enabled = True, metrics_listen_addr = ''0.0.0.0:10001''\<rparr>"

definition default_reader :: reader_config where
  "default_reader =
     \<lparr>r_scan_interval_secs = 30, max_concurrent_downloads = 4, r_local_retention_hours = 24,
      r_retry_attempts = 3, r_retry_initial_delay_ms = 1000,
      decoded_cache_bytes = 768 * 1024 * 1024, index_cache_bytes = 134217728, auth_tokens = [],
      subscription_channel_capacity = 1024, follow_idle_timeout_secs = 900,
      max_connections_total = 256, max_connections_per_token = 16,
      r_pacing = default_pacing, r_metrics = default_metrics\<rparr>"

section \<open>Filling in what was not given\<close>

definition or_default :: "'a \<Rightarrow> 'a option \<Rightarrow> 'a" where
  "or_default d x = (case x of None \<Rightarrow> d | Some v \<Rightarrow> v)"

lemma or_default_simps [simp]: "or_default d None = d" "or_default d (Some v) = v"
  by (simp_all add: or_default_def)

text \<open>
  \<open>deserialize_comma_separated_vec\<close>: a sequence is taken as it is, a string is split at the
  commas, the pieces trimmed and the empty ones dropped. Of the white space \<open>trim\<close> removes,
  the six ASCII characters are modelled.
\<close>

datatype token_source = TokenSeq "string list" | TokenStr string

definition is_space :: "char \<Rightarrow> bool" where
  "is_space c \<longleftrightarrow> (of_char c :: nat) = 32 \<or> 9 \<le> (of_char c :: nat) \<and> (of_char c :: nat) \<le> 13"

definition trim_str :: "string \<Rightarrow> string" where
  "trim_str s = rev (dropWhile is_space (rev (dropWhile is_space s)))"

fun split_on :: "char \<Rightarrow> string \<Rightarrow> string list" where
  "split_on c [] = [[]]"
| "split_on c (x # xs) =
     (if x = c then [] # split_on c xs
      else (case split_on c xs of [] \<Rightarrow> [[x]] | y # ys \<Rightarrow> (x # y) # ys))"

fun deserialize_comma_separated_vec :: "token_source \<Rightarrow> string list" where
  "deserialize_comma_separated_vec (TokenSeq items) = items"
| "deserialize_comma_separated_vec (TokenStr value) =
     filter (\<lambda>s. s \<noteq> []) (map trim_str (split_on (CHR '','') value))"

record raw_tls =
  raw_tls_enabled :: "bool option"
  raw_cert_path :: "string option"
  raw_key_path :: "string option"

definition resolve_tls :: "raw_tls option \<Rightarrow> tls_config" where
  "resolve_tls sec =
     (case sec of
        None \<Rightarrow> default_tls
      | Some raw \<Rightarrow>
          \<lparr>tls_enabled = or_default False (raw_tls_enabled raw),
           cert_path = or_default [] (raw_cert_path raw),
           key_path = or_default [] (raw_key_path raw)\<rparr>)"

record raw_server =
  raw_listen_addr :: "string option"
  raw_server_tls :: "raw_tls option"

definition resolve_server :: "raw_server option \<Rightarrow> server_config" where
  "resolve_server sec =
     (case sec of
        None \<Rightarrow> default_server
      | Some raw \<Rightarrow>
          \<lparr>listen_addr = or_default ''0.0.0.0:10000'' (raw_listen_addr raw),
           srv_tls = resolve_tls (raw_server_tls raw)\<rparr>)"

text \<open>The \<open>[r2]\<close> section has keys without a default: \<open>None\<close> is the error for a missing one.\<close>

record raw_r2 =
  raw_bucket :: "string option"
  raw_region :: "string option"
  raw_endpoint_url :: "string option"
  raw_access_key_id :: "string option"
  raw_secret_access_key :: "string option"

definition resolve_r2 :: "raw_r2 option \<Rightarrow> r2_config option" where
  "resolve_r2 sec =
     do { raw \<leftarrow> sec;
          b \<leftarrow> raw_bucket raw;
          key \<leftarrow> raw_access_key_id raw;
          secret \<leftarrow> raw_secret_access_key raw;
          Some \<lparr>r2_bucket = b, r2_region = or_default ''auto'' (raw_region raw),
                r2_endpoint_url = or_default ''https://example.r2.cloudflarestorage.com'' (raw_endpoint_url raw),
                access_key_id = key, secret_access_key = secret\<rparr> }"

record raw_log =
  raw_level :: "string option"
  raw_format :: "string option"

definition resolve_storage :: "string option option \<Rightarrow> storage_config" where
  "resolve_storage sec =
     (case sec of None \<Rightarrow> default_storage | Some raw \<Rightarrow> \<lparr>nvme_path = or_default ''/data'' raw\<rparr>)"

definition resolve_log :: "raw_log option \<Rightarrow> log_config" where
  "resolve_log sec =
     (case sec of
        None \<Rightarrow> default_log
      | Some raw \<Rightarrow> \<lparr>log_level = or_default ''info'' (raw_level raw),
                     log_format = or_default ''json'' (raw_format raw)\<rparr>)"

record raw_geyser =
  raw_endpoint :: "string option"
  raw_x_token :: "string option"
  raw_commitment :: "commitment option"
  raw_max_message_size_bytes :: "nat option"

text \<open>The \<open>[geyser]\<close> section may be missing; when it is there it needs an endpoint.\<close>

definition resolve_geyser :: "raw_geyser option \<Rightarrow> geyser_config option option" where
  "resolve_geyser sec =
     (case sec of
        None \<Rightarrow> Some None
      | Some raw \<Rightarrow>
          do { e \<leftarrow> raw_endpoint raw;
               Some (Some \<lparr>g_endpoint = e, x_token = or_default [] (raw_x_token raw),
                           geyser_commitment = or_default Confirmed (raw_commitment raw),
                           max_message_size_bytes =
                             or_default (64 * 1024 * 1024) (raw_max_message_size_bytes raw)\<rparr>) })"

record raw_writer =
  raw_slots_per_chunk :: "u64 option"
  raw_out_of_order_tolerance_slots :: "u64 option"
  raw_max_open_chunks :: "nat option"
  raw_channel_capacity :: "nat option"

definition resolve_writer :: "raw_writer option \<Rightarrow> writer_config" where
  "resolve_writer sec =
     (case sec of
        None \<Rightarrow> default_writer
      | Some raw \<Rightarrow>
          \<lparr>slots_per_chunk = or_default 1000 (raw_slots_per_chunk raw),
           out_of_order_tolerance_slots = or_default 100 (raw_out_of_order_tolerance_slots raw),
           max_open_chunks = or_default 4 (raw_max_open_chunks raw),
           channel_capacity = or_default 8192 (raw_channel_capacity raw)\<rparr>)"

record raw_uploader =
  raw_u_scan_interval_secs :: "u64 option"
  raw_max_concurrent_uploads :: "nat option"
  raw_u_retry_attempts :: "u32 option"
  raw_u_retry_initial_delay_ms :: "u64 option"
  raw_u_local_retention_hours :: "u64 option"
  raw_disk_pressure_warn_pct :: "u8 option"

definition resolve_uploader :: "raw_uploader option \<Rightarrow> uploader_config" where
  "resolve_uploader sec =
     (case sec of
        None \<Rightarrow> default_uploader
      | Some raw \<Rightarrow>
          \<lparr>u_scan_interval_secs = or_default 5 (raw_u_scan_interval_secs raw),
           max_concurrent_uploads = or_default 4 (raw_max_concurrent_uploads raw),
           u_retry_attempts = or_default 3 (raw_u_retry_attempts raw),
           u_retry_initial_delay_ms = or_default 1000 (raw_u_retry_initial_delay_ms raw),
           u_local_retention_hours = or_default 24 (raw_u_local_retention_hours raw),
           disk_pressure_warn_pct = or_default 80 (raw_disk_pressure_warn_pct raw)\<rparr>)"

record raw_pacing =
  raw_pacing_enabled :: "bool option"
  raw_speed_multiplier :: "f64 option"
  raw_lag_warn_ms :: "u64 option"
  raw_lag_drop_ms :: "u64 option"

definition resolve_pacing :: "raw_pacing option \<Rightarrow> pacing_config" where
  "resolve_pacing sec =
     (case sec of
        None \<Rightarrow> default_pacing
      | Some raw \<Rightarrow>
          \<lparr>pacing_enabled = or_default True (raw_pacing_enabled raw),
           speed_multiplier = or_default (Finite 1) (raw_speed_multiplier raw),
           lag_warn_ms = or_default 5000 (raw_lag_warn_ms raw),
           lag_drop_ms = or_default 30000 (raw_lag_drop_ms raw)\<rparr>)"

record raw_metrics =
  raw_metrics_enabled :: "bool option"
  raw_metrics_listen_addr :: "string option"

definition resolve_metrics :: "raw_metrics option \<Rightarrow> metrics_config" where
  "resolve_metrics sec =
     (case sec of
        None \<Rightarrow> default_metrics
      | Some raw \<Rightarrow>
          \<lparr>metrics_enabled = or_default True (raw_metrics_enabled raw),
           metrics_listen_addr = or_default ''0.0.0.0:10001'' (raw_metrics_listen_addr raw)\<rparr>)"

record raw_reader =
  raw_r_scan_interval_secs :: "u64 option"
  raw_max_concurrent_downloads :: "nat option"
  raw_r_local_retention_hours :: "u64 option"
  raw_r_retry_attempts :: "u32 option"
  raw_r_retry_initial_delay_ms :: "u64 option"
  raw_decoded_cache_bytes :: "u64 option"
  raw_index_cache_bytes :: "u64 option"
  raw_auth_tokens :: "token_source option"
  raw_subscription_channel_capacity :: "nat option"
  raw_follow_idle_timeout_secs :: "u64 option"
  raw_max_connections_total :: "nat option"
  raw_max_connections_per_token :: "nat option"
  raw_r_pacing :: "raw_pacing option"
  raw_r_metrics :: "raw_metrics option"

definition resolve_reader :: "raw_reader option \<Rightarrow> reader_config" where
  "resolve_reader sec =
     (case sec of
        None \<Rightarrow> default_reader
      | Some raw \<Rightarrow>
          \<lparr>r_scan_interval_secs = or_default 30 (raw_r_scan_interval_secs raw),
           max_concurrent_downloads = or_default 4 (raw_max_concurrent_downloads raw),
           r_local_retention_hours = or_default 24 (raw_r_local_retention_hours raw),
           r_retry_attempts = or_default 3 (raw_r_retry_attempts raw),
           r_retry_initial_delay_ms = or_default 1000 (raw_r_retry_initial_delay_ms raw),
           decoded_cache_bytes = or_default (768 * 1024 * 1024) (raw_decoded_cache_bytes raw),
           index_cache_bytes = or_default 134217728 (raw_index_cache_bytes raw),
           auth_tokens = (case raw_auth_tokens raw of
                            None \<Rightarrow> [] | Some src \<Rightarrow> deserialize_comma_separated_vec src),
           subscription_channel_capacity = or_default 1024 (raw_subscription_channel_capacity raw),
           follow_idle_timeout_secs = or_default 900 (raw_follow_idle_timeout_secs raw),
           max_connections_total = or_default 256 (raw_max_connections_total raw),
           max_connections_per_token = or_default 16 (raw_max_connections_per_token raw),
           r_pacing = resolve_pacing (raw_r_pacing raw),
           r_metrics = resolve_metrics (raw_r_metrics raw)\<rparr>)"

record raw_settings =
  raw_s_server :: "raw_server option"
  raw_s_r2 :: "raw_r2 option"
  raw_s_storage :: "string option option"
  raw_s_log :: "raw_log option"
  raw_s_geyser :: "raw_geyser option"
  raw_s_writer :: "raw_writer option"
  raw_s_uploader :: "raw_uploader option"
  raw_s_reader :: "raw_reader option"

definition resolve_settings :: "raw_settings \<Rightarrow> settings option" where
  "resolve_settings raw =
     do { r2 \<leftarrow> resolve_r2 (raw_s_r2 raw);
          g \<leftarrow> resolve_geyser (raw_s_geyser raw);
          Some \<lparr>s_server = resolve_server (raw_s_server raw), s_r2 = r2,
                s_storage = resolve_storage (raw_s_storage raw), s_log = resolve_log (raw_s_log raw),
                s_geyser = g, s_writer = resolve_writer (raw_s_writer raw),
                s_uploader = resolve_uploader (raw_s_uploader raw),
                s_reader = resolve_reader (raw_s_reader raw)\<rparr> }"

section \<open>Loading\<close>

datatype config_error =
    SourceFailed
  | DeserializeFailed
  | BadSpeedMultiplier f64
  | TlsWithoutCert
  | TlsWithoutKey
  | BadMetricsAddr string

text \<open>\<open>is_addr\<close> is whether \<open>str::parse::<SocketAddr>\<close> accepts the address.\<close>

definition validate :: "(string \<Rightarrow> bool) \<Rightarrow> settings \<Rightarrow> config_error + unit" where
  "validate is_addr cfg =
     (let m = speed_multiplier (r_pacing (s_reader cfg));
          t = srv_tls (s_server cfg);
          mc = r_metrics (s_reader cfg)
      in if \<not> is_finite m \<or> le_zero m then Inl (BadSpeedMultiplier m)
         else if tls_enabled t \<and> cert_path t = [] then Inl TlsWithoutCert
         else if tls_enabled t \<and> key_path t = [] then Inl TlsWithoutKey
         else if metrics_enabled mc \<and> \<not> is_addr (metrics_listen_addr mc)
              then Inl (BadMetricsAddr (metrics_listen_addr mc))
         else Inr ())"

text \<open>
  \<open>load\<close> and \<open>load_from_path\<close> differ in the path and in whether the file must exist.
  \<open>build\<close> is the builder of the \<open>config\<close> package on that path.
\<close>

definition load_settings :: "(string \<Rightarrow> bool) \<Rightarrow> (string \<Rightarrow> bool \<Rightarrow> raw_settings option) \<Rightarrow> string \<Rightarrow> bool
    \<Rightarrow> config_error + settings" where
  "load_settings is_addr build path required =
     (case build path required of
        None \<Rightarrow> Inl SourceFailed
      | Some raw \<Rightarrow>
          (case resolve_settings raw of
             None \<Rightarrow> Inl DeserializeFailed
           | Some cfg \<Rightarrow> (case validate is_addr cfg of Inl e \<Rightarrow> Inl e | Inr _ \<Rightarrow> Inr cfg)))"

definition settings_load :: "(string \<Rightarrow> bool) \<Rightarrow> (string \<Rightarrow> bool \<Rightarrow> raw_settings option) \<Rightarrow> string option
    \<Rightarrow> config_error + settings" where
  "settings_load is_addr build config_path_var =
     load_settings is_addr build (or_default ''config/default'' config_path_var) False"

definition settings_load_from_path :: "(string \<Rightarrow> bool) \<Rightarrow> (string \<Rightarrow> bool \<Rightarrow> raw_settings option) \<Rightarrow> string
    \<Rightarrow> config_error + settings" where
  "settings_load_from_path is_addr build path = load_settings is_addr build path True"

lemmas defaults =
  default_tls_def default_server_def default_storage_def default_log_def default_writer_def
  default_uploader_def default_pacing_def default_metrics_def default_reader_def

lemmas resolve_defs =
  resolve_tls_def resolve_server_def resolve_storage_def resolve_log_def resolve_writer_def
  resolve_uploader_def resolve_pacing_def resolve_metrics_def resolve_reader_def

section \<open>The token list\<close>

lemma split_on_no [simp]: "c \<notin> set s \<Longrightarrow> split_on c s = [s]"
  by (induction s) auto

lemma split_on_append [simp]: "c \<notin> set s \<Longrightarrow> split_on c (s @ c # t) = s # split_on c t"
  by (induction s) auto

lemma split_on_pieces: "p \<in> set (split_on c s) \<Longrightarrow> c \<notin> set p \<and> set p \<subseteq> set s"
  by (induction s arbitrary: p) (fastforce split: if_splits list.splits)+

lemma set_trim_str: "set (trim_str s) \<subseteq> set s"
  by (auto simp: trim_str_def dest!: set_dropWhileD)

text \<open>A piece with no white space at either end, as \<open>trim\<close> leaves it.\<close>

definition trimmed :: "string \<Rightarrow> bool" where
  "trimmed s \<longleftrightarrow> s \<noteq> [] \<and> \<not> is_space (hd s) \<and> \<not> is_space (last s)"

lemma trim_str_trimmed: "trimmed s \<Longrightarrow> \<forall>c \<in> set a. is_space c \<Longrightarrow> \<forall>c \<in> set b. is_space c \<Longrightarrow>
  trim_str (a @ s @ b) = s"
proof -
  assume t: "trimmed s" and a: "\<forall>c \<in> set a. is_space c" and b: "\<forall>c \<in> set b. is_space c"
  obtain x xs where s: "s = x # xs" and x: "\<not> is_space x" using t by (cases s) (auto simp: trimmed_def)
  obtain ys y where s': "s = ys @ [y]" and y: "\<not> is_space y"
    using t by (cases s rule: rev_cases) (auto simp: trimmed_def)
  have "dropWhile is_space (a @ s @ b) = s @ b"
    using a x by (simp add: dropWhile_append2 s)
  moreover have "dropWhile is_space (rev b @ rev s) = dropWhile is_space (rev s)"
    using b by (intro dropWhile_append2) simp
  then have "dropWhile is_space (rev (s @ b)) = rev s"
    using y by (simp add: s')
  ultimately show ?thesis by (simp add: trim_str_def)
qed

lemma dropWhile_last: "xs \<noteq> [] \<Longrightarrow> \<not> P (last xs) \<Longrightarrow> dropWhile P xs \<noteq> [] \<and> last (dropWhile P xs) = last xs"
  by (induction xs) (auto split: if_splits)

lemma trim_str_result: "trim_str s \<noteq> [] \<Longrightarrow> trimmed (trim_str s)"
proof -
  let ?d = "dropWhile is_space s"
  assume ne: "trim_str s \<noteq> []"
  then have r: "dropWhile is_space (rev ?d) \<noteq> []" by (simp only: trim_str_def rev_is_Nil_conv not_False_eq_True)
  then have d: "?d \<noteq> []" by (metis dropWhile.simps(1) rev.simps(1))
  have "\<not> is_space (hd ?d)" using d by (rule hd_dropWhile)
  with d have "last (dropWhile is_space (rev ?d)) = last (rev ?d)"
    using dropWhile_last [of "rev ?d" is_space] by (simp add: last_rev del: dropWhile_eq_Nil_conv)
  then have "hd (trim_str s) = hd ?d" using d r by (simp add: trim_str_def hd_rev last_rev)
  moreover have "\<not> is_space (last (trim_str s))"
    using hd_dropWhile [OF r] r by (simp add: trim_str_def last_rev)
  ultimately show ?thesis using ne \<open>\<not> is_space (hd ?d)\<close> by (simp add: trimmed_def)
qed

lemma comma_separated_tokens:
  assumes "t \<in> set (deserialize_comma_separated_vec (TokenStr s))"
  shows "trimmed t \<and> CHR '','' \<notin> set t"
proof -
  from assms obtain p where p: "p \<in> set (split_on (CHR '','') s)" "t = trim_str p" "t \<noteq> []" by auto
  then show ?thesis using trim_str_result [of p] split_on_pieces [OF p(1)] set_trim_str [of p] by auto
qed

fun join :: "string \<Rightarrow> string list \<Rightarrow> string" where
  "join sep [] = []"
| "join sep [x] = x"
| "join sep (x # y # ys) = x @ sep @ join sep (y # ys)"

lemma comma_separated_join:
  assumes "\<forall>t \<in> set ts. trimmed t \<and> CHR '','' \<notin> set t" and "\<forall>c \<in> set sp. is_space c" and "CHR '','' \<notin> set sp"
  shows "deserialize_comma_separated_vec (TokenStr (sp @ join ((CHR '','') # sp) ts)) = ts"
  using assms(1)
proof (induction ts)
  case Nil
  have "dropWhile is_space sp = []" using assms(2) by (simp only: dropWhile_eq_Nil_conv)
  then have "trim_str sp = []" by (simp only: trim_str_def) simp
  with assms(3) show ?case by simp
next
  case (Cons t ts)
  then have t: "trimmed t" "CHR '','' \<notin> set t" by auto
  have trim: "trim_str (sp @ t) = t" using trim_str_trimmed [OF t(1) assms(2), of "[]"] by simp
  have ne: "t \<noteq> []" using t(1) by (simp add: trimmed_def)
  show ?case
  proof (cases ts)
    case Nil
    with t(2) assms(3) trim ne show ?thesis by simp
  next
    case (Cons u us)
    have "split_on (CHR '','') (sp @ t @ (CHR '','') # sp @ join ((CHR '','') # sp) ts) =
      (sp @ t) # split_on (CHR '','') (sp @ join ((CHR '','') # sp) ts)"
      using split_on_append [of "CHR '',''" "sp @ t"] t(2) assms(3) by simp
    with Cons.IH Cons.prems Cons trim ne show ?thesis by simp
  qed
qed

section \<open>Properties\<close>

text \<open>Leaving a section out of the configuration, giving it empty, and the \<open>Default\<close> of its type are
  the same, for every section that has a default and for the nested ones. The defaults are stated
  twice in the code, once per field for \<open>serde\<close> and once in \<open>Default\<close>.\<close>

theorem defaults_agree:
  "resolve_tls (Some \<lparr>raw_tls_enabled = None, raw_cert_path = None, raw_key_path = None\<rparr>) = default_tls \<and>
   resolve_server (Some \<lparr>raw_listen_addr = None, raw_server_tls = None\<rparr>) = default_server \<and>
   resolve_server None = default_server \<and>
   resolve_storage (Some None) = default_storage \<and> resolve_storage None = default_storage \<and>
   resolve_log (Some \<lparr>raw_level = None, raw_format = None\<rparr>) = default_log \<and> resolve_log None = default_log \<and>
   resolve_writer (Some \<lparr>raw_slots_per_chunk = None, raw_out_of_order_tolerance_slots = None,
     raw_max_open_chunks = None, raw_channel_capacity = None\<rparr>) = default_writer \<and> resolve_writer None = default_writer \<and>
   resolve_uploader (Some \<lparr>raw_u_scan_interval_secs = None, raw_max_concurrent_uploads = None,
     raw_u_retry_attempts = None, raw_u_retry_initial_delay_ms = None, raw_u_local_retention_hours = None,
     raw_disk_pressure_warn_pct = None\<rparr>) = default_uploader \<and> resolve_uploader None = default_uploader \<and>
   resolve_pacing (Some \<lparr>raw_pacing_enabled = None, raw_speed_multiplier = None, raw_lag_warn_ms = None,
     raw_lag_drop_ms = None\<rparr>) = default_pacing \<and>
   resolve_metrics (Some \<lparr>raw_metrics_enabled = None, raw_metrics_listen_addr = None\<rparr>) = default_metrics \<and>
   resolve_reader (Some \<lparr>raw_r_scan_interval_secs = None, raw_max_concurrent_downloads = None,
     raw_r_local_retention_hours = None, raw_r_retry_attempts = None, raw_r_retry_initial_delay_ms = None,
     raw_decoded_cache_bytes = None, raw_index_cache_bytes = None, raw_auth_tokens = None,
     raw_subscription_channel_capacity = None, raw_follow_idle_timeout_secs = None,
     raw_max_connections_total = None, raw_max_connections_per_token = None,
     raw_r_pacing = None, raw_r_metrics = None\<rparr>) = default_reader \<and> resolve_reader None = default_reader"
  by (simp add: resolve_defs defaults)


definition example_raw :: raw_settings where
  "example_raw =
     \<lparr>raw_s_server = None,
      raw_s_r2 = Some \<lparr>raw_bucket = Some ''b'', raw_region = None, raw_endpoint_url = None,
                       raw_access_key_id = Some ''k'', raw_secret_access_key = Some ''s''\<rparr>,
      raw_s_storage = None, raw_s_log = None, raw_s_geyser = None, raw_s_writer = None,
      raw_s_uploader = None, raw_s_reader = None\<rparr>"


text \<open>The comma separated form of the token list loses nothing: joining any tokens that have no comma
  and no white space at their ends, with a comma and any white space between them, and reading the
  text back gives the tokens; and every token that is read is of this form.\<close>

theorem token_list_roundtrip:
  assumes "\<forall>t \<in> set ts. trimmed t \<and> CHR '','' \<notin> set t" and "\<forall>c \<in> set sp. is_space c" and "CHR '','' \<notin> set sp"
  shows "deserialize_comma_separated_vec (TokenStr (sp @ join ((CHR '','') # sp) ts)) = ts \<and>
    (\<forall>t \<in> set (deserialize_comma_separated_vec (TokenStr s)). trimmed t \<and> CHR '','' \<notin> set t)"
  using comma_separated_join [OF assms] comma_separated_tokens by blast

lemma token_list_roundtrip_witness:
  "deserialize_comma_separated_vec (TokenStr '' a b, c'') = [''a b'', ''c'']"
proof -
  have "\<forall>t \<in> set [''a b'', ''c'']. trimmed t \<and> CHR '','' \<notin> set t" by (simp add: trimmed_def is_space_def)
  moreover have "\<forall>c \<in> set '' ''. is_space c" "CHR '','' \<notin> set '' ''" by (simp_all add: is_space_def)
  ultimately have "deserialize_comma_separated_vec (TokenStr ('' '' @ join ((CHR '','') # '' '') [''a b'', ''c''])) = [''a b'', ''c'']"
    by (rule conjunct1 [OF token_list_roundtrip])
  moreover have "'' '' @ join ((CHR '','') # '' '') [''a b'', ''c''] = '' a b, c''" by simp
  ultimately show ?thesis by (simp only:)
qed

end
