(* ===== verification/Common.thy ===== *)
theory Common
  imports Prelude
begin

text \<open>
  The data every component shares: the three streams (\<open>sillage-common/src/stream.rs\<close>), the
  dimension names and value types of the index format (\<open>sillage-common/src/idx.rs\<close>), and
  the Yellowstone update messages.

  The update messages are types generated from the \<open>yellowstone-grpc-proto\<close> package, which
  is not part of the repository. The records below hold the fields the sources read; the
  protobuf encoding of a message is never defined, it is a parameter wherever it is used.
\<close>

section \<open>Streams\<close>

datatype stream = Tx | Acct | Block

fun as_str :: "stream \<Rightarrow> string" where
  "as_str Tx = ''tx''"
| "as_str Acct = ''acct''"
| "as_str Block = ''block''"

definition all_streams :: "stream list" where
  "all_streams = [Tx, Acct, Block]"

lemma as_str_inj [simp]: "as_str a = as_str b \<longleftrightarrow> a = b"
  by (cases a; cases b) simp_all

lemma as_str_no_slash [simp]: "CHR ''/'' \<notin> set (as_str s)"
  by (cases s) simp_all

lemma in_all_streams [simp]: "s \<in> set all_streams"
  by (cases s) (simp_all add: all_streams_def)

lemma distinct_all_streams [simp]: "distinct all_streams"
  by (simp add: all_streams_def)

section \<open>Update messages\<close>

record timestamp =
  seconds :: u64
  nanos :: u32

record tx_message =
  account_keys :: "bytes list"
  instructions :: "u32 list" \<comment> \<open>the \<open>program_id_index\<close> of each top-level instruction\<close>

record tx_meta =
  err :: "bytes option"
  loaded_writable_addresses :: "bytes list"
  loaded_readonly_addresses :: "bytes list"

record tx_info =
  signature :: bytes
  is_vote :: bool
  tx_body :: "tx_message option option" \<comment> \<open>\<open>transaction\<close>, and its \<open>message\<close>\<close>
  meta :: "tx_meta option"

record acct_info =
  pubkey :: bytes
  owner :: bytes
  acct_data :: bytes

record tx_update =
  tx_slot :: u64
  transaction :: "tx_info option"

record acct_update =
  acct_slot :: u64
  account :: "acct_info option"

record block_update =
  block_slot :: u64
  parent_slot :: u64
  blockhash :: string

datatype update_oneof =
    UTransaction tx_update
  | UAccount acct_update
  | UBlockMeta block_update
  | UPing
  | UPong u32
  | USlot u64
  | UTransactionStatus u64 bytes
  | UBlock
  | UEntry

record subscribe_update =
  filters :: "string list"
  created_at :: "timestamp option"
  update_oneof :: "update_oneof option"

text \<open>\<open>slot::extract_slot\<close>: only the three recorded kinds carry a slot.\<close>

fun oneof_slot :: "update_oneof option \<Rightarrow> u64 option" where
  "oneof_slot (Some (UTransaction t)) = Some (tx_slot t)"
| "oneof_slot (Some (UAccount a)) = Some (acct_slot a)"
| "oneof_slot (Some (UBlockMeta b)) = Some (block_slot b)"
| "oneof_slot _ = None"

definition extract_slot :: "subscribe_update \<Rightarrow> u64 option" where
  "extract_slot u = oneof_slot (update_oneof u)"

section \<open>Index dimensions\<close>

definition DIM_PROGRAM_ID :: string where "DIM_PROGRAM_ID = ''program_id''"
definition DIM_ACCOUNT_KEY :: string where "DIM_ACCOUNT_KEY = ''account_key''"
definition DIM_SIGNATURE :: string where "DIM_SIGNATURE = ''signature''"
definition DIM_VOTE_FLAG :: string where "DIM_VOTE_FLAG = ''vote_flag''"
definition DIM_FAILED_FLAG :: string where "DIM_FAILED_FLAG = ''failed_flag''"
definition DIM_ACCOUNT_PUBKEY :: string where "DIM_ACCOUNT_PUBKEY = ''account_pubkey''"
definition DIM_OWNER_PROGRAM :: string where "DIM_OWNER_PROGRAM = ''owner_program''"
definition DIM_SLOT :: string where "DIM_SLOT = ''slot''"
definition DIM_PARENT_SLOT :: string where "DIM_PARENT_SLOT = ''parent_slot''"

lemmas dim_defs = DIM_PROGRAM_ID_def DIM_ACCOUNT_KEY_def DIM_SIGNATURE_def DIM_VOTE_FLAG_def
  DIM_FAILED_FLAG_def DIM_ACCOUNT_PUBKEY_def DIM_OWNER_PROGRAM_def DIM_SLOT_def
  DIM_PARENT_SLOT_def

datatype dim_value = DBytes bytes | DU64 u64 | DBool bool

datatype dim_value_type = Pubkey32 | Signature64 | TU64 | TBool

record dim_entry_header =
  de_value :: dim_value
  de_offset :: u64
  de_length :: u64

record dimension_header =
  dh_name :: string
  dh_value_type :: dim_value_type
  dh_entries :: "dim_entry_header list"

record idx_header =
  ih_stream :: string
  ih_start_slot :: u64
  ih_end_slot :: u64
  ih_message_count :: u64
  ih_dimensions :: "dimension_header list"

definition IDX_MAGIC :: bytes where
  "IDX_MAGIC = [0x53, 0x49, 0x44, 0x58]"

definition IDX_VERSION :: u8 where
  "IDX_VERSION = 1"

section \<open>Chunk metadata\<close>

definition SCHEMA_VERSION :: u32 where
  "SCHEMA_VERSION = 1"

record chunk_meta =
  schema_version :: u32
  cm_stream :: string
  start_slot :: u64
  end_slot_exclusive :: u64
  first_message_slot :: "u64 option"
  last_message_slot :: "u64 option"
  message_count :: u64
  uncompressed_bytes :: u64
  compressed_bytes :: u64
  recv_ns_first :: "u64 option"
  recv_ns_last :: "u64 option"
  sealed_reason :: string
  index_dimensions :: "string list"

end
