(* ===== verification/Bitmap.thy ===== *)
theory Bitmap
  imports Common
begin

text \<open>
  The interface of the \<open>roaring\<close> package, which is not part of the repository: a record of
  the operations the sources call, passed to every definition that uses bitmaps, and the
  documented behaviour of the operations as the predicate \<open>roaring_ok\<close>. A bitmap is a set
  of 32-bit ordinals read through \<open>contains\<close>.

  The last section is an instance on sorted lists. It shows that the hypotheses can hold,
  and witnesses evaluate with it.
\<close>

record 'bm roaring =
  rb_new :: 'bm
  rb_insert :: "'bm \<Rightarrow> u32 \<Rightarrow> 'bm"
  rb_contains :: "'bm \<Rightarrow> u32 \<Rightarrow> bool"
  rb_or :: "'bm \<Rightarrow> 'bm \<Rightarrow> 'bm"
  rb_and :: "'bm \<Rightarrow> 'bm \<Rightarrow> 'bm"
  rb_sub :: "'bm \<Rightarrow> 'bm \<Rightarrow> 'bm"
  rb_is_empty :: "'bm \<Rightarrow> bool"
  rb_from_sorted_iter :: "u32 list \<Rightarrow> 'bm option"
  rb_into_iter :: "'bm \<Rightarrow> u32 list"
  rb_serialize :: "'bm \<Rightarrow> bytes"
  rb_deserialize :: "bytes \<Rightarrow> 'bm option"

definition elems :: "'bm roaring \<Rightarrow> 'bm \<Rightarrow> u32 set" where
  "elems R b = {x. rb_contains R b x}"

definition roaring_ok :: "'bm roaring \<Rightarrow> bool" where
  "roaring_ok R \<longleftrightarrow>
     elems R (rb_new R) = {} \<and>
     (\<forall>b x. elems R (rb_insert R b x) = insert x (elems R b)) \<and>
     (\<forall>a b. elems R (rb_or R a b) = elems R a \<union> elems R b) \<and>
     (\<forall>a b. elems R (rb_and R a b) = elems R a \<inter> elems R b) \<and>
     (\<forall>a b. elems R (rb_sub R a b) = elems R a - elems R b) \<and>
     (\<forall>b. rb_is_empty R b \<longleftrightarrow> elems R b = {}) \<and>
     (\<forall>xs. sorted_wrt (<) xs \<longrightarrow> (\<exists>b. rb_from_sorted_iter R xs = Some b \<and> elems R b = set xs)) \<and>
     (\<forall>b. sorted_wrt (<) (rb_into_iter R b) \<and> set (rb_into_iter R b) = elems R b) \<and>
     (\<forall>b. \<exists>b'. rb_deserialize R (rb_serialize R b) = Some b' \<and> elems R b' = elems R b)"

lemma roaring_laws:
  assumes "roaring_ok R"
  shows elems_new: "elems R (rb_new R) = {}"
    and elems_insert: "elems R (rb_insert R b x) = insert x (elems R b)"
    and elems_or: "elems R (rb_or R a b) = elems R a \<union> elems R b"
    and elems_and: "elems R (rb_and R a b) = elems R a \<inter> elems R b"
    and elems_sub: "elems R (rb_sub R a b) = elems R a - elems R b"
    and rb_is_empty_iff: "rb_is_empty R b \<longleftrightarrow> elems R b = {}"
    and into_iter_sorted: "sorted_wrt (<) (rb_into_iter R b)"
    and set_into_iter: "set (rb_into_iter R b) = elems R b"
  using assms by (simp_all add: roaring_ok_def)

lemma roaring_from_sorted:
  "roaring_ok R \<Longrightarrow> sorted_wrt (<) xs \<Longrightarrow> \<exists>b. rb_from_sorted_iter R xs = Some b \<and> elems R b = set xs"
  by (simp add: roaring_ok_def)

lemma roaring_deserialize:
  "roaring_ok R \<Longrightarrow> \<exists>b'. rb_deserialize R (rb_serialize R b) = Some b' \<and> elems R b' = elems R b"
  by (simp add: roaring_ok_def)

lemma rb_contains_elems: "rb_contains R b x \<longleftrightarrow> x \<in> elems R b"
  by (simp add: elems_def)

section \<open>An instance on sorted lists\<close>

fun words_of_bytes :: "bytes \<Rightarrow> u32 list option" where
  "words_of_bytes [] = Some []"
| "words_of_bytes (a # b # c # d # rest) =
     map_option ((#) (u32_from_le a b c d)) (words_of_bytes rest)"
| "words_of_bytes _ = None"

definition list_roaring :: "u32 list roaring" where
  "list_roaring =
     \<lparr>rb_new = [],
      rb_insert = (\<lambda>b x. insort_insert x b),
      rb_contains = (\<lambda>b x. x \<in> set b),
      rb_or = (\<lambda>a b. sort (remdups (a @ b))),
      rb_and = (\<lambda>a b. filter (\<lambda>x. x \<in> set b) a),
      rb_sub = (\<lambda>a b. filter (\<lambda>x. x \<notin> set b) a),
      rb_is_empty = (\<lambda>b. b = []),
      rb_from_sorted_iter = (\<lambda>xs. if sorted_wrt (<) xs then Some xs else None),
      rb_into_iter = (\<lambda>b. sort (remdups b)),
      rb_serialize = (\<lambda>b. concat (map u32_to_le b)),
      rb_deserialize = words_of_bytes\<rparr>"

lemma words_of_bytes_serialize: "words_of_bytes (concat (map u32_to_le ws)) = Some ws"
  by (induction ws) (simp_all add: u32_to_le_def)

lemma elems_list_roaring [simp]: "elems list_roaring b = set b"
  by (simp add: elems_def list_roaring_def)

lemma list_roaring_ok: "roaring_ok list_roaring"
  unfolding roaring_ok_def elems_list_roaring
  by (auto simp: list_roaring_def set_insort_insert words_of_bytes_serialize strict_sorted_iff)

end
