(* ===== verification/Names.thy ===== *)
theory Names
  imports Common
begin

text \<open>
  Chunk file names and object keys, and the two containers the components that list them use.

  A chunk is three files named \<open>{start:012}-{end:012}.{zst,idx,meta.json}\<close>, under
  \<open>chunks/{stream}/\<close> in the bucket and on the local disk. The lemmas show that the readers
  of these names (catalog scan, syncer, uploader, recovery, bucket listing) recover exactly
  the slots the writers put in, and that distinct chunks never share a name.

  A stream directory is an association list from names to files in the order the directory
  is read, which is unspecified. A stream whose directory does not exist, or cannot be read,
  is \<open>None\<close>: every reader skips both. Names that are not valid text, and directories inside
  a stream directory, are not modelled.
\<close>

section \<open>Names\<close>

definition stem :: "u64 \<Rightarrow> u64 \<Rightarrow> string" where
  "stem s e = pad12 (unat s) @ ''-'' @ pad12 (unat e)"

definition chunk_file :: "u64 \<Rightarrow> u64 \<Rightarrow> string \<Rightarrow> string" where
  "chunk_file s e ext = stem s e @ ''.'' @ ext"

definition object_key :: "stream \<Rightarrow> u64 \<Rightarrow> u64 \<Rightarrow> string \<Rightarrow> string" where
  "object_key st s e ext = ''chunks/'' @ as_str st @ ''/'' @ chunk_file s e ext"

text \<open>
  The prologue that \<open>ChunkCatalog::scan\<close>, \<open>local_chunks\<close> and \<open>scan_pending\<close> share: the
  \<open>.meta.json\<close> suffix, \<open>splitn(2, '-')\<close>, and the two numbers.
\<close>

definition parse_meta_name :: "string \<Rightarrow> (u64 \<times> u64) option" where
  "parse_meta_name name =
     do {
       base \<leftarrow> strip_suffix ''.meta.json'' name;
       let (start_str, end_str) = splitn2 (CHR ''-'') base;
       s \<leftarrow> parse_u64 start_str;
       e \<leftarrow> parse_u64 end_str;
       Some (s, e)
     }"

lemma stem_no_dot [simp]: "CHR ''.'' \<notin> set (stem s e)"
  by (simp add: stem_def)

lemma split_stem [simp]: "split_once (CHR ''-'') (stem s e) = Some (pad12 (unat s), pad12 (unat e))"
  by (simp add: stem_def)

lemma splitn2_stem [simp]: "splitn2 (CHR ''-'') (stem s e) = (pad12 (unat s), pad12 (unat e))"
  by (simp add: stem_def)

lemma pad12_inj [simp]: "pad12 (unat (a :: u64)) = pad12 (unat b) \<longleftrightarrow> a = b"
  by (metis option.inject parse_u64_pad12)

lemma stem_inj [simp]: "stem s e = stem s' e' \<longleftrightarrow> s = s' \<and> e = e'"
proof
  assume "stem s e = stem s' e'"
  then have "Some (pad12 (unat s), pad12 (unat e)) = Some (pad12 (unat s'), pad12 (unat e'))"
    by (metis split_stem)
  then show "s = s' \<and> e = e'" by simp
qed simp

lemma split_chunk_file [simp]: "split_once (CHR ''.'') (chunk_file s e ext) = Some (stem s e, ext)"
  by (simp add: chunk_file_def)

lemma chunk_file_inj [simp]:
  "chunk_file s e x = chunk_file s' e' x' \<longleftrightarrow> s = s' \<and> e = e' \<and> x = x'"
proof
  assume "chunk_file s e x = chunk_file s' e' x'"
  then have "Some (stem s e, x) = Some (stem s' e', x')" by (metis split_chunk_file)
  then show "s = s' \<and> e = e' \<and> x = x'" by simp
qed simp

lemma object_key_inj [simp]:
  "object_key st a e x = object_key st' a' e' x' \<longleftrightarrow> st = st' \<and> a = a' \<and> e = e' \<and> x = x'"
proof
  assume "object_key st a e x = object_key st' a' e' x'"
  then have "as_str st @ (CHR ''/'') # chunk_file a e x = as_str st' @ (CHR ''/'') # chunk_file a' e' x'"
    by (simp add: object_key_def)
  then have "split_once (CHR ''/'') (as_str st @ (CHR ''/'') # chunk_file a e x) =
      split_once (CHR ''/'') (as_str st' @ (CHR ''/'') # chunk_file a' e' x')" by (rule arg_cong)
  then have "as_str st = as_str st' \<and> chunk_file a e x = chunk_file a' e' x'"
    by (simp only: split_once_append [OF as_str_no_slash] option.inject prod.inject)
  then show "st = st' \<and> a = a' \<and> e = e' \<and> x = x'" by simp
qed simp

lemma strip_meta_chunk_file [simp]:
  "strip_suffix ''.meta.json'' (chunk_file s e ''meta.json'') = Some (stem s e)"
  using strip_suffix_append [of "''.meta.json''" "stem s e"] by (simp add: chunk_file_def)

lemma parse_meta_name_chunk_file [simp]:
  "parse_meta_name (chunk_file s e ''meta.json'') = Some (s, e)"
  by (simp add: parse_meta_name_def)

lemma parse_meta_name_Some:
  "parse_meta_name name = Some (s, e) \<Longrightarrow> \<exists>st. name = st @ ''.meta.json''"
  by (auto simp: parse_meta_name_def strip_suffix_Some bind_eq_Some_conv)

section \<open>Files\<close>

record fsfile =
  content :: bytes
  mtime :: nat

type_synonym dir = "(string \<times> fsfile) list"
type_synonym store = "stream \<Rightarrow> dir option"

definition exists_in :: "dir \<Rightarrow> string \<Rightarrow> bool" where
  "exists_in d n \<longleftrightarrow> map_of d n \<noteq> None"

definition create_file :: "string \<Rightarrow> fsfile \<Rightarrow> dir \<Rightarrow> dir" where
  "create_file n f d = AList.update n f d"

definition remove_file :: "string \<Rightarrow> dir \<Rightarrow> dir" where
  "remove_file n d = AList.delete n d"

text \<open>\<open>rename\<close> replaces the target; it fails when the source does not exist.\<close>

definition rename_file :: "string \<Rightarrow> string \<Rightarrow> dir \<Rightarrow> dir option" where
  "rename_file a b d =
     (case map_of d a of
        None \<Rightarrow> None
      | Some f \<Rightarrow> Some (AList.update b f (AList.delete a d)))"

lemma map_of_create [simp]: "map_of (create_file n f d) = (map_of d)(n \<mapsto> f)"
  by (simp add: create_file_def update_conv')

lemma map_of_remove [simp]: "map_of (remove_file n d) = (map_of d)(n := None)"
  by (simp add: remove_file_def delete_conv')

lemma keys_remove: "fst ` set (remove_file n d) = fst ` set d - {n}"
  by (auto simp: remove_file_def set_delete_filter)

lemma map_of_rename:
  "rename_file a b d = Some d' \<Longrightarrow> map_of d' = (map_of d)(a := None, b := map_of d a)"
  by (auto simp: rename_file_def update_conv' delete_conv' split: option.splits)

section \<open>Ordered maps\<close>

text \<open>
  A \<open>BTreeMap\<close> is the list of its entries in key order. \<open>bt_insert\<close> is \<open>insert\<close>; removal
  is \<open>AList.delete\<close>, lookup is \<open>map_of\<close>, iteration is the list itself.
\<close>

fun bt_insert :: "'k::linorder \<Rightarrow> 'v \<Rightarrow> ('k \<times> 'v) list \<Rightarrow> ('k \<times> 'v) list" where
  "bt_insert k v [] = [(k, v)]"
| "bt_insert k v ((a, b) # xs) =
     (if k < a then (k, v) # (a, b) # xs
      else if k = a then (k, v) # xs
      else (a, b) # bt_insert k v xs)"

definition bt_ok :: "('k::linorder \<times> 'v) list \<Rightarrow> bool" where
  "bt_ok xs \<longleftrightarrow> sorted_wrt (<) (map fst xs)"

lemma map_of_bt_insert [seq_simps]: "map_of (bt_insert k v xs) = (map_of xs)(k \<mapsto> v)"
  by (induction k v xs rule: bt_insert.induct) auto

lemma keys_bt_insert [seq_simps]: "fst ` set (bt_insert k v xs) = insert k (fst ` set xs)"
  by (induction k v xs rule: bt_insert.induct) auto

lemma bt_ok_Nil [simp]: "bt_ok []"
  by (simp add: bt_ok_def)

lemma bt_ok_Cons [simp]: "bt_ok ((a, b) # xs) \<longleftrightarrow> (\<forall>k \<in> fst ` set xs. a < k) \<and> bt_ok xs"
  by (simp add: bt_ok_def)

lemma bt_ok_insert [seq_simps]: "bt_ok xs \<Longrightarrow> bt_ok (bt_insert k v xs)"
  by (induction k v xs rule: bt_insert.induct)
    (fastforce simp: keys_bt_insert not_less_iff_gr_or_eq intro: less_trans)+

lemma bt_ok_filter [seq_simps]: "bt_ok xs \<Longrightarrow> bt_ok (filter P xs)"
  by (induction xs) auto

lemma bt_ok_delete [seq_simps]: "bt_ok xs \<Longrightarrow> bt_ok (AList.delete k xs)"
  by (simp add: delete_filter bt_ok_filter)

lemma bt_ok_distinct: "bt_ok xs \<Longrightarrow> distinct (map fst xs)"
  by (auto simp: bt_ok_def strict_sorted_iff)

lemma bt_ok_sorted: "bt_ok xs \<Longrightarrow> sorted (map fst xs)"
  by (auto simp: bt_ok_def strict_sorted_iff)

lemma bt_in_set: "bt_ok xs \<Longrightarrow> (k, v) \<in> set xs \<longleftrightarrow> map_of xs k = Some v"
  by (simp add: bt_ok_distinct)

lemma bt_insert_not_Nil [simp]: "bt_insert k v xs \<noteq> []"
  by (cases "(k, v, xs)" rule: bt_insert.cases) auto

lemma set_bt_insert_subset: "set (bt_insert k v xs) \<subseteq> insert (k, v) (set xs)"
  by (induction k v xs rule: bt_insert.induct) auto

end
