(* ===== verification/WriterIndex.thy ===== *)
theory WriterIndex
  imports Bitmap Names "HOL-Library.List_Lexorder"
begin

text \<open>
  The index builder of the writer (\<open>sillage-writer/src/index.rs\<close>): the dimensions of each
  stream, what each kind of update contributes, and the serialized \<open>.idx\<close> bytes. MessagePack
  is the parameter \<open>rmp\<close>, bitmaps are the parameter \<open>R\<close>.
\<close>

section \<open>The order of dimension values\<close>

text \<open>The derived \<open>Ord\<close> of \<open>DimValue\<close>: by constructor first, then by content.\<close>

instantiation dim_value :: linorder
begin

fun less_eq_dim_value :: "dim_value \<Rightarrow> dim_value \<Rightarrow> bool" where
  "less_eq_dim_value (DBytes a) (DBytes b) = (a \<le> b)"
| "less_eq_dim_value (DBytes _) _ = True"
| "less_eq_dim_value (DU64 _) (DBytes _) = False"
| "less_eq_dim_value (DU64 a) (DU64 b) = (a \<le> b)"
| "less_eq_dim_value (DU64 _) (DBool _) = True"
| "less_eq_dim_value (DBool a) (DBool b) = (a \<le> b)"
| "less_eq_dim_value (DBool _) _ = False"

definition less_dim_value :: "dim_value \<Rightarrow> dim_value \<Rightarrow> bool" where
  "less_dim_value a b \<longleftrightarrow> a \<le> b \<and> \<not> b \<le> a"

instance
proof
  fix x y z :: dim_value
  show "x < y \<longleftrightarrow> x \<le> y \<and> \<not> y \<le> x" by (rule less_dim_value_def)
  show "x \<le> x" by (cases x) auto
  show "x \<le> y \<Longrightarrow> y \<le> z \<Longrightarrow> x \<le> z" by (cases x; cases y; cases z) auto
  show "x \<le> y \<Longrightarrow> y \<le> x \<Longrightarrow> x = y" by (cases x; cases y) auto
  show "x \<le> y \<or> y \<le> x" by (cases x; cases y) auto
qed

end

section \<open>Builder\<close>

type_synonym 'bm postings = "(dim_value \<times> 'bm) list"

record 'bm index_builder =
  ib_stream :: stream
  dims :: "(string \<times> 'bm postings) list"
  dim_types :: "(string \<times> dim_value_type) list"
  order :: "string list"

fun stream_dims :: "stream \<Rightarrow> (string \<times> dim_value_type) list" where
  "stream_dims Tx =
     [(DIM_PROGRAM_ID, Pubkey32), (DIM_ACCOUNT_KEY, Pubkey32), (DIM_SIGNATURE, Signature64),
      (DIM_VOTE_FLAG, TBool), (DIM_FAILED_FLAG, TBool)]"
| "stream_dims Acct = [(DIM_ACCOUNT_PUBKEY, Pubkey32), (DIM_OWNER_PROGRAM, Pubkey32)]"
| "stream_dims Block = [(DIM_SLOT, TU64), (DIM_PARENT_SLOT, TU64)]"

definition for_stream :: "stream \<Rightarrow> 'bm index_builder" where
  "for_stream st =
     \<lparr>ib_stream = st,
      dims = map (\<lambda>(name, _). (name, [])) (stream_dims st),
      dim_types = stream_dims st,
      order = map fst (stream_dims st)\<rparr>"

definition dimension_names :: "'bm index_builder \<Rightarrow> string list" where
  "dimension_names b = order b"

definition ib_insert :: "'bm roaring \<Rightarrow> 'bm index_builder \<Rightarrow> string \<Rightarrow> dim_value \<Rightarrow> u32
    \<Rightarrow> 'bm index_builder" where
  "ib_insert R b dim value offset =
     (case map_of (dims b) dim of
        None \<Rightarrow> b
      | Some m \<Rightarrow>
          let bm = (case map_of m value of None \<Rightarrow> rb_new R | Some x \<Rightarrow> x)
          in b\<lparr>dims := AList.update dim (bt_insert value (rb_insert R bm offset) m) (dims b)\<rparr>)"

text \<open>The keys of a transaction: static keys, then loaded writable, then loaded readonly.\<close>

definition resolved_keys :: "tx_info \<Rightarrow> bytes list" where
  "resolved_keys info =
     (case tx_body info of Some (Some msg) \<Rightarrow> account_keys msg | _ \<Rightarrow> []) @
     (case meta info of
        Some m \<Rightarrow> loaded_writable_addresses m @ loaded_readonly_addresses m
      | None \<Rightarrow> [])"

definition observe_tx :: "'bm roaring \<Rightarrow> 'bm index_builder \<Rightarrow> u32 \<Rightarrow> tx_update \<Rightarrow> 'bm index_builder" where
  "observe_tx R b offset update =
     (case transaction update of
        None \<Rightarrow> b
      | Some info \<Rightarrow>
          let b = (if length (signature info) = 64
                   then ib_insert R b DIM_SIGNATURE (DBytes (signature info)) offset else b);
              b = (if is_vote info then ib_insert R b DIM_VOTE_FLAG (DBool True) offset else b);
              b = (if Option.bind (meta info) err \<noteq> None
                   then ib_insert R b DIM_FAILED_FLAG (DBool True) offset else b);
              resolved = resolved_keys info;
              b = foldl (\<lambda>b key. if length key = 32
                           then ib_insert R b DIM_ACCOUNT_KEY (DBytes key) offset else b)
                        b resolved
          in (case tx_body info of
                Some (Some msg) \<Rightarrow>
                  foldl (\<lambda>b ix.
                      let idx = unat ix
                      in if idx < length resolved \<and> length (resolved ! idx) = 32
                         then ib_insert R b DIM_PROGRAM_ID (DBytes (resolved ! idx)) offset else b)
                    b (instructions msg)
              | _ \<Rightarrow> b))"

definition observe_acct :: "'bm roaring \<Rightarrow> 'bm index_builder \<Rightarrow> u32 \<Rightarrow> acct_update \<Rightarrow> 'bm index_builder" where
  "observe_acct R b offset update =
     (case account update of
        None \<Rightarrow> b
      | Some info \<Rightarrow>
          let b = (if length (pubkey info) = 32
                   then ib_insert R b DIM_ACCOUNT_PUBKEY (DBytes (pubkey info)) offset else b)
          in if length (owner info) = 32
             then ib_insert R b DIM_OWNER_PROGRAM (DBytes (owner info)) offset else b)"

definition observe_block :: "'bm roaring \<Rightarrow> 'bm index_builder \<Rightarrow> u32 \<Rightarrow> block_update \<Rightarrow> 'bm index_builder" where
  "observe_block R b offset update =
     ib_insert R (ib_insert R b DIM_SLOT (DU64 (block_slot update)) offset)
       DIM_PARENT_SLOT (DU64 (parent_slot update)) offset"

definition observe :: "'bm roaring \<Rightarrow> 'bm index_builder \<Rightarrow> u32 \<Rightarrow> subscribe_update \<Rightarrow> 'bm index_builder" where
  "observe R b offset update =
     (case (update_oneof update, ib_stream b) of
        (Some (UTransaction t), Tx) \<Rightarrow> observe_tx R b offset t
      | (Some (UAccount a), Acct) \<Rightarrow> observe_acct R b offset a
      | (Some (UBlockMeta m), Block) \<Rightarrow> observe_block R b offset m
      | _ \<Rightarrow> b)"

section \<open>Serialization\<close>

datatype index_error = HeaderEncodeFailed

text \<open>The entries of one dimension: each bitmap is appended to the body.\<close>

fun serialize_entries :: "'bm roaring \<Rightarrow> bytes \<Rightarrow> 'bm postings \<Rightarrow> bytes \<times> dim_entry_header list" where
  "serialize_entries R body [] = (body, [])"
| "serialize_entries R body ((v, bm) # rest) =
     (let body' = body @ rb_serialize R bm;
          entry = \<lparr>de_value = v, de_offset = of_nat (length body),
                   de_length = of_nat (length body') - of_nat (length body)\<rparr>;
          (body'', entries) = serialize_entries R body' rest
      in (body'', entry # entries))"

text \<open>
  The dimensions in registration order. A registered dimension is always present in both
  maps, so the two \<open>expect\<close> calls of the code are \<open>the\<close>, justified by \<open>builder_ok\<close>.
\<close>

fun serialize_dims :: "'bm roaring \<Rightarrow> 'bm index_builder \<Rightarrow> bytes \<Rightarrow> string list
    \<Rightarrow> bytes \<times> dimension_header list" where
  "serialize_dims R b body [] = (body, [])"
| "serialize_dims R b body (name # rest) =
     (let (body', entries) = serialize_entries R body (the (map_of (dims b) name));
          dim = \<lparr>dh_name = name, dh_value_type = the (map_of (dim_types b) name),
                 dh_entries = entries\<rparr>;
          (body'', dimensions) = serialize_dims R b body' rest
      in (body'', dim # dimensions))"

definition idx_header_of :: "'bm roaring \<Rightarrow> 'bm index_builder \<Rightarrow> u64 \<Rightarrow> u64 \<Rightarrow> u64 \<Rightarrow> idx_header" where
  "idx_header_of R b s e count =
     \<lparr>ih_stream = as_str (ib_stream b), ih_start_slot = s, ih_end_slot = e,
      ih_message_count = count, ih_dimensions = snd (serialize_dims R b [] (order b))\<rparr>"

definition serialize :: "'bm roaring \<Rightarrow> (idx_header \<Rightarrow> bytes option) \<Rightarrow> 'bm index_builder
    \<Rightarrow> u64 \<Rightarrow> u64 \<Rightarrow> u64 \<Rightarrow> index_error + bytes" where
  "serialize R rmp b s e count =
     (case rmp (idx_header_of R b s e count) of
        None \<Rightarrow> Inl HeaderEncodeFailed
      | Some header_bytes \<Rightarrow>
          Inr (IDX_MAGIC @ [IDX_VERSION] @ u32_to_le (of_nat (length header_bytes)) @ header_bytes @
               fst (serialize_dims R b [] (order b))))"

text \<open>What \<open>OpenChunk::append\<close> does to the index of a chunk, message after message.\<close>

fun observe_all :: "'bm roaring \<Rightarrow> 'bm index_builder \<Rightarrow> u64 \<Rightarrow> subscribe_update list \<Rightarrow> 'bm index_builder" where
  "observe_all R b n [] = b"
| "observe_all R b n (m # ms) = observe_all R (observe R b (ucast n) m) (n + 1) ms"

section \<open>What an index contains\<close>

definition posting :: "'bm roaring \<Rightarrow> 'bm index_builder \<Rightarrow> string \<Rightarrow> dim_value \<Rightarrow> u32 \<Rightarrow> bool" where
  "posting R b d v i \<longleftrightarrow>
     (case map_of (dims b) d of
        None \<Rightarrow> False
      | Some m \<Rightarrow> (case map_of m v of None \<Rightarrow> False | Some bm \<Rightarrow> i \<in> elems R bm))"

definition tx_instructions :: "tx_info \<Rightarrow> u32 list" where
  "tx_instructions info = (case tx_body info of Some (Some msg) \<Rightarrow> instructions msg | _ \<Rightarrow> [])"

text \<open>Which values an update has in which dimension, stated without any index.\<close>

definition tx_has :: "tx_info \<Rightarrow> string \<Rightarrow> dim_value \<Rightarrow> bool" where
  "tx_has info d v \<longleftrightarrow>
     d = DIM_SIGNATURE \<and> length (signature info) = 64 \<and> v = DBytes (signature info) \<or>
     d = DIM_VOTE_FLAG \<and> is_vote info \<and> v = DBool True \<or>
     d = DIM_FAILED_FLAG \<and> Option.bind (meta info) err \<noteq> None \<and> v = DBool True \<or>
     d = DIM_ACCOUNT_KEY \<and> (\<exists>k \<in> set (resolved_keys info). length k = 32 \<and> v = DBytes k) \<or>
     d = DIM_PROGRAM_ID \<and> (\<exists>ix \<in> set (tx_instructions info).
        unat ix < length (resolved_keys info) \<and> length (resolved_keys info ! unat ix) = 32 \<and>
        v = DBytes (resolved_keys info ! unat ix))"

definition acct_has :: "acct_info \<Rightarrow> string \<Rightarrow> dim_value \<Rightarrow> bool" where
  "acct_has info d v \<longleftrightarrow>
     d = DIM_ACCOUNT_PUBKEY \<and> length (pubkey info) = 32 \<and> v = DBytes (pubkey info) \<or>
     d = DIM_OWNER_PROGRAM \<and> length (owner info) = 32 \<and> v = DBytes (owner info)"

definition block_has :: "block_update \<Rightarrow> string \<Rightarrow> dim_value \<Rightarrow> bool" where
  "block_has m d v \<longleftrightarrow>
     d = DIM_SLOT \<and> v = DU64 (block_slot m) \<or> d = DIM_PARENT_SLOT \<and> v = DU64 (parent_slot m)"

definition update_has :: "stream \<Rightarrow> subscribe_update \<Rightarrow> string \<Rightarrow> dim_value \<Rightarrow> bool" where
  "update_has st u d v \<longleftrightarrow>
     (case (update_oneof u, st) of
        (Some (UTransaction t), Tx) \<Rightarrow>
          (case transaction t of None \<Rightarrow> False | Some info \<Rightarrow> tx_has info d v)
      | (Some (UAccount a), Acct) \<Rightarrow>
          (case account a of None \<Rightarrow> False | Some info \<Rightarrow> acct_has info d v)
      | (Some (UBlockMeta m), Block) \<Rightarrow> block_has m d v
      | _ \<Rightarrow> False)"

definition builder_ok :: "stream \<Rightarrow> 'bm index_builder \<Rightarrow> bool" where
  "builder_ok st b \<longleftrightarrow>
     ib_stream b = st \<and> dim_types b = stream_dims st \<and> order b = map fst (stream_dims st) \<and>
     map fst (dims b) = map fst (stream_dims st) \<and> (\<forall>(d, m) \<in> set (dims b). bt_ok m)"

lemma distinct_stream_dims: "distinct (map fst (stream_dims st))"
  by (cases st) (simp_all add: dim_defs)

lemma builder_ok_new: "builder_ok st (for_stream st)"
  by (cases st) (simp_all add: builder_ok_def for_stream_def)

lemma builder_ok_insert: "builder_ok st b \<Longrightarrow> builder_ok st (ib_insert R b d v i)"
proof (cases "map_of (dims b) d")
  case (Some m)
  assume ok: "builder_ok st b"
  have dist: "distinct (map fst (dims b))" using ok distinct_stream_dims by (simp add: builder_ok_def)
  have mem: "(d, m) \<in> set (dims b)" using Some by (rule map_of_SomeD)
  then have "d \<in> set (map fst (dims b))" by force
  then have "map fst (AList.update d (bt_insert v bm m) (dims b)) = map fst (dims b)" for bm
    by (simp add: update_keys)
  moreover have "bt_ok m" using ok mem by (auto simp: builder_ok_def)
  ultimately show ?thesis
    using Some ok dist by (auto simp: ib_insert_def builder_ok_def Let_def set_update_distinct bt_ok_insert)
qed (simp add: ib_insert_def)

lemma posting_insert:
  assumes "roaring_ok R"
  shows "posting R (ib_insert R b d v i) d' v' i' \<longleftrightarrow>
    posting R b d' v' i' \<or> d \<in> fst ` set (dims b) \<and> d' = d \<and> v' = v \<and> i' = i"
proof (cases "map_of (dims b) d")
  case None
  then have "d \<notin> fst ` set (dims b)" by (simp add: map_of_eq_None_iff)
  with None show ?thesis by (simp add: ib_insert_def)
next
  case (Some m)
  then have "d \<in> fst ` set (dims b)" by (metis map_of_eq_None_iff not_None_eq)
  with Some show ?thesis
    by (auto simp: posting_def ib_insert_def Let_def update_conv' map_of_bt_insert
        elems_insert [OF assms] elems_new [OF assms] split: option.splits)
qed

lemma keys_insert [simp]: "fst ` set (dims (ib_insert R b d v i)) = fst ` set (dims b)"
  by (cases "map_of (dims b) d")
    (auto simp: ib_insert_def Let_def dom_update insert_absorb dest: map_of_SomeD intro: rev_image_eqI)

lemma posting_foldl:
  assumes "roaring_ok R"
  shows "posting R (foldl (\<lambda>b x. if P x then ib_insert R b D (f x) i else b) b xs) d v i' \<longleftrightarrow>
    posting R b d v i' \<or>
    D \<in> fst ` set (dims b) \<and> d = D \<and> i' = i \<and> (\<exists>x \<in> set xs. P x \<and> v = f x)"
  by (induction xs arbitrary: b) (auto simp: posting_insert [OF assms])

lemma keys_foldl [simp]:
  "fst ` set (dims (foldl (\<lambda>b x. if P x then ib_insert R b D (f x) i else b) b xs)) = fst ` set (dims b)"
  by (induction xs arbitrary: b) simp_all

lemma builder_ok_foldl:
  "builder_ok st b \<Longrightarrow> builder_ok st (foldl (\<lambda>b x. if P x then ib_insert R b D (f x) i else b) b xs)"
  by (induction xs arbitrary: b) (simp_all add: builder_ok_insert)

lemma posting_if:
  assumes "roaring_ok R"
  shows "posting R (if P then ib_insert R b D x i else b) d v i' \<longleftrightarrow>
    posting R b d v i' \<or> D \<in> fst ` set (dims b) \<and> d = D \<and> i' = i \<and> P \<and> v = x"
  by (auto simp: posting_insert [OF assms])

lemma keys_if [simp]:
  "fst ` set (dims (if P then ib_insert R b D x i else b)) = fst ` set (dims b)"
  by simp

lemma builder_ok_if: "builder_ok st b \<Longrightarrow> builder_ok st (if P then ib_insert R b D x i else b)"
  by (simp add: builder_ok_insert)

lemmas posting_simps = posting_if posting_foldl
lemmas builder_ok_intros = builder_ok_if builder_ok_foldl builder_ok_insert

lemma case_tx_body:
  "(case tx_body info of Some (Some msg) \<Rightarrow> foldl f b (instructions msg) | _ \<Rightarrow> b) =
   foldl f b (tx_instructions info)"
  by (auto simp: tx_instructions_def split: option.splits)

lemma observe_tx_correct:
  assumes R: "roaring_ok R" and keys: "fst ` set (dims b) = fst ` set (stream_dims Tx)"
    and t: "transaction t = Some info"
  shows "posting R (observe_tx R b i t) d v i' \<longleftrightarrow> posting R b d v i' \<or> i' = i \<and> tx_has info d v"
  unfolding observe_tx_def t option.case Let_def case_tx_body
  by (simp only: posting_simps [OF R] keys_if keys_foldl keys) (auto simp: tx_has_def)

lemma observe_acct_correct:
  assumes R: "roaring_ok R" and keys: "fst ` set (dims b) = fst ` set (stream_dims Acct)"
    and t: "account a = Some info"
  shows "posting R (observe_acct R b i a) d v i' \<longleftrightarrow> posting R b d v i' \<or> i' = i \<and> acct_has info d v"
  unfolding observe_acct_def t option.case Let_def
  by (simp only: posting_simps [OF R] keys_if keys) (auto simp: acct_has_def)

lemma observe_block_correct:
  assumes R: "roaring_ok R" and keys: "fst ` set (dims b) = fst ` set (stream_dims Block)"
  shows "posting R (observe_block R b i m) d v i' \<longleftrightarrow> posting R b d v i' \<or> i' = i \<and> block_has m d v"
  unfolding observe_block_def
  by (simp only: posting_insert [OF R] keys_insert keys) (auto simp: block_has_def)

lemma builder_ok_observe: "builder_ok st b \<Longrightarrow> builder_ok st (observe R b i u)"
proof -
  assume ok: "builder_ok st b"
  have "builder_ok st (observe_tx R b i t)" for t
    unfolding observe_tx_def Let_def case_tx_body
    by (cases "transaction t") (use ok in \<open>auto intro!: builder_ok_intros\<close>)
  moreover have "builder_ok st (observe_acct R b i a)" for a
    unfolding observe_acct_def Let_def
    by (cases "account a") (use ok in \<open>auto intro!: builder_ok_intros\<close>)
  moreover have "builder_ok st (observe_block R b i m)" for m
    unfolding observe_block_def using ok by (intro builder_ok_intros)
  ultimately show ?thesis
    using ok by (simp add: observe_def split: option.split update_oneof.split stream.split)
qed

lemma observe_correct:
  assumes R: "roaring_ok R" and ok: "builder_ok st b"
  shows "posting R (observe R b i u) d v i' \<longleftrightarrow> posting R b d v i' \<or> i' = i \<and> update_has st u d v"
proof -
  have st: "ib_stream b = st" and keys: "fst ` set (dims b) = fst ` set (stream_dims st)"
    using ok by (simp_all add: builder_ok_def) (metis list.set_map)
  have none: "observe_tx R b i t = b" if "transaction t = None" for t
    using that by (simp add: observe_tx_def)
  have none': "observe_acct R b i a = b" if "account a = None" for a
    using that by (simp add: observe_acct_def)
  show ?thesis
  proof (cases "update_oneof u")
    case (Some x)
    with st keys show ?thesis
      by (cases x; cases st)
        (auto simp: observe_def update_has_def none none' observe_block_correct [OF R] observe_tx_correct [OF R]
          observe_acct_correct [OF R] split: option.split)
  qed (simp add: observe_def update_has_def)
qed

lemma observe_all_correct:
  assumes R: "roaring_ok R"
  shows "builder_ok st b \<Longrightarrow>
    posting R (observe_all R b n ms) d v i \<longleftrightarrow>
    posting R b d v i \<or> (\<exists>j < length ms. i = ucast (n + of_nat j) \<and> update_has st (ms ! j) d v)"
proof (induction ms arbitrary: b n)
  case Nil
  then show ?case by simp
next
  case (Cons m ms)
  have shift: "(\<exists>j < length (m # ms). P j ((m # ms) ! j)) \<longleftrightarrow> P 0 m \<or> (\<exists>j < length ms. P (Suc j) (ms ! j))"
    for P :: "nat \<Rightarrow> subscribe_update \<Rightarrow> bool"
    by (auto simp: less_Suc_eq_0_disj)
  show ?case
    using Cons.IH [OF builder_ok_observe [OF Cons.prems]] observe_correct [OF R Cons.prems]
    by (subst shift) (auto simp: algebra_simps)
qed

lemma builder_ok_observe_all: "builder_ok st b \<Longrightarrow> builder_ok st (observe_all R b n ms)"
  by (induction ms arbitrary: b n) (simp_all add: builder_ok_observe)

lemma posting_new [simp]: "\<not> posting R (for_stream st) d v i"
  by (cases st) (auto simp: posting_def for_stream_def split: option.splits)

lemma ucast_ordinal: "n \<le> 2 ^ 32 \<Longrightarrow> j < n \<Longrightarrow> i = (ucast (of_nat j :: u64) :: u32) \<longleftrightarrow> unat i = j"
  by (auto simp: unsigned_ucast_eq take_bit_nat_eq_self unsigned_of_nat word_unat_eq_iff)

lemma index_contents:
  assumes "roaring_ok R" and "length ms \<le> 2 ^ 32"
  shows "posting R (observe_all R (for_stream st) 0 ms) d v i \<longleftrightarrow>
    unat i < length ms \<and> update_has st (ms ! unat i) d v"
proof -
  have "(j < length ms \<and> i = ucast (0 + of_nat j :: u64) \<and> update_has st (ms ! j) d v) \<longleftrightarrow>
    (j < length ms \<and> unat i = j \<and> update_has st (ms ! j) d v)" for j
    using ucast_ordinal [OF assms(2), of j i] by auto
  then show ?thesis
    by (simp only: observe_all_correct [OF assms(1) builder_ok_new] posting_new) auto
qed

text \<open>C22: The index the writer builds for a chunk is exact. After the messages of a chunk were
  observed in order, an ordinal is posted under a value of a dimension exactly when the message
  at that position has that value: the keys, loaded addresses and instruction programs of a
  transaction, its vote and failure flags, the account and owner, the slot and parent slot.\<close>

theorem writer_index_exact:
  assumes "roaring_ok R" and "length ms \<le> 2 ^ 32"
  shows "posting R (observe_all R (for_stream st) 0 ms) d v i \<longleftrightarrow>
    unat i < length ms \<and> update_has st (ms ! unat i) d v"
  using assms by (rule index_contents)

lemma writer_index_exact_witness:
  "let m = \<lparr>filters = [], created_at = None, update_oneof =
       Some (UBlockMeta \<lparr>block_slot = 9, parent_slot = 7, blockhash = []\<rparr>)\<rparr>
   in posting list_roaring (observe_all list_roaring (for_stream Block) 0 [m, m]) DIM_PARENT_SLOT (DU64 7) 1 \<and>
      \<not> posting list_roaring (observe_all list_roaring (for_stream Block) 0 [m, m]) DIM_SLOT (DU64 7) 1 \<and>
      \<not> posting list_roaring (observe_all list_roaring (for_stream Block) 0 [m, m]) DIM_PARENT_SLOT (DU64 7) 2"
  using writer_index_exact [OF list_roaring_ok]
  by (simp add: Let_def update_has_def block_has_def dim_defs del: observe_all.simps)

section \<open>The layout of a serialized index\<close>

definition entry_in :: "'bm roaring \<Rightarrow> bytes \<Rightarrow> dim_value \<times> 'bm \<Rightarrow> dim_entry_header \<Rightarrow> bool" where
  "entry_in R body vb e \<longleftrightarrow>
     de_value e = fst vb \<and> unat (de_offset e) + unat (de_length e) \<le> length body \<and>
     take (unat (de_length e)) (drop (unat (de_offset e)) body) = rb_serialize R (snd vb)"

lemma entry_in_append: "entry_in R body vb e \<Longrightarrow> entry_in R (body @ tl2) vb e"
  by (auto simp: entry_in_def)

lemma serialize_entries_layout:
  "serialize_entries R body xs = (body', es) \<Longrightarrow> length body' < 2 ^ 64 \<Longrightarrow>
   (\<exists>tl2. body' = body @ tl2) \<and> list_all2 (entry_in R body') xs es"
proof (induction R body xs arbitrary: body' es rule: serialize_entries.induct)
  case (1 R body)
  then show ?case by simp
next
  case (2 R body v bm rest)
  let ?body1 = "body @ rb_serialize R bm"
  obtain es' where rec: "serialize_entries R ?body1 rest = (body', es')"
    and es: "es = \<lparr>de_value = v, de_offset = of_nat (length body),
        de_length = of_nat (length ?body1) - of_nat (length body)\<rparr> # es'"
    using "2.prems"(1) by (auto simp: Let_def split: prod.splits)
  from "2.IH" [OF refl refl rec "2.prems"(2)] obtain tl2 where tl2: "body' = ?body1 @ tl2"
    and rest: "list_all2 (entry_in R body') rest es'" by blast
  have "unat (of_nat (length body) :: u64) = length body"
    using tl2 "2.prems"(2) by (simp add: unat_of_nat take_bit_nat_eq_self)
  moreover have "unat (of_nat (length ?body1) - of_nat (length body) :: u64) = length (rb_serialize R bm)"
    using tl2 "2.prems"(2) by (simp add: unat_of_nat take_bit_nat_eq_self)
  ultimately have "entry_in R body' (v, bm) \<lparr>de_value = v, de_offset = of_nat (length body),
      de_length = of_nat (length ?body1) - of_nat (length body)\<rparr>"
    using tl2 by (simp add: entry_in_def)
  with tl2 rest show ?case by (simp add: es)
qed

definition dim_in :: "'bm roaring \<Rightarrow> 'bm index_builder \<Rightarrow> bytes \<Rightarrow> string \<Rightarrow> dimension_header \<Rightarrow> bool" where
  "dim_in R b body name h \<longleftrightarrow>
     dh_name h = name \<and> list_all2 (entry_in R body) (the (map_of (dims b) name)) (dh_entries h)"

lemma serialize_dims_layout:
  "serialize_dims R b body names = (body', hs) \<Longrightarrow> length body' < 2 ^ 64 \<Longrightarrow>
   (\<exists>tl2. body' = body @ tl2) \<and> list_all2 (dim_in R b body') names hs"
proof (induction R b body names arbitrary: body' hs rule: serialize_dims.induct)
  case (1 R b body)
  then show ?case by simp
next
  case (2 R b body name rest)
  let ?m = "the (map_of (dims b) name)"
  obtain body1 es where ser: "serialize_entries R body ?m = (body1, es)" by (cases "serialize_entries R body ?m")
  obtain hs' where rec: "serialize_dims R b body1 rest = (body', hs')"
    and hs: "hs = \<lparr>dh_name = name, dh_value_type = the (map_of (dim_types b) name), dh_entries = es\<rparr> # hs'"
    using "2.prems"(1) ser by (auto simp: Let_def split: prod.splits)
  from "2.IH" [OF ser [symmetric] refl refl rec "2.prems"(2)] obtain tl2 where tl2: "body' = body1 @ tl2"
    and rest: "list_all2 (dim_in R b body') rest hs'" by blast
  with "2.prems"(2) have "length body1 < 2 ^ 64" by simp
  from serialize_entries_layout [OF ser this] obtain tl1 where "body1 = body @ tl1"
    and "list_all2 (entry_in R body1) ?m es" by blast
  moreover from this(2) have "list_all2 (entry_in R (body1 @ tl2)) ?m es"
    by (rule list_all2_mono) (rule entry_in_append)
  ultimately have "dim_in R b body' name \<lparr>dh_name = name,
      dh_value_type = the (map_of (dim_types b) name), dh_entries = es\<rparr>"
    using tl2 by (simp add: dim_in_def)
  with \<open>body1 = body @ tl1\<close> tl2 rest show ?case by (simp add: hs)
qed

end
