(* ===== verification/FileOps.thy ===== *)
theory FileOps
  imports Names
begin

text \<open>
  The file operations of the three components that write chunk directories (the chunker, the
  uploader's marker, the syncer): single operations, lists of them up to the first failure, and
  the completeness of a directory that each of them keeps. The operations that can fail are a
  predicate.
\<close>

section \<open>File operations\<close>

text \<open>
  \<open>AppendFile\<close> is a write to the encoder of an open chunk: it reaches the disk at some later
  time, and what it leaves in the partial file before \<open>finish\<close> is not modelled.
\<close>

datatype fs_op =
    CreateFile string
  | WriteFile string bytes
  | AppendFile string bytes
  | SyncFile string
  | RenameFile string string
  | RemoveFile string

fun apply_op :: "nat \<Rightarrow> fs_op \<Rightarrow> dir \<Rightarrow> dir option" where
  "apply_op now (CreateFile n) d = Some (create_file n \<lparr>content = [], mtime = now\<rparr> d)"
| "apply_op now (WriteFile n b) d = Some (create_file n \<lparr>content = b, mtime = now\<rparr> d)"
| "apply_op now (AppendFile n b) d = Some d"
| "apply_op now (SyncFile n) d = Some d"
| "apply_op now (RenameFile a b) d = rename_file a b d"
| "apply_op now (RemoveFile n) d = (if exists_in d n then Some (remove_file n d) else None)"

text \<open>A list of operations up to the first that fails.\<close>

fun run_ops :: "(fs_op \<Rightarrow> bool) \<Rightarrow> nat \<Rightarrow> fs_op list \<Rightarrow> dir \<Rightarrow> dir \<times> fs_op option" where
  "run_ops fails now [] d = (d, None)"
| "run_ops fails now (op # ops) d =
     (if fails op then (d, Some op)
      else (case apply_op now op d of
              None \<Rightarrow> (d, Some op)
            | Some d' \<Rightarrow> run_ops fails now ops d'))"

text \<open>The names whose entries an operation can change.\<close>

fun touches :: "fs_op \<Rightarrow> string set" where
  "touches (CreateFile n) = {n}"
| "touches (WriteFile n b) = {n}"
| "touches (AppendFile n b) = {}"
| "touches (SyncFile n) = {}"
| "touches (RenameFile a b) = {a, b}"
| "touches (RemoveFile n) = {n}"

lemma apply_op_untouched:
  assumes "apply_op now op d = Some d'" and "n \<notin> touches op"
  shows "map_of d' n = map_of d n"
  using assms
  by (cases op) (auto simp: rename_file_def update_conv' delete_conv' split: option.splits if_splits)

lemma run_ops_untouched:
  "run_ops fails now ops d = (d', r) \<Longrightarrow> \<forall>op \<in> set ops. n \<notin> touches op \<Longrightarrow> map_of d' n = map_of d n"
proof (induction ops arbitrary: d)
  case (Cons op ops)
  then show ?case
    using apply_op_untouched [of now op d _ n] by (auto split: if_splits option.splits)
qed simp

section \<open>Complete directories\<close>

lemma run_ops_append:
  "run_ops fails now (xs @ ys) d =
     (case run_ops fails now xs d of (d', Some op) \<Rightarrow> (d', Some op) | (d', None) \<Rightarrow> run_ops fails now ys d')"
  by (induction xs arbitrary: d) (auto split: option.splits)

text \<open>
  \<open>dir_complete\<close>: a final metadata file has its data and its index beside it. This is what
  every reader of the directory takes the metadata file for.
\<close>

definition dir_complete :: "dir \<Rightarrow> bool" where
  "dir_complete d \<longleftrightarrow>
     (\<forall>s e. exists_in d (chunk_file s e ''meta.json'') \<longrightarrow>
        exists_in d (chunk_file s e ''zst'') \<and> exists_in d (chunk_file s e ''idx''))"

text \<open>An operation that can only add data or index files, or touch partial ones.\<close>

definition partial_name :: "string \<Rightarrow> bool" where
  "partial_name n \<longleftrightarrow> (\<exists>s e x. n = chunk_file s e x \<and> x \<noteq> ''meta.json'' \<and> x \<noteq> ''zst'' \<and> x \<noteq> ''idx'')"

fun adds_data :: "fs_op \<Rightarrow> bool" where
  "adds_data (CreateFile n) = partial_name n"
| "adds_data (WriteFile n b) = partial_name n"
| "adds_data (AppendFile n b) = True"
| "adds_data (SyncFile n) = True"
| "adds_data (RemoveFile n) = partial_name n"
| "adds_data (RenameFile a b) =
     (partial_name a \<and> (\<exists>s e. b = chunk_file s e ''zst'' \<or> b = chunk_file s e ''idx''))"

lemma partial_name_chunk_file [simp]:
  "partial_name (chunk_file s e x) \<longleftrightarrow> x \<noteq> ''meta.json'' \<and> x \<noteq> ''zst'' \<and> x \<noteq> ''idx''"
  by (auto simp: partial_name_def)

lemma partial_not_final:
  "partial_name n \<Longrightarrow> n \<noteq> chunk_file s e ''meta.json'' \<and> n \<noteq> chunk_file s e ''zst'' \<and> n \<noteq> chunk_file s e ''idx''"
  by (auto simp: partial_name_def)

lemma exists_rename:
  assumes "rename_file a b d = Some d'"
  shows "exists_in d' n \<longleftrightarrow> n = b \<or> n \<noteq> a \<and> exists_in d n"
proof -
  obtain f where f: "map_of d a = Some f" "d' = AList.update b f (AList.delete a d)"
    using assms by (auto simp: rename_file_def split: option.splits)
  then show ?thesis by (simp add: exists_in_def update_conv' delete_conv')
qed

lemma exists_apply_op:
  assumes "apply_op now op d = Some d'"
  shows "exists_in d' n \<longleftrightarrow>
    (case op of CreateFile a \<Rightarrow> n = a \<or> exists_in d n | WriteFile a b \<Rightarrow> n = a \<or> exists_in d n
     | RenameFile a b \<Rightarrow> n = b \<or> n \<noteq> a \<and> exists_in d n
     | RemoveFile a \<Rightarrow> n \<noteq> a \<and> exists_in d n | _ \<Rightarrow> exists_in d n)"
  using assms exists_rename by (cases op) (auto simp: exists_in_def split: if_splits)

lemma dir_complete_apply:
  assumes "dir_complete d" and "adds_data op" and "apply_op now op d = Some d'"
  shows "dir_complete d'"
proof (cases op)
  case (RenameFile a b)
  then obtain s e where a: "partial_name a" and b: "b = chunk_file s e ''zst'' \<or> b = chunk_file s e ''idx''"
    using assms(2) unfolding RenameFile adds_data.simps by blast
  have ex: "exists_in d' n \<longleftrightarrow> n = b \<or> n \<noteq> a \<and> exists_in d n" for n
    using exists_apply_op [OF assms(3), of n] by (simp add: RenameFile)
  show ?thesis
    unfolding dir_complete_def ex
  proof (intro allI impI)
    fix s' e'
    assume "chunk_file s' e' ''meta.json'' = b \<or> chunk_file s' e' ''meta.json'' \<noteq> a \<and> exists_in d (chunk_file s' e' ''meta.json'')"
    then have "exists_in d (chunk_file s' e' ''meta.json'')" using b by auto
    then have "exists_in d (chunk_file s' e' ''zst'')" "exists_in d (chunk_file s' e' ''idx'')"
      using assms(1) by (auto simp: dir_complete_def)
    with partial_not_final [OF a, of s' e']
    show "(chunk_file s' e' ''zst'' = b \<or> chunk_file s' e' ''zst'' \<noteq> a \<and> exists_in d (chunk_file s' e' ''zst'')) \<and>
      (chunk_file s' e' ''idx'' = b \<or> chunk_file s' e' ''idx'' \<noteq> a \<and> exists_in d (chunk_file s' e' ''idx''))"
      by metis
  qed
next
  case (CreateFile n)
  have ex: "exists_in d' m \<longleftrightarrow> m = n \<or> exists_in d m" for m
    using exists_apply_op [OF assms(3), of m] by (simp add: CreateFile)
  from assms(2) CreateFile have "partial_name n" by simp
  from partial_not_final [OF this] assms(1) show ?thesis unfolding dir_complete_def ex by metis
next
  case (WriteFile n b)
  have ex: "exists_in d' m \<longleftrightarrow> m = n \<or> exists_in d m" for m
    using exists_apply_op [OF assms(3), of m] by (simp add: WriteFile)
  from assms(2) WriteFile have "partial_name n" by simp
  from partial_not_final [OF this] assms(1) show ?thesis unfolding dir_complete_def ex by metis
next
  case (RemoveFile n)
  have ex: "exists_in d' m \<longleftrightarrow> m \<noteq> n \<and> exists_in d m" for m
    using exists_apply_op [OF assms(3), of m] by (simp add: RemoveFile)
  from assms(2) RemoveFile have "partial_name n" by simp
  from partial_not_final [OF this] assms(1) show ?thesis unfolding dir_complete_def ex by metis
qed (use assms in auto)

lemma dir_complete_run:
  "dir_complete d \<Longrightarrow> \<forall>op \<in> set ops. adds_data op \<Longrightarrow> dir_complete (fst (run_ops fails now ops d))"
  by (induction ops arbitrary: d) (auto split: option.splits intro: dir_complete_apply)

lemma run_ops_target:
  "run_ops fails now ops d = (d', None) \<Longrightarrow> RenameFile a b \<in> set ops \<or> exists_in d b \<Longrightarrow>
   \<forall>x y. RenameFile x y \<in> set ops \<longrightarrow> x \<noteq> b \<Longrightarrow> RemoveFile b \<notin> set ops \<Longrightarrow> exists_in d' b"
proof (induction ops arbitrary: d)
  case (Cons op ops)
  then obtain d1 where d1: "apply_op now op d = Some d1" "run_ops fails now ops d1 = (d', None)"
    by (auto split: if_splits option.splits)
  have "RenameFile a b \<in> set ops \<or> exists_in d1 b"
    using Cons.prems(2-4) exists_apply_op [OF d1(1), of b] by (cases op) auto
  then show ?case using Cons.prems(3,4) by (intro Cons.IH [OF d1(2)]) simp_all
qed simp

lemma run_ops_None:
  "run_ops fails now (op # ops) d = (d', None) \<longleftrightarrow>
   \<not> fails op \<and> (\<exists>d1. apply_op now op d = Some d1 \<and> run_ops fails now ops d1 = (d', None))"
  by (cases "apply_op now op d") simp_all

end
