(* ===== verification/Frames.thy ===== *)
theory Frames
  imports Common
begin

text \<open>
  The payload format of a chunk (\<open>sillage-common/src/chunk.rs\<close>) and the decoded chunk built
  from it (\<open>DecodedChunk\<close> of \<open>sillage-reader/src/storage.rs\<close>): writing a frame, the frame
  iterator with its two errors, the byte ranges of the frames, reading a frame by ordinal.
\<close>

section \<open>Frames\<close>

datatype chunk_error = TruncatedLengthPrefix | LengthPastBuffer nat nat

definition write_len_prefixed :: "bytes \<Rightarrow> bytes \<Rightarrow> bytes" where
  "write_len_prefixed buf payload = buf @ u32_to_le (of_nat (length payload)) @ payload"

text \<open>
  \<open>FrameIter::next\<close> on the remaining bytes: the item, if any, and the bytes that remain.
  After an error nothing remains.
\<close>

definition frame_next :: "bytes \<Rightarrow> (chunk_error + bytes) option \<times> bytes" where
  "frame_next buf =
     (if buf = [] then (None, buf)
      else if length buf < 4 then (Some (Inl TruncatedLengthPrefix), [])
      else
        let len = unat (u32_from_le (buf ! 0) (buf ! 1) (buf ! 2) (buf ! 3));
            remaining = length buf - 4
        in if len > remaining then (Some (Inl (LengthPastBuffer len remaining)), [])
           else (Some (Inr (take len (drop 4 buf))), drop (4 + len) buf))"

text \<open>All items the iterator yields.\<close>

function iter_frames :: "bytes \<Rightarrow> (chunk_error + bytes) list" where
  "iter_frames buf =
     (case frame_next buf of
        (None, _) \<Rightarrow> []
      | (Some item, rest) \<Rightarrow> item # iter_frames rest)"
  by pat_completeness auto
termination
  by (relation "measure length") (auto simp: frame_next_def Let_def split: if_splits)

declare iter_frames.simps [simp del]

section \<open>Decoded chunks\<close>

record decoded_chunk =
  raw :: bytes
  frames :: "(nat \<times> nat) list"

datatype decode_error =
    OpenFailed
  | DecompressFailed
  | CorruptFrame nat chunk_error
  | OrdinalOutOfRange nat
  | MessageDecodeFailed nat

text \<open>
  The loop of \<open>decode_chunk\<close> over the frame iterator: \<open>offset\<close> is where the next frame's
  length prefix starts, \<open>acc\<close> the ranges found so far.
\<close>

fun frame_ranges :: "nat \<Rightarrow> (nat \<times> nat) list \<Rightarrow> (chunk_error + bytes) list
    \<Rightarrow> decode_error + (nat \<times> nat) list" where
  "frame_ranges offset acc [] = Inr acc"
| "frame_ranges offset acc (Inl e # items) = Inl (CorruptFrame offset e)"
| "frame_ranges offset acc (Inr payload # items) =
     (let payload_start = offset + 4;
          payload_end = payload_start + length payload
      in frame_ranges payload_end (acc @ [(payload_start, payload_end)]) items)"

text \<open>
  \<open>decode_chunk\<close>: the file, if it opens, is decompressed by the zstd package (the parameter
  \<open>unzstd\<close>, \<open>None\<close> on corrupt data).
\<close>

definition decode_chunk :: "(bytes \<Rightarrow> bytes option) \<Rightarrow> bytes option \<Rightarrow> decode_error + decoded_chunk" where
  "decode_chunk unzstd file =
     (case file of
        None \<Rightarrow> Inl OpenFailed
      | Some packed \<Rightarrow>
          (case unzstd packed of
             None \<Rightarrow> Inl DecompressFailed
           | Some data \<Rightarrow>
               (case frame_ranges 0 [] (iter_frames data) of
                  Inl e \<Rightarrow> Inl e
                | Inr rs \<Rightarrow> Inr \<lparr>raw = data, frames = rs\<rparr>)))"

definition dc_len :: "decoded_chunk \<Rightarrow> nat" where
  "dc_len c = length (frames c)"

definition dc_is_empty :: "decoded_chunk \<Rightarrow> bool" where
  "dc_is_empty c \<longleftrightarrow> frames c = []"

definition dc_frame :: "decoded_chunk \<Rightarrow> u32 \<Rightarrow> bytes option" where
  "dc_frame c ordinal =
     (let i = unat ordinal
      in if i < length (frames c)
         then (case frames c ! i of (s, e) \<Rightarrow> Some (take (e - s) (drop s (raw c))))
         else None)"

definition decode_message :: "(bytes \<Rightarrow> 'm option) \<Rightarrow> decoded_chunk \<Rightarrow> u32 \<Rightarrow> decode_error + 'm" where
  "decode_message decode c ordinal =
     (case dc_frame c ordinal of
        None \<Rightarrow> Inl (OrdinalOutOfRange (unat ordinal))
      | Some b \<Rightarrow>
          (case decode b of
             None \<Rightarrow> Inl (MessageDecodeFailed (unat ordinal))
           | Some m \<Rightarrow> Inr m))"

text \<open>\<open>size_of::<Range<usize>>()\<close> is 16 on the 64-bit targets the reader runs on.\<close>

definition dc_heap_bytes :: "decoded_chunk \<Rightarrow> nat" where
  "dc_heap_bytes c = length (raw c) + length (frames c) * 16"

section \<open>The frame codec\<close>

definition frame_bytes :: "bytes \<Rightarrow> bytes" where
  "frame_bytes p = u32_to_le (of_nat (length p)) @ p"

lemma write_len_prefixed_frame_bytes: "write_len_prefixed buf p = buf @ frame_bytes p"
  by (simp add: write_len_prefixed_def frame_bytes_def)

lemma foldl_write_frames: "foldl write_len_prefixed buf ps = buf @ concat (map frame_bytes ps)"
  by (induction ps arbitrary: buf) (simp_all add: write_len_prefixed_frame_bytes)

lemma length_frame_bytes [simp]: "length (frame_bytes p) = 4 + length p"
  by (simp add: frame_bytes_def)

lemma iter_frames_Nil [simp]: "iter_frames [] = []"
  by (simp add: iter_frames.simps frame_next_def)

lemma iter_frames_short [simp]:
  "buf \<noteq> [] \<Longrightarrow> length buf < 4 \<Longrightarrow> iter_frames buf = [Inl TruncatedLengthPrefix]"
  by (simp add: iter_frames.simps [of buf] frame_next_def)

lemma drop_four: "drop (4 + n) (a # b # c # d # xs) = drop n xs"
  by (simp add: numeral_eq_Suc)

lemma frame_next_frame:
  assumes "length p < 2 ^ 32"
  shows "frame_next (frame_bytes p @ rest) = (Some (Inr p), rest)"
proof -
  have "unat (of_nat (length p) :: u32) = length p"
    using assms by (simp add: unat_of_nat take_bit_nat_eq_self)
  then show ?thesis
    by (simp add: frame_next_def frame_bytes_def u32_to_le_def Let_def drop_four)
qed

lemma iter_frames_frame [simp]:
  "length p < 2 ^ 32 \<Longrightarrow> iter_frames (frame_bytes p @ rest) = Inr p # iter_frames rest"
  by (simp add: iter_frames.simps [of "frame_bytes p @ rest"] frame_next_frame)

lemma iter_frames_concat:
  "\<forall>p \<in> set ps. length p < 2 ^ 32 \<Longrightarrow>
   iter_frames (concat (map frame_bytes ps) @ rest) = map Inr ps @ iter_frames rest"
  by (induction ps) simp_all

lemma iter_frames_concat0:
  "\<forall>p \<in> set ps. length p < 2 ^ 32 \<Longrightarrow> iter_frames (concat (map frame_bytes ps)) = map Inr ps"
  using iter_frames_concat [of ps "[]"] by simp

text \<open>A frame the iterator yields is the frame that was written, prefix included.\<close>

lemma frame_next_Inr:
  assumes "frame_next buf = (Some (Inr p), rest)"
  shows "buf = frame_bytes p @ rest \<and> length p < 2 ^ 32"
proof -
  from assms have four: "4 \<le> length buf" by (auto simp: frame_next_def split: if_splits)
  then obtain a b c d tl where buf: "buf = a # b # c # d # tl"
    by (metis One_nat_def Suc_le_length_iff numeral_eq_Suc pred_numeral_simps(3) pred_numeral_simps(2)
        semiring_norm(26) semiring_norm(27))
  let ?w = "u32_from_le a b c d"
  from assms have le: "unat ?w \<le> length tl" and p: "p = take (unat ?w) tl"
    and rest: "rest = drop (unat ?w) tl"
    by (auto simp: buf frame_next_def Let_def numeral_eq_Suc split: if_splits)
  from le p have "length p = unat ?w" by simp
  then have "frame_bytes p = [a, b, c, d] @ p" and "length p < 2 ^ 32"
    using unsigned_less [of ?w, where 'a = nat] by (simp_all add: frame_bytes_def)
  with p rest buf show ?thesis by simp
qed

text \<open>
  Any input is whole frames followed by a rest, which is empty or the place of the error; an
  error item is the last one.
\<close>

lemma iter_frames_split:
  "\<exists>ps rest. buf = concat (map frame_bytes ps) @ rest \<and> (\<forall>p \<in> set ps. length p < 2 ^ 32) \<and>
     (rest = [] \<and> iter_frames buf = map Inr ps \<or>
      (\<exists>e. frame_next rest = (Some (Inl e), []) \<and> iter_frames buf = map Inr ps @ [Inl e]))"
proof (induction buf rule: iter_frames.induct)
  case (1 buf)
  obtain item rest where fn: "frame_next buf = (item, rest)" by fastforce
  show ?case
  proof (cases item)
    case None
    with fn have "buf = []" by (auto simp: frame_next_def Let_def split: if_splits)
    then show ?thesis by (intro exI [of _ "[]"]) simp
  next
    case (Some r)
    with fn have items: "iter_frames buf = r # iter_frames rest"
      by (simp add: iter_frames.simps [of buf])
    show ?thesis
    proof (cases r)
      case (Inl e)
      with fn Some have "rest = []" by (auto simp: frame_next_def Let_def split: if_splits)
      with items fn Some Inl show ?thesis by (intro exI [of _ "[]"] exI [of _ buf]) simp
    next
      case (Inr p)
      with fn Some frame_next_Inr have p: "buf = frame_bytes p @ rest" "length p < 2 ^ 32" by blast+
      from "1.IH" [OF fn [symmetric] Some] obtain ps rest' where
        "rest = concat (map frame_bytes ps) @ rest'" "\<forall>p \<in> set ps. length p < 2 ^ 32"
        "rest' = [] \<and> iter_frames rest = map Inr ps \<or>
         (\<exists>e. frame_next rest' = (Some (Inl e), []) \<and> iter_frames rest = map Inr ps @ [Inl e])" by blast
      with p items Inr show ?thesis by (intro exI [of _ "p # ps"] exI [of _ rest']) simp
    qed
  qed
qed

section \<open>Ranges of a decoded chunk\<close>

fun ranges_from :: "nat \<Rightarrow> bytes list \<Rightarrow> (nat \<times> nat) list" where
  "ranges_from offset [] = []"
| "ranges_from offset (p # ps) =
     (offset + 4, offset + 4 + length p) # ranges_from (offset + 4 + length p) ps"

lemma frame_ranges_Inr: "frame_ranges offset acc (map Inr ps) = Inr (acc @ ranges_from offset ps)"
  by (induction ps arbitrary: offset acc) (simp_all add: Let_def)

lemma frame_ranges_Inl:
  "frame_ranges offset acc (map Inr ps @ [Inl e]) =
     Inl (CorruptFrame (offset + length (concat (map frame_bytes ps))) e)"
  by (induction ps arbitrary: offset acc) (simp_all add: Let_def add.assoc)

lemma length_ranges_from [simp]: "length (ranges_from offset ps) = length ps"
  by (induction ps arbitrary: offset) simp_all

lemma ranges_from_slice:
  "i < length ps \<Longrightarrow> length pre = offset \<Longrightarrow>
   (case ranges_from offset ps ! i of (s, e) \<Rightarrow>
      s \<le> e \<and> e \<le> length (pre @ concat (map frame_bytes ps)) \<and>
      take (e - s) (drop s (pre @ concat (map frame_bytes ps))) = ps ! i)"
proof (induction ps arbitrary: offset pre i)
  case Nil
  then show ?case by simp
next
  case (Cons p ps)
  show ?case
  proof (cases i)
    case 0
    with Cons.prems show ?thesis by (simp add: frame_bytes_def)
  next
    case (Suc j)
    with Cons.prems Cons.IH [of j "pre @ frame_bytes p" "offset + 4 + length p"]
    show ?thesis by simp
  qed
qed

lemma decode_chunk_frames:
  assumes "unzstd packed = Some (concat (map frame_bytes ps))"
    and "\<forall>p \<in> set ps. length p < 2 ^ 32"
  shows "decode_chunk unzstd (Some packed) =
    Inr \<lparr>raw = concat (map frame_bytes ps), frames = ranges_from 0 ps\<rparr>"
  using assms by (simp add: decode_chunk_def iter_frames_concat0 frame_ranges_Inr)

lemma dc_frame_ranges:
  "dc_frame \<lparr>raw = concat (map frame_bytes ps), frames = ranges_from 0 ps\<rparr> i =
     (if unat i < length ps then Some (ps ! unat i) else None)"
  using ranges_from_slice [of "unat i" ps "[]" 0]
  by (auto simp: dc_frame_def Let_def split: prod.splits)

section \<open>Properties\<close>

text \<open>What the chunker writes the reader decodes. When decompression undoes compression,
  decoding the compressed frames of any payloads below 4 GiB gives a chunk with as many frames,
  whose frame under every ordinal is the payload written at that position, and no frame under
  any other ordinal.\<close>

theorem decode_written_chunk:
  assumes "\<forall>p \<in> set ps. length p < 2 ^ 32"
    and "unzstd (zstd (foldl write_len_prefixed [] ps)) = Some (foldl write_len_prefixed [] ps)"
  shows "\<exists>c. decode_chunk unzstd (Some (zstd (foldl write_len_prefixed [] ps))) = Inr c \<and>
    dc_len c = length ps \<and>
    (\<forall>i. dc_frame c i = (if unat i < length ps then Some (ps ! unat i) else None))"
  using decode_chunk_frames [of unzstd "zstd (foldl write_len_prefixed [] ps)" ps] assms
  by (simp add: foldl_write_frames dc_frame_ranges dc_len_def)

lemma decode_written_chunk_witness:
  "\<exists>c. decode_chunk (Some \<circ> rev) (Some (rev (foldl write_len_prefixed [] [[7, 8], [], [9]]))) = Inr c \<and>
    dc_len c = 3 \<and> dc_frame c 0 = Some [7, 8] \<and> dc_frame c 1 = Some [] \<and> dc_frame c 2 = Some [9] \<and>
    dc_frame c 3 = None"
proof -
  obtain c where "decode_chunk (Some \<circ> rev) (Some (rev (foldl write_len_prefixed [] [[7, 8], [], [9]]))) = Inr c"
    "dc_len c = length [[7, 8], [], [9] :: u8 list]"
    and f: "\<And>i. dc_frame c i = (if unat i < length [[7, 8], [], [9]] then Some ([[7, 8], [], [9]] ! unat i) else None)"
    using decode_written_chunk [of "[[7, 8], [], [9]]" "Some \<circ> rev" rev] by auto
  with f [of 0] f [of 1] f [of 2] f [of 3] show ?thesis by (intro exI [of _ c]) simp
qed



end
