(* ===== verification/Chunker.thy ===== *)
theory Chunker
  imports Config WriterIndex FileOps Frames
begin

text \<open>
  The chunker of a lane (\<open>sillage-writer/src/chunker.rs\<close>, with \<open>Stamped\<close> of \<open>stamp.rs\<close>): which
  chunks are open, how a message is placed, when a chunk is sealed, and what sealing does to the
  directory, operation by operation.

  Everything outside the repository is a field of \<open>writer_env\<close>: the bitmaps, MessagePack,
  JSON, the protobuf encoding, zstd, and \<open>io_fails\<close>, which says which file operation fails.
  Time is a natural number of nanoseconds, read once per call.
\<close>

section \<open>State\<close>

record stamped =
  wall_ns :: u64
  inner :: subscribe_update

record 'bm writer_env =
  env_roaring :: "'bm roaring"
  env_rmp :: "idx_header \<Rightarrow> bytes option"
  env_json :: "chunk_meta \<Rightarrow> bytes option"
  env_encode :: "subscribe_update \<Rightarrow> bytes"
  env_zstd :: "bytes \<Rightarrow> bytes"
  io_fails :: "fs_op \<Rightarrow> bool"

record 'bm open_chunk =
  oc_start_slot :: u64
  oc_end_slot_exclusive :: u64
  partial_zst :: string
  partial_meta :: string
  partial_idx :: string
  final_zst :: string
  final_meta :: string
  final_idx :: string
  oc_written :: bytes \<comment> \<open>what the encoder was given\<close>
  oc_message_count :: u64
  oc_uncompressed_bytes :: u64
  oc_first_message_slot :: "u64 option"
  oc_last_message_slot :: "u64 option"
  oc_recv_ns_first :: "u64 option"
  oc_recv_ns_last :: "u64 option"
  last_activity :: nat
  oc_index :: "'bm index_builder"

record 'bm chunker =
  ch_stream :: stream
  ch_cfg :: writer_config
  open_chunks :: "(u64 \<times> 'bm open_chunk) list"
  watermark_slot :: "u64 option"

text \<open>The two panics of the code are errors of their own.\<close>

datatype chunker_error =
    IoFailed fs_op
  | MetaEncodeFailed
  | IndexSerializeFailed
  | SealMissingIdx u64
  | DivideByZeroPanic
  | NoOpenChunkPanic

type_synonym 'bm chunker_state = "'bm chunker \<times> dir"

definition SEAL_LOOKAHEAD_CHUNKS :: u64 where
  "SEAL_LOOKAHEAD_CHUNKS = 2"

definition IDLE_SEAL_THRESHOLD :: nat where
  "IDLE_SEAL_THRESHOLD = 300 * 10 ^ 9"

definition chunker_new :: "stream \<Rightarrow> writer_config \<Rightarrow> 'bm chunker" where
  "chunker_new st cfg = \<lparr>ch_stream = st, ch_cfg = cfg, open_chunks = [], watermark_slot = None\<rparr>"

section \<open>Sealing\<close>

definition meta_of :: "'bm writer_env \<Rightarrow> stream \<Rightarrow> string \<Rightarrow> 'bm open_chunk \<Rightarrow> chunk_meta" where
  "meta_of E st reason oc =
     \<lparr>schema_version = SCHEMA_VERSION, cm_stream = as_str st,
      start_slot = oc_start_slot oc, end_slot_exclusive = oc_end_slot_exclusive oc,
      first_message_slot = oc_first_message_slot oc, last_message_slot = oc_last_message_slot oc,
      message_count = oc_message_count oc, uncompressed_bytes = oc_uncompressed_bytes oc,
      compressed_bytes = of_nat (length (env_zstd E (oc_written oc))),
      recv_ns_first = oc_recv_ns_first oc, recv_ns_last = oc_recv_ns_last oc,
      sealed_reason = reason, index_dimensions = dimension_names (oc_index oc)\<rparr>"

text \<open>
  The file operations of \<open>seal_chunk\<close> in order, and the error it ends with when an encoder
  fails. \<open>finish\<close> and the flush of the buffer are the first \<open>WriteFile\<close>.
\<close>

definition seal_ops :: "'bm writer_env \<Rightarrow> stream \<Rightarrow> string \<Rightarrow> 'bm open_chunk
    \<Rightarrow> fs_op list \<times> chunker_error option" where
  "seal_ops E st reason oc =
     (let finish = [WriteFile (partial_zst oc) (env_zstd E (oc_written oc)), SyncFile (partial_zst oc)]
      in case env_json E (meta_of E st reason oc) of
           None \<Rightarrow> (finish, Some MetaEncodeFailed)
         | Some meta_json \<Rightarrow>
             let data = finish @
                   [CreateFile (partial_meta oc), WriteFile (partial_meta oc) meta_json,
                    SyncFile (partial_meta oc), RenameFile (partial_zst oc) (final_zst oc)]
             in case serialize (env_roaring E) (env_rmp E) (oc_index oc) (oc_start_slot oc)
                       (oc_end_slot_exclusive oc) (oc_message_count oc) of
                  Inl _ \<Rightarrow> (data, Some IndexSerializeFailed)
                | Inr idx_bytes \<Rightarrow>
                    (data @
                     [CreateFile (partial_idx oc), WriteFile (partial_idx oc) idx_bytes,
                      SyncFile (partial_idx oc), RenameFile (partial_idx oc) (final_idx oc),
                      RenameFile (partial_meta oc) (final_meta oc)], None))"

definition seal_chunk :: "'bm writer_env \<Rightarrow> nat \<Rightarrow> u64 \<Rightarrow> string \<Rightarrow> 'bm chunker_state
    \<Rightarrow> 'bm chunker_state \<times> chunker_error option" where
  "seal_chunk E now chunk_idx reason st =
     (case st of (c, d) \<Rightarrow>
        (case map_of (open_chunks c) chunk_idx of
           None \<Rightarrow> ((c, d), Some (SealMissingIdx chunk_idx))
         | Some oc \<Rightarrow>
             let c' = c\<lparr>open_chunks := AList.delete chunk_idx (open_chunks c)\<rparr>
             in case seal_ops E (ch_stream c) reason oc of (ops, end_error) \<Rightarrow>
                  (case run_ops (io_fails E) now ops d of
                     (d', Some op) \<Rightarrow> ((c', d'), Some (IoFailed op))
                   | (d', None) \<Rightarrow> ((c', d'), end_error))))"

text \<open>\<open>for idx in .. { self.seal_chunk(idx, reason)?; }\<close>\<close>

fun seal_all :: "'bm writer_env \<Rightarrow> nat \<Rightarrow> string \<Rightarrow> u64 list \<Rightarrow> 'bm chunker_state
    \<Rightarrow> 'bm chunker_state \<times> chunker_error option" where
  "seal_all E now reason [] st = (st, None)"
| "seal_all E now reason (idx # idxs) st =
     (case seal_chunk E now idx reason st of
        (st', Some e) \<Rightarrow> (st', Some e)
      | (st', None) \<Rightarrow> seal_all E now reason idxs st')"

section \<open>Opening and appending\<close>

definition open_chunk_of :: "stream \<Rightarrow> nat \<Rightarrow> u64 \<Rightarrow> u64 \<Rightarrow> 'bm open_chunk" where
  "open_chunk_of st now s e =
     \<lparr>oc_start_slot = s, oc_end_slot_exclusive = e,
      partial_zst = chunk_file s e ''zst.partial'', partial_meta = chunk_file s e ''meta.json.partial'',
      partial_idx = chunk_file s e ''idx.partial'', final_zst = chunk_file s e ''zst'',
      final_meta = chunk_file s e ''meta.json'', final_idx = chunk_file s e ''idx'',
      oc_written = [], oc_message_count = 0, oc_uncompressed_bytes = 0,
      oc_first_message_slot = None, oc_last_message_slot = None,
      oc_recv_ns_first = None, oc_recv_ns_last = None, last_activity = now,
      oc_index = for_stream st\<rparr>"

definition open_chunk :: "'bm writer_env \<Rightarrow> nat \<Rightarrow> u64 \<Rightarrow> 'bm chunker_state
    \<Rightarrow> 'bm chunker_state \<times> chunker_error option" where
  "open_chunk E now chunk_idx st =
     (case st of (c, d) \<Rightarrow>
        if map_of (open_chunks c) chunk_idx \<noteq> None then ((c, d), None)
        else
          let s = chunk_idx * slots_per_chunk (ch_cfg c);
              e = s + slots_per_chunk (ch_cfg c);
              oc = open_chunk_of (ch_stream c) now s e
          in if exists_in d (final_zst oc) \<or> exists_in d (final_meta oc) then ((c, d), None)
             else (case run_ops (io_fails E) now [CreateFile (partial_zst oc)] d of
                     (d', Some op) \<Rightarrow> ((c, d'), Some (IoFailed op))
                   | (d', None) \<Rightarrow>
                       ((c\<lparr>open_chunks := bt_insert chunk_idx oc (open_chunks c)\<rparr>, d'), None)))"

text \<open>
  A payload without its metadata, as a crash between the two renames of a seal leaves it, keeps its
  range from being opened again: the messages of the range are dropped.
\<close>

lemma orphan_payload_blocks_range:
  assumes "map_of (open_chunks c) chunk_idx = None" and "s = chunk_idx * slots_per_chunk (ch_cfg c)"
    and "exists_in d (chunk_file s (s + slots_per_chunk (ch_cfg c)) ''zst'')"
  shows "open_chunk E now chunk_idx (c, d) = ((c, d), None)"
  using assms by (simp add: open_chunk_def open_chunk_of_def Let_def)

definition opt_min :: "u64 option \<Rightarrow> u64 \<Rightarrow> u64" where
  "opt_min o1 x = (case o1 of None \<Rightarrow> x | Some y \<Rightarrow> min y x)"

definition opt_max :: "u64 option \<Rightarrow> u64 \<Rightarrow> u64" where
  "opt_max o1 x = (case o1 of None \<Rightarrow> x | Some y \<Rightarrow> max y x)"

definition append_msg :: "'bm writer_env \<Rightarrow> nat \<Rightarrow> stamped \<Rightarrow> u64 \<Rightarrow> 'bm open_chunk
    \<Rightarrow> chunker_error + 'bm open_chunk" where
  "append_msg E now msg slot oc =
     (let framed = write_len_prefixed [] (env_encode E (inner msg))
      in if io_fails E (AppendFile (partial_zst oc) framed)
         then Inl (IoFailed (AppendFile (partial_zst oc) framed))
         else Inr (oc\<lparr>oc_written := oc_written oc @ framed,
                      oc_index := observe (env_roaring E) (oc_index oc)
                        (ucast (oc_message_count oc)) (inner msg),
                      oc_message_count := oc_message_count oc + 1,
                      oc_uncompressed_bytes := oc_uncompressed_bytes oc + of_nat (length framed),
                      oc_first_message_slot := Some (opt_min (oc_first_message_slot oc) slot),
                      oc_last_message_slot := Some (opt_max (oc_last_message_slot oc) slot),
                      oc_recv_ns_first := Some (opt_min (oc_recv_ns_first oc) (wall_ns msg)),
                      oc_recv_ns_last := Some (opt_max (oc_recv_ns_last oc) (wall_ns msg)),
                      last_activity := now\<rparr>))"

section \<open>Ingest, tick, shutdown\<close>

lemma seal_chunk_fst:
  "seal_chunk E now idx reason (c, d) = ((c', d'), r) \<Longrightarrow> map_of (open_chunks c) idx \<noteq> None \<Longrightarrow>
   c' = c\<lparr>open_chunks := AList.delete idx (open_chunks c)\<rparr>"
  by (auto simp: seal_chunk_def Let_def split: option.splits prod.splits)

lemma length_delete_present: "k \<in> fst ` set xs \<Longrightarrow> length (AList.delete k xs) < length xs"
  by (auto simp: delete_filter intro!: length_filter_less)

lemma seal_chunk_shrinks:
  "seal_chunk E now idx reason (c, d) = ((c', d'), r) \<Longrightarrow> open_chunks c = (idx, oc) # rest \<Longrightarrow>
   length (open_chunks c') < Suc (length rest)"
  using seal_chunk_fst [of E now idx reason c d c' d' r] length_delete_present [of idx "open_chunks c"] by simp

text \<open>The \<open>while\<close> loop that makes room below the cap by sealing the lowest open chunk.\<close>

function make_room :: "'bm writer_env \<Rightarrow> nat \<Rightarrow> u64 \<Rightarrow> 'bm chunker_state
    \<Rightarrow> 'bm chunker_state \<times> chunker_error option" where
  "make_room E now chunk_idx (c, d) =
     (if length (open_chunks c) < max_open_chunks (ch_cfg c) then ((c, d), None)
      else (case open_chunks c of
              [] \<Rightarrow> ((c, d), Some NoOpenChunkPanic)
            | (oldest, _) # _ \<Rightarrow>
                if oldest = chunk_idx then ((c, d), None)
                else (case seal_chunk E now oldest ''cap-reached'' (c, d) of
                        (st', Some e) \<Rightarrow> (st', Some e)
                      | (st', None) \<Rightarrow> make_room E now chunk_idx st')))"
  by pat_completeness auto
termination
  by (relation "measure (\<lambda>(E, now, idx, c, d). length (open_chunks c))")
    (auto dest: seal_chunk_shrinks [OF sym])

declare make_room.simps [simp del]

definition place :: "'bm writer_env \<Rightarrow> nat \<Rightarrow> u64 \<Rightarrow> 'bm chunker_state
    \<Rightarrow> 'bm chunker_state \<times> chunker_error option" where
  "place E now chunk_idx st =
     (if map_of (open_chunks (fst st)) chunk_idx \<noteq> None then (st, None)
      else (case make_room E now chunk_idx st of
              (st', Some e) \<Rightarrow> (st', Some e)
            | (st', None) \<Rightarrow> open_chunk E now chunk_idx st'))"

definition append_to :: "'bm writer_env \<Rightarrow> nat \<Rightarrow> stamped \<Rightarrow> u64 \<Rightarrow> u64 \<Rightarrow> 'bm chunker_state
    \<Rightarrow> 'bm chunker_state \<times> chunker_error option" where
  "append_to E now msg slot chunk_idx st =
     (case st of (c, d) \<Rightarrow>
        (case map_of (open_chunks c) chunk_idx of
           None \<Rightarrow> ((c, d), None)
         | Some oc \<Rightarrow>
             (case append_msg E now msg slot oc of
                Inl e \<Rightarrow> ((c, d), Some e)
              | Inr oc' \<Rightarrow>
                  ((c\<lparr>open_chunks := AList.update chunk_idx oc' (open_chunks c)\<rparr>, d), None))))"

definition behind_watermark :: "u64 \<Rightarrow> 'bm chunker \<Rightarrow> u64 list" where
  "behind_watermark watermark_chunk c =
     filter (\<lambda>idx. watermark_chunk \<ge> idx + SEAL_LOOKAHEAD_CHUNKS) (map fst (open_chunks c))"

definition ingest :: "'bm writer_env \<Rightarrow> nat \<Rightarrow> stamped \<Rightarrow> u64 \<Rightarrow> 'bm chunker_state
    \<Rightarrow> 'bm chunker_state \<times> chunker_error option" where
  "ingest E now msg slot st =
     (case st of (c0, d) \<Rightarrow>
        let c = c0\<lparr>watermark_slot := Some (opt_max (watermark_slot c0) slot)\<rparr>;
            watermark = opt_max (watermark_slot c0) slot;
            spc = slots_per_chunk (ch_cfg c)
        in if spc = 0 then ((c, d), Some DivideByZeroPanic)
           else
             let watermark_chunk = watermark div spc;
                 chunk_idx = slot div spc
             in if slot + out_of_order_tolerance_slots (ch_cfg c) < watermark then ((c, d), None)
                else (case place E now chunk_idx (c, d) of
                        (st1, Some e) \<Rightarrow> (st1, Some e)
                      | (st1, None) \<Rightarrow>
                          (case append_to E now msg slot chunk_idx st1 of
                             (st2, Some e) \<Rightarrow> (st2, Some e)
                           | (st2, None) \<Rightarrow>
                               seal_all E now ''watermark'' (behind_watermark watermark_chunk (fst st2)) st2)))"

definition chunker_tick :: "'bm writer_env \<Rightarrow> nat \<Rightarrow> 'bm chunker_state
    \<Rightarrow> 'bm chunker_state \<times> chunker_error option" where
  "chunker_tick E now st =
     (let stale = map fst (filter (\<lambda>(_, oc). now - last_activity oc > IDLE_SEAL_THRESHOLD)
                             (open_chunks (fst st)))
      in seal_all E now ''shutdown'' stale st)"

definition chunker_shutdown :: "'bm writer_env \<Rightarrow> nat \<Rightarrow> 'bm chunker_state
    \<Rightarrow> 'bm chunker_state \<times> chunker_error option" where
  "chunker_shutdown E now st = seal_all E now ''shutdown'' (map fst (open_chunks (fst st))) st"

section \<open>Invariant of the open chunks\<close>

text \<open>
  An open chunk holds the messages \<open>ms\<close>, each with its slot, in the order they were appended:
  the encoder was given their frames, the index observed them one by one, and the counters
  and bounds are theirs.
\<close>

definition oc_holds :: "'bm writer_env \<Rightarrow> stream \<Rightarrow> 'bm open_chunk \<Rightarrow> (stamped \<times> u64) list \<Rightarrow> bool" where
  "oc_holds E st oc ms \<longleftrightarrow>
     oc_written oc = concat (map (\<lambda>(m, _). frame_bytes (env_encode E (inner m))) ms) \<and>
     oc_index oc = observe_all (env_roaring E) (for_stream st) 0 (map (inner \<circ> fst) ms) \<and>
     oc_message_count oc = of_nat (length ms) \<and>
     oc_uncompressed_bytes oc = of_nat (length (oc_written oc)) \<and>
     oc_first_message_slot oc = min_opt (map snd ms) \<and>
     oc_last_message_slot oc = max_opt (map snd ms) \<and>
     oc_recv_ns_first oc = min_opt (map (wall_ns \<circ> fst) ms) \<and>
     oc_recv_ns_last oc = max_opt (map (wall_ns \<circ> fst) ms)"

definition oc_named :: "'bm open_chunk \<Rightarrow> bool" where
  "oc_named oc \<longleftrightarrow>
     (let s = oc_start_slot oc; e = oc_end_slot_exclusive oc
      in partial_zst oc = chunk_file s e ''zst.partial'' \<and>
         partial_meta oc = chunk_file s e ''meta.json.partial'' \<and>
         partial_idx oc = chunk_file s e ''idx.partial'' \<and> final_zst oc = chunk_file s e ''zst'' \<and>
         final_meta oc = chunk_file s e ''meta.json'' \<and> final_idx oc = chunk_file s e ''idx'')"

definition chunk_ok :: "'bm writer_env \<Rightarrow> 'bm chunker \<Rightarrow> u64 \<Rightarrow> 'bm open_chunk \<Rightarrow> bool" where
  "chunk_ok E c idx oc \<longleftrightarrow>
     (let spc = slots_per_chunk (ch_cfg c)
      in oc_start_slot oc = idx * spc \<and> oc_end_slot_exclusive oc = idx * spc + spc \<and> oc_named oc \<and>
         (\<exists>ms. oc_holds E (ch_stream c) oc ms \<and> (\<forall>(m, slot) \<in> set ms. slot div spc = idx)))"

definition chunker_inv :: "'bm writer_env \<Rightarrow> 'bm chunker \<Rightarrow> bool" where
  "chunker_inv E c \<longleftrightarrow>
     bt_ok (open_chunks c) \<and> (\<forall>(idx, oc) \<in> set (open_chunks c). chunk_ok E c idx oc)"

lemma observe_all_snoc:
  "observe_all R b n (ms @ [m]) = observe R (observe_all R b n ms) (ucast (n + of_nat (length ms))) m"
  by (induction ms arbitrary: b n) (simp_all add: ac_simps)

lemma opt_min_snoc: "min_opt (xs @ [x]) = Some (opt_min (min_opt xs) x)"
  by (cases xs) (simp_all add: min_opt_def opt_min_def)

lemma opt_max_snoc: "max_opt (xs @ [x]) = Some (opt_max (max_opt xs) x)"
  by (cases xs) (simp_all add: max_opt_def opt_max_def)

lemma append_msg_holds:
  assumes "oc_holds E st oc ms" and "append_msg E now msg slot oc = Inr oc'"
  shows "oc_holds E st oc' (ms @ [(msg, slot)])"
    and "oc_start_slot oc' = oc_start_slot oc" "oc_end_slot_exclusive oc' = oc_end_slot_exclusive oc"
    and "oc_named oc' = oc_named oc"
  using assms
  by (auto simp: append_msg_def oc_holds_def Let_def write_len_prefixed_frame_bytes observe_all_snoc
      opt_min_snoc opt_max_snoc oc_named_def comp_def split: if_splits)

lemma open_chunk_of_ok:
  "chunk_ok E c idx (open_chunk_of (ch_stream c) now (idx * slots_per_chunk (ch_cfg c))
     (idx * slots_per_chunk (ch_cfg c) + slots_per_chunk (ch_cfg c)))"
  unfolding chunk_ok_def Let_def
  by (auto simp: open_chunk_of_def oc_named_def oc_holds_def min_opt_def max_opt_def intro!: exI [of _ "[]"])

lemma chunker_inv_same:
  "ch_stream c' = ch_stream c \<Longrightarrow> ch_cfg c' = ch_cfg c \<Longrightarrow> open_chunks c' = open_chunks c \<Longrightarrow>
   chunker_inv E c' = chunker_inv E c"
  by (simp add: chunker_inv_def chunk_ok_def)

lemma chunker_inv_fewer:
  assumes "chunker_inv E c" and "set xs \<subseteq> set (open_chunks c)" and "bt_ok xs"
  shows "chunker_inv E (c\<lparr>open_chunks := xs\<rparr>)"
  using assms by (auto simp: chunker_inv_def chunk_ok_def Let_def)

text \<open>What every operation keeps: the stream, the configuration and the watermark.\<close>

definition same_chunker :: "'bm chunker \<Rightarrow> 'bm chunker \<Rightarrow> bool" where
  "same_chunker c c' \<longleftrightarrow>
     ch_stream c' = ch_stream c \<and> ch_cfg c' = ch_cfg c \<and> watermark_slot c' = watermark_slot c"

lemma same_chunker_refl [simp]: "same_chunker c c"
  by (simp add: same_chunker_def)

lemma same_chunker_trans: "same_chunker a b \<Longrightarrow> same_chunker b c \<Longrightarrow> same_chunker a c"
  by (simp add: same_chunker_def)

lemma seal_chunk_open:
  assumes "seal_chunk E now idx reason (c, d) = ((c', d'), r)"
  shows "same_chunker c c' \<and> open_chunks c' = AList.delete idx (open_chunks c)"
proof (cases "map_of (open_chunks c) idx")
  case None
  then have "AList.delete idx (open_chunks c) = open_chunks c"
    by (simp add: delete_id map_of_eq_None_iff)
  with None assms show ?thesis by (simp add: seal_chunk_def)
next
  case (Some oc)
  with seal_chunk_fst [OF assms] show ?thesis by (simp add: same_chunker_def)
qed

lemma chunker_inv_seal:
  assumes "chunker_inv E c" and "seal_chunk E now idx reason (c, d) = ((c', d'), r)"
  shows "chunker_inv E c'"
proof -
  from seal_chunk_open [OF assms(2)]
  have "chunker_inv E c' = chunker_inv E (c\<lparr>open_chunks := AList.delete idx (open_chunks c)\<rparr>)"
    by (intro chunker_inv_same) (simp_all add: same_chunker_def)
  also have "\<dots>"
    using assms(1) by (intro chunker_inv_fewer) (auto simp: set_delete_filter bt_ok_delete chunker_inv_def)
  finally show ?thesis .
qed

lemma seal_all_inv:
  "chunker_inv E c \<Longrightarrow> seal_all E now reason idxs (c, d) = ((c', d'), r) \<Longrightarrow>
   chunker_inv E c' \<and> same_chunker c c' \<and> set (open_chunks c') \<subseteq> set (open_chunks c) \<and>
   (r = None \<longrightarrow> (\<forall>i \<in> set idxs. i \<notin> fst ` set (open_chunks c')))"
proof (induction idxs arbitrary: c d)
  case (Cons i idxs)
  obtain c1 d1 r1 where s: "seal_chunk E now i reason (c, d) = ((c1, d1), r1)"
    by (metis surj_pair)
  note inv1 = chunker_inv_seal [OF Cons.prems(1) s]
  note open1 = seal_chunk_open [OF s]
  show ?case
  proof (cases r1)
    case None
    with s Cons.prems(2) have "seal_all E now reason idxs (c1, d1) = ((c', d'), r)" by simp
    note IH = Cons.IH [OF inv1 this]
    have sub: "set (open_chunks c1) = {x \<in> set (open_chunks c). fst x \<noteq> i}"
      using open1 by (simp add: set_delete_filter)
    have "i \<notin> fst ` set (open_chunks c')" using IH sub by blast
    moreover have "same_chunker c c'" using IH open1 same_chunker_trans by blast
    moreover have "set (open_chunks c') \<subseteq> set (open_chunks c)" using IH sub by blast
    ultimately show ?thesis using IH by simp
  next
    case (Some e)
    with s Cons.prems open1 inv1 show ?thesis by (auto simp: set_delete_filter)
  qed
qed simp

lemma make_room_inv:
  "chunker_inv E c \<Longrightarrow> make_room E now idx (c, d) = ((c', d'), r) \<Longrightarrow>
   chunker_inv E c' \<and> same_chunker c c' \<and> set (open_chunks c') \<subseteq> set (open_chunks c) \<and>
   (r = None \<longrightarrow> length (open_chunks c') < max_open_chunks (ch_cfg c) \<or> idx \<in> fst ` set (open_chunks c'))"
proof (induction E now idx "(c, d)" arbitrary: c d rule: make_room.induct)
  case (1 E now chunk_idx c d)
  show ?case
  proof (cases "length (open_chunks c) < max_open_chunks (ch_cfg c)")
    case True
    with "1.prems" show ?thesis by (simp add: make_room.simps)
  next
    case full: False
    show ?thesis
    proof (cases "open_chunks c")
      case Nil
      with full "1.prems" show ?thesis by (auto simp: make_room.simps [of _ _ _ c])
    next
      case (Cons x rest)
      obtain oldest oc where x: "x = (oldest, oc)" by fastforce
      show ?thesis
      proof (cases "oldest = chunk_idx")
        case True
        with full Cons x "1.prems" show ?thesis by (simp add: make_room.simps [of _ _ _ c])
      next
        case False
        obtain c1 d1 r1 where s: "seal_chunk E now oldest ''cap-reached'' (c, d) = ((c1, d1), r1)"
          by (metis surj_pair)
        note inv1 = chunker_inv_seal [OF "1.prems"(1) s]
        note open1 = seal_chunk_open [OF s]
        show ?thesis
        proof (cases r1)
          case None
          with full Cons x False s "1.prems"(2)
          have "make_room E now chunk_idx (c1, d1) = ((c', d'), r)" by (simp add: make_room.simps [of _ _ _ c])
          note IH = "1.hyps" [OF full Cons x [symmetric] False s [symmetric] None inv1 this]
          have "same_chunker c c'" using IH open1 same_chunker_trans by blast
          moreover have "set (open_chunks c') \<subseteq> set (open_chunks c)"
            using IH open1 by (auto simp: set_delete_filter)
          moreover have "ch_cfg c1 = ch_cfg c" using open1 by (simp add: same_chunker_def)
          ultimately show ?thesis using IH by simp
        next
          case (Some e)
          with full Cons x False s "1.prems"(2) have "c' = c1" "r = Some e" by (simp_all add: make_room.simps [of _ _ _ c])
          with inv1 open1 show ?thesis by (auto simp: set_delete_filter)
        qed
      qed
    qed
  qed
qed

text \<open>
  \<open>ch_bound n c\<close>: at most \<open>n\<close> chunks are open. The steps of one \<open>ingest\<close> before its seals.
\<close>

lemma open_chunk_inv:
  assumes "chunker_inv E c" and "open_chunk E now idx (c, d) = ((c', d'), r)"
  shows "chunker_inv E c' \<and> same_chunker c c' \<and>
    (open_chunks c' = open_chunks c \<or> idx \<notin> fst ` set (open_chunks c) \<and>
      fst ` set (open_chunks c') = insert idx (fst ` set (open_chunks c)))"
proof -
  let ?s = "idx * slots_per_chunk (ch_cfg c)"
  let ?oc = "open_chunk_of (ch_stream c) now ?s (?s + slots_per_chunk (ch_cfg c))"
  have "c' = c \<or> map_of (open_chunks c) idx = None \<and> c' = c\<lparr>open_chunks := bt_insert idx ?oc (open_chunks c)\<rparr>"
    using assms(2) by (auto simp: open_chunk_def Let_def split: if_splits prod.splits option.splits)
  then show ?thesis
  proof
    assume new: "map_of (open_chunks c) idx = None \<and> c' = c\<lparr>open_chunks := bt_insert idx ?oc (open_chunks c)\<rparr>"
    have "chunk_ok E c' i oc" if "(i, oc) \<in> set (open_chunks c')" for i oc
    proof -
      have "(i, oc) = (idx, ?oc) \<or> (i, oc) \<in> set (open_chunks c)"
        using that new set_bt_insert_subset [of idx ?oc "open_chunks c"] by auto
      moreover have "chunk_ok E c' i oc = chunk_ok E c i oc" using new by (simp add: chunk_ok_def)
      ultimately show ?thesis using assms(1) open_chunk_of_ok [of E c idx now] by (auto simp: chunker_inv_def)
    qed
    moreover have "bt_ok (open_chunks c')" using assms(1) new by (simp add: chunker_inv_def bt_ok_insert)
    ultimately have "chunker_inv E c'" by (auto simp: chunker_inv_def)
    with new show ?thesis by (simp add: same_chunker_def keys_bt_insert map_of_eq_None_iff)
  qed (use assms(1) in simp)
qed

lemma append_to_inv:
  assumes inv: "chunker_inv E c" and i: "idx = slot div slots_per_chunk (ch_cfg c)"
    and a: "append_to E now msg slot idx (c, d) = ((c', d'), r)"
  shows "chunker_inv E c' \<and> same_chunker c c' \<and> d' = d \<and> map fst (open_chunks c') = map fst (open_chunks c)"
proof (cases "c' = c")
  case True
  with inv a show ?thesis by (auto simp: append_to_def split: option.splits sum.splits)
next
  case False
  with a obtain oc oc' where oc: "map_of (open_chunks c) idx = Some oc" and d': "d' = d"
    and ap: "append_msg E now msg slot oc = Inr oc'"
    and c': "c' = c\<lparr>open_chunks := AList.update idx oc' (open_chunks c)\<rparr>"
    by (auto simp: append_to_def split: option.splits sum.splits)
  have bt: "bt_ok (open_chunks c)" using inv by (simp add: chunker_inv_def)
  have "(idx, oc) \<in> set (open_chunks c)" using oc by (rule map_of_SomeD)
  then have key: "idx \<in> fst ` set (open_chunks c)" and ok: "chunk_ok E c idx oc"
    using inv by (auto simp: chunker_inv_def intro: rev_image_eqI)
  have keys: "map fst (AList.update idx oc' (open_chunks c)) = map fst (open_chunks c)"
    using key by (simp add: update_keys)
  from ok obtain ms where ms: "oc_holds E (ch_stream c) oc ms" "\<forall>(m, slot) \<in> set ms. slot div slots_per_chunk (ch_cfg c) = idx"
    by (auto simp: chunk_ok_def Let_def)
  have "chunk_ok E c idx oc'"
    using ok append_msg_holds [OF ms(1) ap] ms(2) i
    by (auto simp: chunk_ok_def Let_def intro!: exI [of _ "ms @ [(msg, slot)]"])
  then have "\<forall>(i, x) \<in> set (open_chunks c'). chunk_ok E c i x"
    using inv bt_ok_distinct [OF bt] c' by (auto simp: set_update_distinct chunker_inv_def)
  then have "chunker_inv E c'"
    using bt keys c' by (simp add: chunker_inv_def bt_ok_def chunk_ok_def)
  with keys c' d' show ?thesis by (simp add: same_chunker_def)
qed

lemma chunker_inv_watermark: "chunker_inv E (c\<lparr>watermark_slot := w\<rparr>) = chunker_inv E c"
  by (rule chunker_inv_same) simp_all

text \<open>An ingested message, whatever becomes of it.\<close>

lemma place_inv:
  assumes "chunker_inv E c" and "place E now idx (c, d) = ((c', d'), r)"
  shows "chunker_inv E c' \<and> same_chunker c c' \<and>
    fst ` set (open_chunks c') \<subseteq> insert idx (fst ` set (open_chunks c)) \<and>
    (length (open_chunks c) \<le> max_open_chunks (ch_cfg c) \<longrightarrow> length (open_chunks c') \<le> max_open_chunks (ch_cfg c))"
proof (cases "map_of (open_chunks c) idx = None")
  case False
  with assms show ?thesis by (auto simp: place_def)
next
  case True
  then have new: "idx \<notin> fst ` set (open_chunks c)" by (simp add: map_of_eq_None_iff)
  obtain c1 d1 r1 where m: "make_room E now idx (c, d) = ((c1, d1), r1)" by (metis surj_pair)
  note m1 = make_room_inv [OF assms(1) m]
  have dist: "distinct (map fst (open_chunks x))" if "chunker_inv E x" for x
    using that by (simp add: chunker_inv_def bt_ok_distinct)
  have sub1: "fst ` set (open_chunks c1) \<subseteq> fst ` set (open_chunks c)" using m1 by blast
  then have len1: "length (open_chunks c1) \<le> length (open_chunks c)"
    using m1 by (intro length_keys_le dist assms(1)) blast
  show ?thesis
  proof (cases r1)
    case (Some e)
    with True m assms(2) have "c' = c1" by (simp add: place_def)
    with m1 len1 sub1 show ?thesis by auto
  next
    case None
    with True m assms(2) have o: "open_chunk E now idx (c1, d1) = ((c', d'), r)" by (simp add: place_def)
    note o1 = open_chunk_inv [OF conjunct1 [OF m1] o]
    have "idx \<notin> fst ` set (open_chunks c1)" using new m1 by blast
    then have room: "length (open_chunks c1) < max_open_chunks (ch_cfg c)" using m1 None by blast
    have sub2: "fst ` set (open_chunks c') \<subseteq> insert idx (fst ` set (open_chunks c1))" using o1 by auto
    then have "length (open_chunks c') \<le> Suc (length (open_chunks c1))"
      using o1 m1 by (intro length_keys_insert dist) blast+
    moreover have "same_chunker c c'" using o1 m1 same_chunker_trans by blast
    moreover have "fst ` set (open_chunks c') \<subseteq> insert idx (fst ` set (open_chunks c))"
      using sub1 sub2 by blast
    ultimately show ?thesis using o1 room by simp
  qed
qed

lemma ingest_inv:
  assumes inv: "chunker_inv E c" and i: "ingest E now msg slot (c, d) = ((c', d'), r)"
  shows "chunker_inv E c' \<and> ch_stream c' = ch_stream c \<and> ch_cfg c' = ch_cfg c \<and>
    watermark_slot c' = Some (opt_max (watermark_slot c) slot) \<and>
    (length (open_chunks c) \<le> max_open_chunks (ch_cfg c) \<longrightarrow> length (open_chunks c') \<le> max_open_chunks (ch_cfg c))"
proof -
  define cw where "cw = c\<lparr>watermark_slot := Some (opt_max (watermark_slot c) slot)\<rparr>"
  let ?idx = "slot div slots_per_chunk (ch_cfg c)"
  have invw: "chunker_inv E cw" using inv by (simp add: cw_def chunker_inv_watermark)
  have cw: "ch_stream cw = ch_stream c" "ch_cfg cw = ch_cfg c" "open_chunks cw = open_chunks c"
    "watermark_slot cw = Some (opt_max (watermark_slot c) slot)" by (simp_all add: cw_def)
  obtain c1 d1 r1 where p: "place E now ?idx (cw, d) = ((c1, d1), r1)" by (metis surj_pair)
  obtain c2 d2 r2 where a: "append_to E now msg slot ?idx (c1, d1) = ((c2, d2), r2)" by (metis surj_pair)
  note p1 = place_inv [OF invw p]
  have "?idx = slot div slots_per_chunk (ch_cfg c1)" using p1 cw by (simp add: same_chunker_def)
  note a1 = append_to_inv [OF conjunct1 [OF p1] this a]
  have len2: "length (open_chunks c2) = length (open_chunks c1)"
    using a1 by (metis length_map)
  have dist: "distinct (map fst (open_chunks x))" if "chunker_inv E x" for x
    using that by (simp add: chunker_inv_def bt_ok_distinct)
  have early: "c' = cw \<or> c' = c1 \<or> c' = c2 \<or>
      (\<exists>wc. seal_all E now ''watermark'' (behind_watermark wc c2) (c2, d2) = ((c', d'), r))"
    using i p a unfolding ingest_def Let_def
    by (auto simp: cw_def [symmetric] cw(2) split: if_splits option.splits prod.splits)
  have same: "same_chunker cw c1" "same_chunker cw c2"
    using p1 a1 same_chunker_trans by blast+
  show ?thesis
  proof (cases "c' = cw \<or> c' = c1 \<or> c' = c2")
    case True
    then show ?thesis using invw p1 a1 cw same len2 by (auto simp: same_chunker_def)
  next
    case False
    with early obtain wc where "seal_all E now ''watermark'' (behind_watermark wc c2) (c2, d2) = ((c', d'), r)" by auto
    note s1 = seal_all_inv [OF conjunct1 [OF a1] this]
    have "length (open_chunks c') \<le> length (open_chunks c2)"
      using s1 a1 by (intro length_keys_le dist image_mono) blast+
    then show ?thesis using s1 p1 a1 cw same len2 by (auto simp: same_chunker_def)
  qed
qed

text \<open>A message below the tolerance changes nothing but the watermark.\<close>

lemma ingest_too_old:
  assumes "slots_per_chunk (ch_cfg c) \<noteq> 0"
    and "slot + out_of_order_tolerance_slots (ch_cfg c) < opt_max (watermark_slot c) slot"
  shows "ingest E now msg slot (c, d) = ((c\<lparr>watermark_slot := Some (opt_max (watermark_slot c) slot)\<rparr>, d), None)"
  using assms by (simp add: ingest_def Let_def)

text \<open>After a successful call no chunk two or more behind the watermark is open.\<close>

lemma ingest_lookahead:
  assumes inv: "chunker_inv E c" and spc: "slots_per_chunk (ch_cfg c) \<noteq> 0"
    and recent: "\<not> slot + out_of_order_tolerance_slots (ch_cfg c) < opt_max (watermark_slot c) slot"
    and i: "ingest E now msg slot (c, d) = ((c', d'), None)"
    and idx: "idx \<in> fst ` set (open_chunks c')"
  shows "opt_max (watermark_slot c) slot div slots_per_chunk (ch_cfg c) < idx + SEAL_LOOKAHEAD_CHUNKS"
proof -
  define cw where "cw = c\<lparr>watermark_slot := Some (opt_max (watermark_slot c) slot)\<rparr>"
  let ?i = "slot div slots_per_chunk (ch_cfg c)"
  let ?w = "opt_max (watermark_slot c) slot div slots_per_chunk (ch_cfg c)"
  have invw: "chunker_inv E cw" using inv by (simp add: cw_def chunker_inv_watermark)
  obtain c1 d1 where p: "place E now ?i (cw, d) = ((c1, d1), None)"
    using i spc recent by (auto simp: ingest_def Let_def cw_def split: prod.splits option.splits)
  obtain c2 d2 where a: "append_to E now msg slot ?i (c1, d1) = ((c2, d2), None)"
    using i spc recent p by (auto simp: ingest_def Let_def cw_def split: prod.splits option.splits)
  have s: "seal_all E now ''watermark'' (behind_watermark ?w c2) (c2, d2) = ((c', d'), None)"
    using i spc recent p a by (simp add: ingest_def Let_def cw_def)
  note p1 = place_inv [OF invw p]
  have "?i = slot div slots_per_chunk (ch_cfg c1)" using p1 by (simp add: same_chunker_def cw_def)
  note a1 = append_to_inv [OF conjunct1 [OF p1] this a]
  note s1 = seal_all_inv [OF conjunct1 [OF a1] s]
  have "idx \<in> fst ` set (open_chunks c2)" using s1 idx by blast
  moreover have "idx \<notin> set (behind_watermark ?w c2)" using s1 idx by blast
  ultimately show ?thesis by (auto simp: behind_watermark_def not_le)
qed

section \<open>What sealing leaves on disk\<close>

lemma seal_ops_shape:
  assumes "oc_named oc" and "seal_ops E st reason oc = (ops, e)"
  shows "(\<forall>op \<in> set ops. adds_data op) \<or>
    (\<exists>front. ops = front @ [RenameFile (partial_meta oc) (final_meta oc)] \<and> (\<forall>op \<in> set front. adds_data op) \<and>
       RenameFile (partial_zst oc) (final_zst oc) \<in> set front \<and>
       RenameFile (partial_idx oc) (final_idx oc) \<in> set front)"
proof -
  note named = assms(1) [unfolded oc_named_def Let_def]
  show ?thesis
  proof (cases "e = None")
    case True
    with assms(2) obtain meta_json idx_bytes where
      "ops = [WriteFile (partial_zst oc) (env_zstd E (oc_written oc)), SyncFile (partial_zst oc),
         CreateFile (partial_meta oc), WriteFile (partial_meta oc) meta_json, SyncFile (partial_meta oc),
         RenameFile (partial_zst oc) (final_zst oc), CreateFile (partial_idx oc),
         WriteFile (partial_idx oc) idx_bytes, SyncFile (partial_idx oc),
         RenameFile (partial_idx oc) (final_idx oc)] @ [RenameFile (partial_meta oc) (final_meta oc)]"
      by (auto simp: seal_ops_def Let_def split: option.splits sum.splits)
    then show ?thesis using named by (intro disjI2 exI conjI) auto
  next
    case False
    with assms(2) have "\<forall>op \<in> set ops. adds_data op"
      using named by (auto simp: seal_ops_def Let_def split: option.splits sum.splits)
    then show ?thesis ..
  qed
qed

text \<open>Sealing interrupted after any number of file operations, by a failure or by a crash.\<close>

lemma seal_crash_safe:
  assumes d: "dir_complete d" and oc: "oc_named oc" and ops: "seal_ops E st reason oc = (ops, e)"
  shows "dir_complete (fst (run_ops fails now (take n ops) d))"
proof (cases "\<forall>op \<in> set (take n ops). adds_data op")
  case True
  with d show ?thesis by (rule dir_complete_run)
next
  case False
  then have "\<not> (\<forall>op \<in> set ops. adds_data op)" by (meson in_set_takeD)
  with seal_ops_shape [OF oc ops] obtain front where
    front: "ops = front @ [RenameFile (partial_meta oc) (final_meta oc)]" "\<forall>op \<in> set front. adds_data op"
    and mem: "RenameFile (partial_zst oc) (final_zst oc) \<in> set front"
      "RenameFile (partial_idx oc) (final_idx oc) \<in> set front" by auto
  have "n > length front" using False front by (metis in_set_takeD linorder_not_less take_append take_all append_Nil2 diff_is_0_eq take_0)
  then have tk: "take n ops = ops" by (simp add: front(1))
  let ?s = "oc_start_slot oc" and ?e = "oc_end_slot_exclusive oc"
  note named = oc [unfolded oc_named_def Let_def]
  obtain d1 r1 where r: "run_ops fails now front d = (d1, r1)" by fastforce
  have c1: "dir_complete d1" using dir_complete_run [OF d front(2), of fails now] r by simp
  show ?thesis
  proof (cases r1)
    case (Some op)
    with r c1 show ?thesis unfolding tk by (simp add: front(1) run_ops_append)
  next
    case None
    have src: "\<forall>x y. RenameFile x y \<in> set front \<longrightarrow> x \<noteq> chunk_file ?s ?e ''zst'' \<and> x \<noteq> chunk_file ?s ?e ''idx''"
      using front(2) by fastforce
    moreover have "RemoveFile (chunk_file ?s ?e ''zst'') \<notin> set front \<and> RemoveFile (chunk_file ?s ?e ''idx'') \<notin> set front"
      using front(2) by fastforce
    ultimately have "exists_in d1 (chunk_file ?s ?e ''zst'')" "exists_in d1 (chunk_file ?s ?e ''idx'')"
      using run_ops_target [OF r [unfolded None]] mem named by metis+
    with c1 have "dir_complete d2" if "apply_op now (RenameFile (partial_meta oc) (final_meta oc)) d1 = Some d2" for d2
      unfolding dir_complete_def exists_apply_op [OF that] using named by auto
    with c1 r None show ?thesis
      unfolding tk by (auto simp: front(1) run_ops_append split: option.splits)
  qed
qed

lemma seal_chunk_complete:
  assumes "chunker_inv E c" and "dir_complete d" and s: "seal_chunk E now idx reason (c, d) = ((c', d'), r)"
  shows "dir_complete d'"
proof (cases "map_of (open_chunks c) idx")
  case None
  with assms show ?thesis by (simp add: seal_chunk_def)
next
  case (Some oc)
  obtain ops e where o: "seal_ops E (ch_stream c) reason oc = (ops, e)" by fastforce
  have "oc_named oc" using assms(1) map_of_SomeD [OF Some] by (auto simp: chunker_inv_def chunk_ok_def Let_def)
  from seal_crash_safe [OF assms(2) this o, of "io_fails E" now "length ops"] s Some o show ?thesis
    by (auto simp: seal_chunk_def Let_def split: prod.splits option.splits)
qed

lemma seal_all_complete:
  "chunker_inv E c \<Longrightarrow> dir_complete d \<Longrightarrow> seal_all E now reason idxs (c, d) = ((c', d'), r) \<Longrightarrow> dir_complete d'"
proof (induction idxs arbitrary: c d)
  case (Cons i idxs)
  obtain c1 d1 r1 where s: "seal_chunk E now i reason (c, d) = ((c1, d1), r1)" by (metis surj_pair)
  from chunker_inv_seal [OF Cons.prems(1) s] seal_chunk_complete [OF Cons.prems(1,2) s] Cons.IH [of c1 d1] Cons.prems(3) s
  show ?case by (cases r1) auto
qed simp

lemma make_room_complete:
  "chunker_inv E c \<Longrightarrow> dir_complete d \<Longrightarrow> make_room E now idx (c, d) = ((c', d'), r) \<Longrightarrow> dir_complete d'"
proof (induction E now idx "(c, d)" arbitrary: c d rule: make_room.induct)
  case (1 E now chunk_idx c d)
  show ?case
  proof (cases "d' = d")
    case True
    with "1.prems" show ?thesis by simp
  next
    case False
    then obtain oldest oc rest where full: "\<not> length (open_chunks c) < max_open_chunks (ch_cfg c)"
      and o: "open_chunks c = (oldest, oc) # rest" and ne: "oldest \<noteq> chunk_idx"
      using "1.prems"(3) by (auto simp: make_room.simps [of _ _ _ c] split: if_splits list.splits)
    obtain c1 d1 r1 where s: "seal_chunk E now oldest ''cap-reached'' (c, d) = ((c1, d1), r1)" by (metis surj_pair)
    note inv1 = chunker_inv_seal [OF "1.prems"(1) s] and ok1 = seal_chunk_complete [OF "1.prems"(1,2) s]
    show ?thesis
    proof (cases r1)
      case None
      with full o ne s "1.prems"(3) have "make_room E now chunk_idx (c1, d1) = ((c', d'), r)"
        by (simp add: make_room.simps [of _ _ _ c])
      from "1.hyps" [OF full o refl ne s [symmetric] None inv1 ok1 this] show ?thesis .
    next
      case (Some e)
      with full o ne s "1.prems"(3) ok1 show ?thesis by (simp add: make_room.simps [of _ _ _ c])
    qed
  qed
qed

lemma open_chunk_complete:
  assumes "dir_complete d" and "open_chunk E now idx (c, d) = ((c', d'), r)"
  shows "dir_complete d'"
proof -
  let ?s = "idx * slots_per_chunk (ch_cfg c)"
  let ?op = "CreateFile (chunk_file ?s (?s + slots_per_chunk (ch_cfg c)) ''zst.partial'')"
  have "d' = d \<or> d' = fst (run_ops (io_fails E) now [?op] d)"
    using assms(2) by (auto simp: open_chunk_def open_chunk_of_def Let_def split: if_splits)
  moreover have "dir_complete (fst (run_ops (io_fails E) now [?op] d))"
    using assms(1) by (intro dir_complete_run) simp_all
  ultimately show ?thesis using assms(1) by metis
qed

text \<open>The directory stays complete through every call, successful or not.\<close>

lemma place_complete:
  assumes "chunker_inv E c" and "dir_complete d" and p: "place E now idx (c, d) = ((c', d'), r)"
  shows "dir_complete d'"
proof (cases "map_of (open_chunks c) idx = None")
  case True
  obtain c1 d1 r1 where m: "make_room E now idx (c, d) = ((c1, d1), r1)" by (metis surj_pair)
  note d1 = make_room_complete [OF assms(1,2) m]
  with True p m open_chunk_complete [OF d1, of E now idx c1 c' d' r] show ?thesis
    by (cases r1) (auto simp: place_def)
qed (use p assms(2) in \<open>auto simp: place_def\<close>)

lemma ingest_complete:
  assumes inv: "chunker_inv E c" and d: "dir_complete d" and i: "ingest E now msg slot (c, d) = ((c', d'), r)"
  shows "dir_complete d'"
proof -
  define cw where "cw = c\<lparr>watermark_slot := Some (opt_max (watermark_slot c) slot)\<rparr>"
  let ?idx = "slot div slots_per_chunk (ch_cfg c)"
  have invw: "chunker_inv E cw" using inv by (simp add: cw_def chunker_inv_watermark)
  have cfg: "ch_cfg cw = ch_cfg c" by (simp add: cw_def)
  obtain c1 d1 r1 where p: "place E now ?idx (cw, d) = ((c1, d1), r1)" by (metis surj_pair)
  obtain c2 d2 r2 where a: "append_to E now msg slot ?idx (c1, d1) = ((c2, d2), r2)" by (metis surj_pair)
  note p1 = place_inv [OF invw p] and d1 = place_complete [OF invw d p]
  have "?idx = slot div slots_per_chunk (ch_cfg c1)" using p1 cfg by (simp add: same_chunker_def)
  note a1 = append_to_inv [OF conjunct1 [OF p1] this a]
  have "d' = d \<or> d' = d1 \<or> d' = d2 \<or>
      (\<exists>wc. seal_all E now ''watermark'' (behind_watermark wc c2) (c2, d2) = ((c', d'), r))"
    using i p a unfolding ingest_def Let_def
    by (auto simp: cw_def [symmetric] cfg split: if_splits option.splits prod.splits)
  with seal_all_complete a1 d d1 show ?thesis by metis
qed

section \<open>The three files of a sealed chunk\<close>

text \<open>
  What the final files hold after a seal that reported no error: the compressed frames, the
  serialized index and the encoded metadata of the chunk.
\<close>

definition sealed_as :: "'bm writer_env \<Rightarrow> stream \<Rightarrow> string \<Rightarrow> 'bm open_chunk \<Rightarrow> nat \<Rightarrow> dir \<Rightarrow> bool" where
  "sealed_as E st reason oc now d \<longleftrightarrow>
     map_of d (final_zst oc) = Some \<lparr>content = env_zstd E (oc_written oc), mtime = now\<rparr> \<and>
     (\<exists>idx_bytes. serialize (env_roaring E) (env_rmp E) (oc_index oc) (oc_start_slot oc)
          (oc_end_slot_exclusive oc) (oc_message_count oc) = Inr idx_bytes \<and>
        map_of d (final_idx oc) = Some \<lparr>content = idx_bytes, mtime = now\<rparr>) \<and>
     (\<exists>meta_json. env_json E (meta_of E st reason oc) = Some meta_json \<and>
        map_of d (final_meta oc) = Some \<lparr>content = meta_json, mtime = now\<rparr>)"

lemma seal_ops_sealed:
  assumes named: "oc_named oc" and ops: "seal_ops E st reason oc = (ops, None)"
    and run: "run_ops fails now ops d = (d', None)"
  shows "sealed_as E st reason oc now d'"
proof -
  obtain meta_json idx_bytes where mj: "env_json E (meta_of E st reason oc) = Some meta_json"
    and ib: "serialize (env_roaring E) (env_rmp E) (oc_index oc) (oc_start_slot oc)
        (oc_end_slot_exclusive oc) (oc_message_count oc) = Inr idx_bytes"
    using ops by (auto simp: seal_ops_def Let_def split: option.splits sum.splits)
  have o: "ops = [WriteFile (partial_zst oc) (env_zstd E (oc_written oc)), SyncFile (partial_zst oc),
         CreateFile (partial_meta oc), WriteFile (partial_meta oc) meta_json, SyncFile (partial_meta oc),
         RenameFile (partial_zst oc) (final_zst oc), CreateFile (partial_idx oc),
         WriteFile (partial_idx oc) idx_bytes, SyncFile (partial_idx oc),
         RenameFile (partial_idx oc) (final_idx oc), RenameFile (partial_meta oc) (final_meta oc)]"
    using ops by (simp add: seal_ops_def mj ib Let_def)
  have "map_of d' (final_zst oc) = Some \<lparr>content = env_zstd E (oc_written oc), mtime = now\<rparr> \<and>
    map_of d' (final_idx oc) = Some \<lparr>content = idx_bytes, mtime = now\<rparr> \<and>
    map_of d' (final_meta oc) = Some \<lparr>content = meta_json, mtime = now\<rparr>"
    using run named unfolding o run_ops_None oc_named_def Let_def by (auto simp: map_of_rename)
  with mj ib show ?thesis by (simp add: sealed_as_def)
qed

lemma seal_chunk_sealed:
  assumes inv: "chunker_inv E c" and oc: "map_of (open_chunks c) idx = Some oc"
    and s: "seal_chunk E now idx reason (c, d) = ((c', d'), None)"
  shows "sealed_as E (ch_stream c) reason oc now d'"
proof -
  have "oc_named oc" using inv map_of_SomeD [OF oc] by (auto simp: chunker_inv_def chunk_ok_def Let_def)
  moreover obtain ops e where o: "seal_ops E (ch_stream c) reason oc = (ops, e)" by fastforce
  moreover have "run_ops (io_fails E) now ops d = (d', None)" "e = None"
    using s oc o by (auto simp: seal_chunk_def Let_def split: prod.splits option.splits)
  ultimately show ?thesis using seal_ops_sealed by blast
qed

section \<open>Where a message goes\<close>

lemma seal_all_others:
  "seal_all E now reason idxs (c, d) = ((c', d'), r) \<Longrightarrow> map_of (open_chunks c') j = Some oc \<Longrightarrow>
   map_of (open_chunks c) j = Some oc"
proof (induction idxs arbitrary: c d)
  case (Cons i idxs)
  obtain c1 d1 r1 where s: "seal_chunk E now i reason (c, d) = ((c1, d1), r1)" by (metis surj_pair)
  have "map_of (open_chunks c1) j = Some oc"
    using Cons s by (cases r1) auto
  then show ?case
    using s by (auto simp: seal_chunk_def Let_def delete_conv' split: option.splits prod.splits if_splits)
qed simp

lemma make_room_others:
  "make_room E now idx (c, d) = ((c', d'), r) \<Longrightarrow> map_of (open_chunks c') j = Some oc \<Longrightarrow>
   map_of (open_chunks c) j = Some oc"
proof (induction E now idx "(c, d)" arbitrary: c d rule: make_room.induct)
  case (1 E now chunk_idx c d)
  show ?case
  proof (cases "c' = c")
    case True
    with "1.prems" show ?thesis by simp
  next
    case False
    then obtain oldest oc1 rest where full: "\<not> length (open_chunks c) < max_open_chunks (ch_cfg c)"
      and o: "open_chunks c = (oldest, oc1) # rest" and ne: "oldest \<noteq> chunk_idx"
      using "1.prems"(1) by (auto simp: make_room.simps [of _ _ _ c] split: if_splits list.splits)
    obtain c1 d1 r1 where s: "seal_chunk E now oldest ''cap-reached'' (c, d) = ((c1, d1), r1)" by (metis surj_pair)
    have one: "seal_all E now ''cap-reached'' [oldest] (c, d) = ((c1, d1), r1)"
      using s by (auto split: option.splits)
    have "map_of (open_chunks c1) j = Some oc"
    proof (cases r1)
      case None
      with full o ne s "1.prems"(1) have "make_room E now chunk_idx (c1, d1) = ((c', d'), r)"
        by (simp add: make_room.simps [of _ _ _ c])
      from "1.hyps" [OF full o refl ne s [symmetric] None this "1.prems"(2)] show ?thesis .
    next
      case (Some e)
      with full o ne s "1.prems" show ?thesis by (simp add: make_room.simps [of _ _ _ c])
    qed
    from seal_all_others [OF one this] show ?thesis .
  qed
qed

text \<open>After placing, a chunk is as it was, or it is the new one and empty.\<close>

lemma place_others:
  assumes p: "place E now idx (c, d) = ((c', d'), r)" and j: "map_of (open_chunks c') j = Some oc"
  shows "map_of (open_chunks c) j = Some oc \<or>
    j = idx \<and> map_of (open_chunks c) j = None \<and> oc_holds E (ch_stream c') oc []"
proof (cases "map_of (open_chunks c) idx = None")
  case False
  with p j show ?thesis by (auto simp: place_def)
next
  case True
  obtain c1 d1 r1 where m: "make_room E now idx (c, d) = ((c1, d1), r1)" by (metis surj_pair)
  have "map_of (open_chunks c1) j = Some oc \<or> j = idx \<and> oc_holds E (ch_stream c') oc []"
  proof (cases r1)
    case (Some e)
    with True p j m show ?thesis by (simp add: place_def)
  next
    case None
    with True p m have "open_chunk E now idx (c1, d1) = ((c', d'), r)" by (simp add: place_def)
    with j show ?thesis
      by (auto simp: open_chunk_def Let_def map_of_bt_insert open_chunk_of_def oc_holds_def min_opt_def max_opt_def
          split: if_splits option.splits)
  qed
  with make_room_others [OF m] True show ?thesis by blast
qed

lemma append_to_chunk:
  assumes "append_to E now msg slot idx (c, d) = ((c', d'), r)"
  shows "j \<noteq> idx \<Longrightarrow> map_of (open_chunks c') j = map_of (open_chunks c) j"
    and "r = None \<Longrightarrow> map_of (open_chunks c') idx = Some oc' \<Longrightarrow>
      \<exists>oc. map_of (open_chunks c) idx = Some oc \<and> append_msg E now msg slot oc = Inr oc'"
  using assms by (auto simp: append_to_def update_conv' split: option.splits sum.splits)

lemma ingest_split:
  assumes "ingest E now msg slot (c, d) = ((c', d'), None)" and "slots_per_chunk (ch_cfg c) \<noteq> 0"
    and "\<not> slot + out_of_order_tolerance_slots (ch_cfg c) < opt_max (watermark_slot c) slot"
  obtains c1 d1 c2 d2 wc where
    "place E now (slot div slots_per_chunk (ch_cfg c)) (c\<lparr>watermark_slot := Some (opt_max (watermark_slot c) slot)\<rparr>, d) = ((c1, d1), None)"
    "append_to E now msg slot (slot div slots_per_chunk (ch_cfg c)) (c1, d1) = ((c2, d2), None)"
    "seal_all E now ''watermark'' (behind_watermark wc c2) (c2, d2) = ((c', d'), None)"
  using assms by (auto simp: ingest_def Let_def split: prod.splits option.splits)

section \<open>Properties\<close>

text \<open>A configuration, an environment without failures and messages for the witnesses.\<close>

definition example_writer :: writer_config where
  "example_writer = \<lparr>slots_per_chunk = 10, out_of_order_tolerance_slots = 5, max_open_chunks = 2, channel_capacity = 1\<rparr>"

definition example_env :: "u32 list writer_env" where
  "example_env = \<lparr>env_roaring = list_roaring, env_rmp = (\<lambda>_. Some [1]), env_json = (\<lambda>_. Some [2]),
     env_encode = (\<lambda>_. [3]), env_zstd = rev, io_fails = (\<lambda>_. False)\<rparr>"

definition example_msg :: "u64 \<Rightarrow> stamped" where
  "example_msg s = \<lparr>wall_ns = 100 + s, inner = \<lparr>filters = [], created_at = None, update_oneof =
     Some (UBlockMeta \<lparr>block_slot = s, parent_slot = s - 1, blockhash = []\<rparr>)\<rparr>\<rparr>"

lemma chunker_inv_new [simp]: "chunker_inv E (chunker_new st cfg)"
  by (simp add: chunker_inv_def chunker_new_def)

text \<open>Every call of \<open>ingest\<close>, successful or not, keeps the invariant of the open chunks (the
  index, the encoder's input, the counters and the slot and time bounds of a chunk are those of
  the messages appended to it, all of its slot range), records the highest slot seen, and never
  leaves more chunks open than configured.\<close>

theorem ingest_keeps_invariant:
  assumes "chunker_inv E c" and "ingest E now msg slot (c, d) = ((c', d'), r)"
  shows "chunker_inv E c' \<and> ch_cfg c' = ch_cfg c \<and>
    watermark_slot c' = Some (opt_max (watermark_slot c) slot) \<and>
    (length (open_chunks c) \<le> max_open_chunks (ch_cfg c) \<longrightarrow> length (open_chunks c') \<le> max_open_chunks (ch_cfg c))"
  using ingest_inv [OF assms] by blast

lemma ingest_keeps_invariant_witness:
  "\<exists>c'. fst (fst (ingest example_env 7 (example_msg 42) 42 (chunker_new Block example_writer, []))) = c' \<and>
     chunker_inv example_env c' \<and> watermark_slot c' = Some 42 \<and> length (open_chunks c') \<le> 2"
proof -
  obtain c' d' r where i: "ingest example_env 7 (example_msg 42) 42 (chunker_new Block example_writer, []) = ((c', d'), r)"
    by (metis surj_pair)
  from ingest_keeps_invariant [OF chunker_inv_new i] i show ?thesis
    by (simp add: chunker_new_def opt_max_def example_writer_def)
qed

text \<open>C25: A message within the tolerance that is ingested without an error goes to the end of the
  chunk of its slot and nowhere else: the chunk, if it is still open afterwards, holds what it
  held before (nothing if it was not open) followed by the message, and every other chunk that
  is still open is untouched.\<close>

theorem ingest_appends_message:
  assumes inv: "chunker_inv E c" and spc: "slots_per_chunk (ch_cfg c) \<noteq> 0"
    and recent: "\<not> slot + out_of_order_tolerance_slots (ch_cfg c) < opt_max (watermark_slot c) slot"
    and i: "ingest E now msg slot (c, d) = ((c', d'), None)" and j: "map_of (open_chunks c') j = Some oc'"
  shows "if j = slot div slots_per_chunk (ch_cfg c)
    then \<exists>ms. oc_holds E (ch_stream c) oc' (ms @ [(msg, slot)]) \<and>
      (case map_of (open_chunks c) j of None \<Rightarrow> ms = [] | Some oc \<Rightarrow> oc_holds E (ch_stream c) oc ms)
    else map_of (open_chunks c) j = Some oc'"
proof -
  let ?c = "c\<lparr>watermark_slot := Some (opt_max (watermark_slot c) slot)\<rparr>"
  let ?i = "slot div slots_per_chunk (ch_cfg c)"
  obtain c1 d1 c2 d2 wc where p: "place E now ?i (?c, d) = ((c1, d1), None)"
    and a: "append_to E now msg slot ?i (c1, d1) = ((c2, d2), None)"
    and s: "seal_all E now ''watermark'' (behind_watermark wc c2) (c2, d2) = ((c', d'), None)"
    using ingest_split [OF i spc recent] by metis
  have st: "ch_stream c1 = ch_stream c"
    using place_inv [OF _ p] inv by (simp add: chunker_inv_watermark same_chunker_def)
  from seal_all_others [OF s j] have j2: "map_of (open_chunks c2) j = Some oc'" .
  show ?thesis
  proof (cases "j = ?i")
    case False
    with append_to_chunk(1) [OF a] j2 have "map_of (open_chunks c1) j = Some oc'" by metis
    with place_others [OF p this] False show ?thesis by simp
  next
    case True
    from append_to_chunk(2) [OF a refl, of oc'] j2 True obtain oc where
      oc: "map_of (open_chunks c1) j = Some oc" "append_msg E now msg slot oc = Inr oc'" by auto
    from place_others [OF p oc(1)] consider "map_of (open_chunks c) j = Some oc"
      | "map_of (open_chunks c) j = None" "oc_holds E (ch_stream c) oc []" using st by auto
    then show ?thesis
    proof cases
      case 1
      with inv obtain ms where ms: "oc_holds E (ch_stream c) oc ms"
        by (auto simp: chunker_inv_def chunk_ok_def Let_def dest!: map_of_SomeD)
      from append_msg_holds(1) [OF ms oc(2)] ms 1 True show ?thesis by auto
    next
      case 2
      from append_msg_holds(1) [OF 2(2) oc(2)] 2(1) True show ?thesis by auto
    qed
  qed
qed

lemma ingest_appends_message_witness:
  "\<exists>c' d' oc'. ingest example_env 7 (example_msg 42) 42 (chunker_new Block example_writer, []) = ((c', d'), None) \<and>
     map_of (open_chunks c') 4 = Some oc' \<and> oc_holds example_env Block oc' [(example_msg 42, 42)]"
proof -
  let ?c = "chunker_new Block example_writer :: u32 list chunker"
  obtain c' d' where i: "ingest example_env 7 (example_msg 42) 42 (?c, []) = ((c', d'), None)"
    and o: "map_of (open_chunks c') 4 \<noteq> None"
    by (simp add: ingest_def chunker_new_def example_writer_def place_def make_room.simps open_chunk_def
        exists_in_def example_env_def append_to_def append_msg_def Let_def behind_watermark_def opt_max_def
        SEAL_LOOKAHEAD_CHUNKS_def)
  then obtain oc' where oc': "map_of (open_chunks c') 4 = Some oc'" by blast
  have "slots_per_chunk (ch_cfg ?c) \<noteq> 0"
    and "\<not> (42 :: u64) + out_of_order_tolerance_slots (ch_cfg ?c) < opt_max (watermark_slot ?c) 42"
    by (simp_all add: chunker_new_def example_writer_def opt_max_def)
  from ingest_appends_message [OF chunker_inv_new this i oc'] i oc' show ?thesis
    by (simp add: chunker_new_def example_writer_def)
qed

text \<open>After a message within the tolerance was ingested without an error, no chunk that lies two
  or more chunks behind the watermark is open: it has been sealed.\<close>

theorem no_open_chunk_far_behind:
  assumes "chunker_inv E c" and "slots_per_chunk (ch_cfg c) \<noteq> 0"
    and "\<not> slot + out_of_order_tolerance_slots (ch_cfg c) < opt_max (watermark_slot c) slot"
    and "ingest E now msg slot (c, d) = ((c', d'), None)" and "idx \<in> fst ` set (open_chunks c')"
  shows "opt_max (watermark_slot c) slot div slots_per_chunk (ch_cfg c) < idx + SEAL_LOOKAHEAD_CHUNKS"
  using assms by (rule ingest_lookahead)

lemma no_open_chunk_far_behind_witness:
  "\<exists>c' d'. ingest example_env 7 (example_msg 42) 42 (chunker_new Block example_writer, []) = ((c', d'), None) \<and>
     4 \<in> fst ` set (open_chunks c') \<and> (4 :: u64) < 4 + SEAL_LOOKAHEAD_CHUNKS"
proof -
  let ?c = "chunker_new Block example_writer :: u32 list chunker"
  obtain c' d' where i: "ingest example_env 7 (example_msg 42) 42 (?c, []) = ((c', d'), None)"
    and o: "4 \<in> fst ` set (open_chunks c')"
    by (simp add: ingest_def chunker_new_def example_writer_def place_def make_room.simps open_chunk_def
        exists_in_def example_env_def append_to_def append_msg_def Let_def behind_watermark_def opt_max_def
        SEAL_LOOKAHEAD_CHUNKS_def)
  have "slots_per_chunk (ch_cfg ?c) \<noteq> 0"
    and "\<not> (42 :: u64) + out_of_order_tolerance_slots (ch_cfg ?c) < opt_max (watermark_slot ?c) 42"
    by (simp_all add: chunker_new_def example_writer_def opt_max_def)
  from no_open_chunk_far_behind [OF chunker_inv_new this i o] i o show ?thesis
    by (auto simp: chunker_new_def example_writer_def opt_max_def)
qed

text \<open>C8: Sealing is crash safe. Wherever the sequence of file operations that seals an open chunk is
  cut off, by a failure of an operation or by a crash after any number of them, a directory that
  was complete stays complete: the metadata file, which makes a chunk visible to every reader of
  the directory, never appears without its data and index beside it.\<close>

theorem seal_is_crash_safe:
  assumes "chunker_inv E c" and "map_of (open_chunks c) idx = Some oc" and "dir_complete d"
    and "seal_ops E (ch_stream c) reason oc = (ops, e)"
  shows "dir_complete (fst (run_ops fails now (take n ops) d))"
proof -
  have "oc_named oc"
    using assms(1) map_of_SomeD [OF assms(2)] by (auto simp: chunker_inv_def chunk_ok_def Let_def)
  from seal_crash_safe [OF assms(3) this assms(4)] show ?thesis .
qed

text \<open>An open chunk for the witnesses.\<close>

definition example_open :: "u32 list chunker" where
  "example_open = (chunker_new Block example_writer)\<lparr>open_chunks := [(4, open_chunk_of Block 7 40 50)]\<rparr>"

lemma example_open_inv: "chunker_inv example_env example_open"
  using open_chunk_of_ok [of example_env example_open 4 7]
  by (simp add: chunker_inv_def example_open_def chunker_new_def example_writer_def)

lemma seal_is_crash_safe_witness:
  "dir_complete (fst (run_ops (\<lambda>_. False) 9 (take 6 (fst (seal_ops example_env Block ''shutdown'' (open_chunk_of Block 7 40 50))))
     [(chunk_file 40 50 ''zst.partial'', \<lparr>content = [], mtime = 7\<rparr>)]))"
proof -
  obtain ops e where o: "seal_ops example_env (ch_stream example_open) ''shutdown'' (open_chunk_of Block 7 40 50) = (ops, e)" by fastforce
  have m: "map_of (open_chunks example_open) 4 = Some (open_chunk_of Block 7 40 50)" "ch_stream example_open = Block"
    by (simp_all add: example_open_def chunker_new_def)
  have d: "dir_complete [(chunk_file 40 50 ''zst.partial'', \<lparr>content = [], mtime = 7\<rparr>)]"
    by (auto simp: dir_complete_def exists_in_def)
  from seal_is_crash_safe [OF example_open_inv m(1) d o] o show ?thesis by (simp add: m(2))
qed



end
