(* ===== verification/Lane.thy ===== *)
theory Lane
  imports Chunker
begin

text \<open>
  The lane of a stream (\<open>sillage-writer/src/lane.rs\<close>): the consumer task around a chunker as a
  run over its wake-ups, the producer loop, and what a whole run keeps.
\<close>

section \<open>The lane\<close>

text \<open>What the lane logs once, for the first message with a slot.\<close>

datatype first_slot_log = BeganAtTip u64 | GapDetected u64 u64 u64 | ResumeVerified u64 u64 u64

definition GAP_WARN_THRESHOLD_SLOTS :: u64 where
  "GAP_WARN_THRESHOLD_SLOTS = 50"

definition saturating_sub :: "u64 \<Rightarrow> u64 \<Rightarrow> u64" where
  "saturating_sub a b = (if b \<le> a then a - b else 0)"

definition log_first_slot :: "u64 option \<Rightarrow> u64 \<Rightarrow> first_slot_log" where
  "log_first_slot from_slot first_slot =
     (case from_slot of
        None \<Rightarrow> BeganAtTip first_slot
      | Some resume \<Rightarrow>
          let gap = saturating_sub first_slot resume
          in if gap > GAP_WARN_THRESHOLD_SLOTS then GapDetected resume first_slot gap
             else ResumeVerified resume first_slot gap)"

text \<open>
  The consumer task: the wake-ups of its \<open>select!\<close> loop in the order they happen, each with
  the time it happens at. The end of the list is the closed channel.
\<close>

datatype lane_event = Heartbeat | TickEvent nat | Received nat stamped

record 'bm consumer =
  lane_count :: u64
  first_slot_seen :: bool
  lane_log :: "first_slot_log list"
  lane_state :: "'bm chunker_state"

definition receive :: "'bm writer_env \<Rightarrow> u64 option \<Rightarrow> nat \<Rightarrow> stamped \<Rightarrow> 'bm consumer
    \<Rightarrow> 'bm consumer \<times> chunker_error option" where
  "receive E from_slot now msg k =
     (case extract_slot (inner msg) of
        None \<Rightarrow> (k, None)
      | Some slot \<Rightarrow>
          let k = (if first_slot_seen k then k
                   else k\<lparr>first_slot_seen := True, lane_log := lane_log k @ [log_first_slot from_slot slot]\<rparr>)
          in (case ingest E now msg slot (lane_state k) of
                (st', Some e) \<Rightarrow> (k\<lparr>lane_state := st'\<rparr>, Some e)
              | (st', None) \<Rightarrow> (k\<lparr>lane_state := st', lane_count := lane_count k + 1\<rparr>, None)))"

fun consume :: "'bm writer_env \<Rightarrow> u64 option \<Rightarrow> nat \<Rightarrow> lane_event list \<Rightarrow> 'bm consumer
    \<Rightarrow> 'bm consumer \<times> chunker_error option" where
  "consume E from_slot closed_at [] k =
     (case chunker_shutdown E closed_at (lane_state k) of (st', r) \<Rightarrow> (k\<lparr>lane_state := st'\<rparr>, r))"
| "consume E from_slot closed_at (Heartbeat # evs) k = consume E from_slot closed_at evs k"
| "consume E from_slot closed_at (TickEvent now # evs) k =
     (case chunker_tick E now (lane_state k) of
        (st', Some e) \<Rightarrow> (k\<lparr>lane_state := st'\<rparr>, Some e)
      | (st', None) \<Rightarrow> consume E from_slot closed_at evs (k\<lparr>lane_state := st'\<rparr>))"
| "consume E from_slot closed_at (Received now msg # evs) k =
     (case receive E from_slot now msg k of
        (k', Some e) \<Rightarrow> (k', Some e)
      | (k', None) \<Rightarrow> consume E from_slot closed_at evs k')"

definition consumer_new :: "stream \<Rightarrow> writer_config \<Rightarrow> dir \<Rightarrow> 'bm consumer" where
  "consumer_new st cfg d =
     \<lparr>lane_count = 0, first_slot_seen = False, lane_log = [], lane_state = (chunker_new st cfg, d)\<rparr>"

text \<open>The producer side: the stream's items are sent until it ends, fails or is cancelled.\<close>

datatype source_event = Item stamped | SourceError | SourceEnd | Cancelled

fun forward :: "source_event list \<Rightarrow> stamped list \<times> bool" where
  "forward (Item m # evs) = (case forward evs of (ms, ok) \<Rightarrow> (m # ms, ok))"
| "forward (SourceError # evs) = ([], False)"
| "forward _ = ([], True)"

section \<open>What a run keeps\<close>

definition lane_ok :: "'bm writer_env \<Rightarrow> 'bm consumer \<Rightarrow> bool" where
  "lane_ok E k \<longleftrightarrow> chunker_inv E (fst (lane_state k)) \<and> dir_complete (snd (lane_state k)) \<and>
     length (open_chunks (fst (lane_state k))) \<le> max_open_chunks (ch_cfg (fst (lane_state k)))"

lemma seal_all_ok:
  assumes "lane_ok E k" and "seal_all E now reason idxs (lane_state k) = (st', r)"
  shows "lane_ok E (k\<lparr>lane_state := st'\<rparr>)"
proof -
  obtain c d c' d' where st: "lane_state k = (c, d)" "st' = (c', d')" by (metis surj_pair)
  with assms have c: "chunker_inv E c" "dir_complete d" and s: "seal_all E now reason idxs (c, d) = ((c', d'), r)"
    and len: "length (open_chunks c) \<le> max_open_chunks (ch_cfg c)" by (auto simp: lane_ok_def)
  note s1 = seal_all_inv [OF c(1) s]
  have "length (open_chunks c') \<le> length (open_chunks c)"
    using s1 c(1) by (intro length_keys_le image_mono) (auto simp: chunker_inv_def bt_ok_distinct)
  with s1 seal_all_complete [OF c s] len show ?thesis by (simp add: lane_ok_def st same_chunker_def)
qed

lemma receive_ok:
  assumes ok: "lane_ok E k" and r: "receive E from_slot now msg k = (k', r)"
  shows "lane_ok E k'"
proof (cases "extract_slot (inner msg)")
  case None
  with assms show ?thesis by (simp add: receive_def)
next
  case (Some slot)
  obtain c d c' d' e where st: "lane_state k = (c, d)" "ingest E now msg slot (c, d) = ((c', d'), e)" by (metis surj_pair)
  have "lane_state k' = (c', d')"
    using r Some st by (auto simp: receive_def Let_def split: option.splits if_splits)
  moreover have "chunker_inv E c" "dir_complete d" "length (open_chunks c) \<le> max_open_chunks (ch_cfg c)"
    using ok st by (simp_all add: lane_ok_def)
  ultimately show ?thesis
    using ingest_inv [OF _ st(2)] ingest_complete [OF _ _ st(2)] by (simp add: lane_ok_def)
qed

lemma consume_ok: "lane_ok E k \<Longrightarrow> consume E from_slot closed_at evs k = (k', r) \<Longrightarrow> lane_ok E k'"
proof (induction E from_slot closed_at evs k rule: consume.induct)
  case (1 E from_slot closed_at k)
  obtain st' e where "chunker_shutdown E closed_at (lane_state k) = (st', e)" by fastforce
  with "1.prems" seal_all_ok [OF "1.prems"(1), of closed_at _ _ st' e] show ?case
    by (simp add: chunker_shutdown_def)
next
  case (3 E from_slot closed_at now evs k)
  obtain st' e where t: "chunker_tick E now (lane_state k) = (st', e)" by fastforce
  then have "lane_ok E (k\<lparr>lane_state := st'\<rparr>)"
    using "3.prems"(1) by (auto simp: chunker_tick_def Let_def intro: seal_all_ok)
  with 3 t show ?case by (cases e) auto
next
  case (4 E from_slot closed_at now msg evs k)
  obtain k1 e where t: "receive E from_slot now msg k = (k1, e)" by fastforce
  from receive_ok [OF "4.prems"(1) this] 4 t show ?case by (cases e) auto
qed simp

section \<open>Properties\<close>

text \<open>C27: A lane that starts in a complete directory keeps it complete through any sequence of
  wake-ups, messages and ticks, to the end of the run or to the error it stops with: no chunk
  has its metadata file without its data and its index. The open chunks keep their invariant
  and their bound.\<close>

theorem lane_run_safe:
  assumes "dir_complete d" and "consume E from_slot closed_at evs (consumer_new st cfg d) = (k, r)"
  shows "dir_complete (snd (lane_state k)) \<and> chunker_inv E (fst (lane_state k)) \<and>
    length (open_chunks (fst (lane_state k))) \<le> max_open_chunks (ch_cfg (fst (lane_state k)))"
proof -
  have "lane_ok E (consumer_new st cfg d)"
    using assms(1) by (simp add: lane_ok_def consumer_new_def) (simp add: chunker_new_def)
  from consume_ok [OF this assms(2)] show ?thesis by (simp add: lane_ok_def)
qed

lemma lane_run_safe_witness:
  "\<exists>k r. consume example_env None 9 [Received 7 (example_msg 42), TickEvent 8, Received 9 (example_msg 43)]
      (consumer_new Block example_writer []) = (k, r) \<and> dir_complete (snd (lane_state k)) \<and>
     chunker_inv example_env (fst (lane_state k))"
proof -
  obtain k r where k: "consume example_env None 9 [Received 7 (example_msg 42), TickEvent 8, Received 9 (example_msg 43)]
      (consumer_new Block example_writer []) = (k, r)" by fastforce
  have "dir_complete []" by (simp add: dir_complete_def exists_in_def)
  from lane_run_safe [OF this k] k show ?thesis by blast
qed

end
