(* ===== verification/Retry.thy ===== *)
theory Retry
  imports Config
begin

text \<open>
  The retry loop with exponential backoff that the uploader (\<open>put_with_retry\<close>) and the syncer
  (\<open>get_with_retry\<close>) write out separately: the same loop around a different attempt. The
  result carries the delays slept, in milliseconds.
\<close>

datatype 'e retry_error = GaveUp 'e | NoRetryAttempts

text \<open>
  \<open>initial * 2_u64.pow(n)\<close>, both wrapping. The subtraction \<open>retry_attempts - 1\<close> is evaluated
  only inside the loop, where it does not wrap.
\<close>

definition backoff :: "u64 \<Rightarrow> nat \<Rightarrow> u64" where
  "backoff initial n = initial * 2 ^ n"

function retry :: "('s \<Rightarrow> ('e + 'a) \<times> 's) \<Rightarrow> u64 \<Rightarrow> nat \<Rightarrow> nat \<Rightarrow> 's \<Rightarrow> ('e retry_error + 'a) \<times> 's \<times> u64 list" where
  "retry attempt initial attempts n s =
     (if n < attempts
      then (case attempt s of
              (Inr v, s') \<Rightarrow> (Inr v, s', [])
            | (Inl e, s') \<Rightarrow>
                if n < attempts - 1
                then (case retry attempt initial attempts (Suc n) s' of
                        (r, s'', delays) \<Rightarrow> (r, s'', backoff initial n # delays))
                else (Inl (GaveUp e), s', []))
      else (Inl NoRetryAttempts, s, []))"
  by pat_completeness auto
termination by (relation "measure (\<lambda>(attempt, initial, attempts, n, s). attempts - n)") auto

declare retry.simps [simp del]

lemma retry_step:
  "n < attempts \<Longrightarrow> attempt s = (Inr v, s') \<Longrightarrow> retry attempt initial attempts n s = (Inr v, s', [])"
  "n < attempts \<Longrightarrow> attempt s = (Inl e, s') \<Longrightarrow> Suc n < attempts \<Longrightarrow>
   retry attempt initial attempts n s =
     (case retry attempt initial attempts (Suc n) s' of (r, s'', ds) \<Rightarrow> (r, s'', backoff initial n # ds))"
  "attempt s = (Inl e, s') \<Longrightarrow> attempts = Suc n \<Longrightarrow>
   retry attempt initial attempts n s = (Inl (GaveUp e), s', [])"
  "attempts \<le> n \<Longrightarrow> retry attempt initial attempts n s = (Inl NoRetryAttempts, s, [])"
  by (subst retry.simps; auto)+

text \<open>
  What every attempt keeps the loop keeps, a success is the success of its last attempt, and
  the delays are the powers of two times the initial delay, one fewer than the attempts made.
\<close>

lemma retry_spec:
  assumes "retry attempt initial attempts n s = (r, s', ds)" and "I s"
    and keeps: "\<forall>s0 r0 s1. I s0 \<longrightarrow> attempt s0 = (r0, s1) \<longrightarrow> I s1"
  shows "I s' \<and> (\<forall>v. r = Inr v \<longrightarrow> (\<exists>s0. I s0 \<and> attempt s0 = (Inr v, s'))) \<and>
    ds = map (backoff initial) [n..<n + length ds] \<and> (n < attempts \<longrightarrow> n + length ds < attempts) \<and>
    (r = Inl NoRetryAttempts \<longleftrightarrow> attempts \<le> n)"
  using assms(1,2)
proof (induction "attempts - n" arbitrary: n s ds)
  case 0
  then show ?case by (auto simp: retry_step)
next
  case (Suc k)
  then have n: "n < attempts" by simp
  obtain r0 s1 where a: "attempt s = (r0, s1)" by fastforce
  have I1: "I s1" using keeps Suc.prems(2) a by blast
  show ?case
  proof (cases r0)
    case (Inr v)
    with Suc.prems a n I1 show ?thesis by (auto simp: retry_step)
  next
    case e: (Inl e)
    show ?thesis
    proof (cases "Suc n < attempts")
      case False
      with n have "attempts = Suc n" by simp
      with Suc.prems a e I1 show ?thesis by (auto simp: retry_step)
    next
      case True
      obtain r' s'' ds' where rec: "retry attempt initial attempts (Suc n) s1 = (r', s'', ds')"
        by (metis surj_pair)
      with True Suc.prems a e n have eq: "r' = r" "s'' = s'" "ds = backoff initial n # ds'"
        by (simp_all add: retry_step)
      have "k = attempts - Suc n" using Suc.hyps(2) by simp
      note IH = Suc.hyps(1) [OF this rec [unfolded eq] I1]
      have "[n..<n + length ds] = n # [Suc n..<Suc n + length ds']"
        by (simp add: eq(3) upt_conv_Cons del: upt_Suc)
      with IH True show ?thesis by (simp add: eq del: upt_Suc)
    qed
  qed
qed

text \<open>When every attempt fails, all of them were made.\<close>

lemma retry_all_fail:
  "n < attempts \<Longrightarrow> (\<And>s. \<exists>s'. attempt s = (Inl e, s')) \<Longrightarrow>
   \<exists>s'. retry attempt initial attempts n s = (Inl (GaveUp e), s', map (backoff initial) [n..<attempts - 1])"
proof (induction "attempts - n" arbitrary: n s)
  case (Suc k)
  obtain s1 where a: "attempt s = (Inl e, s1)" using Suc.prems(2) by blast
  show ?case
  proof (cases "Suc n < attempts")
    case False
    with Suc.prems(1) have "attempts = Suc n" by simp
    with a show ?thesis by (simp add: retry_step)
  next
    case True
    have "k = attempts - Suc n" using Suc.hyps(2) by simp
    from Suc.hyps(1) [OF this True Suc.prems(2)] obtain s2 where
      "retry attempt initial attempts (Suc n) s1 = (Inl (GaveUp e), s2, map (backoff initial) [Suc n..<attempts - 1])"
      by blast
    with a True Suc.prems(1) show ?thesis by (simp add: retry_step upt_conv_Cons)
  qed
qed simp

end
