(* ===== verification/Bucket.thy ===== *)
theory Bucket
  imports Config Names FileOps "HOL-Library.Product_Lexorder" "HOL-Library.List_Lexorder" "HOL-Library.Char_ord"
begin

text \<open>
  The bucket as the two clients use it (\<open>r2.rs\<close> of the writer and of the reader): the check
  of the credentials, and the listing that groups object keys into chunks.

  The S3 client is not part of the repository. Its \<open>put_object\<close> and \<open>get_object\<close> are the
  parameters \<open>put\<close> and \<open>get\<close> on an unknown state \<open>'s\<close>; \<open>obj\<close> reads the object under a key.
  The predicates state the documented behaviour: a successful \<open>put\<close> stores the body, a failed
  one stored it or not, no other object changes; \<open>get\<close> returns the stored object and changes
  none. \<open>list_page\<close> is one answer of \<open>list_objects_v2\<close>.
\<close>

section \<open>Credentials\<close>

definition r2_client_new :: "r2_config \<Rightarrow> r2_config option" where
  "r2_client_new cfg =
     (if r2_bucket cfg = [] \<or> access_key_id cfg = [] \<or> secret_access_key cfg = [] then None
      else Some cfg)"

section \<open>Objects\<close>

type_synonym 's put_object = "string \<Rightarrow> bytes \<Rightarrow> 's \<Rightarrow> bool \<times> 's"
type_synonym 's get_object = "string \<Rightarrow> 's \<Rightarrow> bytes option \<times> 's"
type_synonym 's objects = "'s \<Rightarrow> string \<Rightarrow> bytes option"

definition put_laws :: "'s put_object \<Rightarrow> 's objects \<Rightarrow> bool" where
  "put_laws put obj \<longleftrightarrow>
     (\<forall>k b s r s'. put k b s = (r, s') \<longrightarrow>
        (r \<longrightarrow> obj s' k = Some b) \<and> (obj s' k = obj s k \<or> obj s' k = Some b) \<and>
        (\<forall>k'. k' \<noteq> k \<longrightarrow> obj s' k' = obj s k'))"

definition get_laws :: "'s get_object \<Rightarrow> 's objects \<Rightarrow> bool" where
  "get_laws get obj \<longleftrightarrow>
     (\<forall>k s r s'. get k s = (r, s') \<longrightarrow> obj s' = obj s \<and> (\<forall>b. r = Some b \<longrightarrow> obj s k = Some b))"

lemma put_lawsD:
  assumes "put_laws put obj" and "put k b s = (r, s')"
  shows "r \<Longrightarrow> obj s' k = Some b" "obj s' k = obj s k \<or> obj s' k = Some b"
    "k' \<noteq> k \<Longrightarrow> obj s' k' = obj s k'"
  using assms by (simp_all add: put_laws_def)

lemma get_lawsD:
  assumes "get_laws get obj" and "get k s = (r, s')"
  shows "obj s' = obj s" "r = Some b \<Longrightarrow> obj s k = Some b"
  using assms by (simp_all add: get_laws_def)

text \<open>
  A bucket for witnesses: an association list, with the outcomes of the coming puts
  (\<open>None\<close>: the body is stored but the answer is lost).
\<close>

type_synonym list_bucket = "(string \<times> bytes) list \<times> bool option list"

fun list_put :: "list_bucket put_object" where
  "list_put k b (objs, []) = (True, (AList.update k b objs, []))"
| "list_put k b (objs, Some ok # net) =
     (if ok then (True, (AList.update k b objs, net)) else (False, (objs, net)))"
| "list_put k b (objs, None # net) = (False, (AList.update k b objs, net))"

fun list_get :: "list_bucket get_object" where
  "list_get k (objs, []) = (map_of objs k, (objs, []))"
| "list_get k (objs, Some True # net) = (map_of objs k, (objs, net))"
| "list_get k (objs, _ # net) = (None, (objs, net))"

definition list_obj :: "list_bucket objects" where
  "list_obj s = map_of (fst s)"

lemma list_put_laws: "put_laws list_put list_obj"
  unfolding put_laws_def
proof (intro allI impI)
  fix k b s r s' assume "list_put k b s = (r, s')"
  then show "(r \<longrightarrow> list_obj s' k = Some b) \<and> (list_obj s' k = list_obj s k \<or> list_obj s' k = Some b) \<and>
      (\<forall>k'. k' \<noteq> k \<longrightarrow> list_obj s' k' = list_obj s k')"
    by (cases "(k, b, s)" rule: list_put.cases) (auto simp: list_obj_def update_conv' split: if_splits)
qed

lemma list_get_laws: "get_laws list_get list_obj"
  unfolding get_laws_def
proof (intro allI impI)
  fix k s r s' assume "list_get k s = (r, s')"
  then show "list_obj s' = list_obj s \<and> (\<forall>b. r = Some b \<longrightarrow> list_obj s k = Some b)"
    by (cases "(k, s)" rule: list_get.cases) (auto simp: list_obj_def)
qed

section \<open>Listing\<close>

record list_page =
  page_keys :: "string option list" \<comment> \<open>\<open>contents\<close>, each with its optional key\<close>
  is_truncated :: "bool option"
  next_token :: "string option"

definition page_contents :: "list_page \<Rightarrow> string list" where
  "page_contents resp = List.map_filter id (page_keys resp)"

datatype list_error = ListFailed

text \<open>
  The pagination loop: it ends when a page is not truncated, which the server decides, so the
  loop is partial. \<open>page\<close> answers a request, \<open>None\<close> is a failed one.
\<close>

partial_function (option) collect_keys :: "(string option \<Rightarrow> list_page option) \<Rightarrow> string option \<Rightarrow> string list
    \<Rightarrow> (list_error + string list) option" where
  "collect_keys page token keys =
     (case page token of
        None \<Rightarrow> Some (Inl ListFailed)
      | Some resp \<Rightarrow>
          if (case is_truncated resp of Some t \<Rightarrow> t | None \<Rightarrow> False)
          then collect_keys page (next_token resp) (keys @ page_contents resp)
          else Some (Inr (keys @ page_contents resp)))"

text \<open>One key: the stream, the two slots and the extension, or a \<open>continue\<close>.\<close>

definition parse_key :: "string \<Rightarrow> ((string \<times> u64 \<times> u64) \<times> string) option" where
  "parse_key key =
     do {
       stripped \<leftarrow> strip_prefix ''chunks/'' key;
       (stream_str, filename) \<leftarrow> split_once (CHR ''/'') stripped;
       (stem, ext) \<leftarrow> rsplit_once (CHR ''.'') filename;
       let (stem, ext) =
         (if ext = ''json'' \<and> ends_with ''.meta'' stem
          then ((case strip_suffix ''.meta'' stem of Some s \<Rightarrow> s | None \<Rightarrow> stem), ''meta.json'')
          else (stem, ext));
       (start_str, end_str) \<leftarrow> split_once (CHR ''-'') stem;
       s \<leftarrow> parse_u64 start_str;
       e \<leftarrow> parse_u64 end_str;
       Some ((stream_str, s, e), ext)
     }"

type_synonym key_groups = "((string \<times> u64 \<times> u64) \<times> string list) list"

definition group_key :: "key_groups \<Rightarrow> string \<Rightarrow> key_groups" where
  "group_key groups key =
     (case parse_key key of
        None \<Rightarrow> groups
      | Some (k, ext) \<Rightarrow>
          bt_insert k ((case map_of groups k of None \<Rightarrow> [] | Some exts \<Rightarrow> exts) @ [ext]) groups)"

record r2_chunk =
  rc_stream :: stream
  rc_start_slot :: u64
  rc_end_slot :: u64
  key_prefix :: string

definition group_chunk :: "(string \<times> u64 \<times> u64) \<times> string list \<Rightarrow> r2_chunk option" where
  "group_chunk g =
     (case g of ((stream_str, s, e), exts) \<Rightarrow>
        (case find (\<lambda>st. as_str st = stream_str) all_streams of
           None \<Rightarrow> None
         | Some st \<Rightarrow>
             if ''zst'' \<in> set exts \<and> ''idx'' \<in> set exts \<and> ''meta.json'' \<in> set exts
             then Some \<lparr>rc_stream = st, rc_start_slot = s, rc_end_slot = e,
                        key_prefix = ''chunks/'' @ stream_str @ ''/'' @ stem s e\<rparr>
             else None))"

definition group_keys :: "string list \<Rightarrow> r2_chunk list" where
  "group_keys keys = List.map_filter group_chunk (foldl group_key [] keys)"

definition list_chunks :: "(string option \<Rightarrow> list_page option) \<Rightarrow> (list_error + r2_chunk list) option" where
  "list_chunks page =
     (case collect_keys page None [] of
        None \<Rightarrow> None
      | Some (Inl e) \<Rightarrow> Some (Inl e)
      | Some (Inr keys) \<Rightarrow> Some (Inr (group_keys keys)))"

section \<open>The listing finds the complete chunks\<close>

lemma strip_prefix_chunks [simp]: "strip_prefix ''chunks/'' (''chunks/'' @ s) = Some s"
  by (rule strip_prefix_append)

lemma rsplit_chunk_file:
  "CHR ''.'' \<notin> set x \<Longrightarrow> rsplit_once (CHR ''.'') (chunk_file s e x) = Some (stem s e, x)"
  by (simp add: chunk_file_def)

lemma rsplit_meta: "rsplit_once (CHR ''.'') (chunk_file s e ''meta.json'') = Some (stem s e @ ''.meta'', ''json'')"
  using rsplit_once_append [of "CHR ''.''" "''json''" "stem s e @ ''.meta''"] by (simp add: chunk_file_def)

lemma parse_object_key:
  "x \<in> {''zst'', ''idx'', ''meta.json''} \<Longrightarrow> parse_key (object_key st s e x) = Some ((as_str st, s, e), x)"
proof -
  have sl: "split_once (CHR ''/'') (as_str st @ ''/'' @ f) = Some (as_str st, f)" for f
    using split_once_append [of "CHR ''/''" "as_str st" f] by simp
  have pre: "strip_prefix ''chunks/'' (object_key st s e x) = Some (as_str st @ ''/'' @ chunk_file s e x)" for x
    unfolding object_key_def by (rule strip_prefix_append)
  have suf: "strip_suffix ''.meta'' (stem s e @ ''.meta'') = Some (stem s e)" by (rule strip_suffix_append)
  assume "x \<in> {''zst'', ''idx'', ''meta.json''}"
  then show ?thesis
    by (elim insertE emptyE)
      (simp_all add: parse_key_def pre sl rsplit_chunk_file rsplit_meta suf ends_with_def)
qed

lemma group_key_map:
  "map_of (group_key groups key) k =
     (case parse_key key of
        Some (k', ext) \<Rightarrow> if k = k' then Some ((case map_of groups k of None \<Rightarrow> [] | Some xs \<Rightarrow> xs) @ [ext]) else map_of groups k
      | None \<Rightarrow> map_of groups k)"
  by (auto simp: group_key_def map_of_bt_insert split: option.splits)

lemma bt_ok_group: "bt_ok groups \<Longrightarrow> bt_ok (foldl group_key groups keys)"
  by (induction keys arbitrary: groups) (auto simp: group_key_def bt_ok_insert split: option.splits)

definition exts_of :: "string list \<Rightarrow> string \<times> u64 \<times> u64 \<Rightarrow> string list" where
  "exts_of keys k = map snd (filter (\<lambda>p. fst p = k) (List.map_filter parse_key keys))"

lemma group_keys_exts:
  "(case map_of (foldl group_key groups keys) k of None \<Rightarrow> [] | Some xs \<Rightarrow> xs) =
   (case map_of groups k of None \<Rightarrow> [] | Some xs \<Rightarrow> xs) @ exts_of keys k"
proof (induction keys arbitrary: groups)
  case (Cons key keys)
  then show ?case
    by (auto simp: exts_of_def List.map_filter_simps group_key_map split: option.splits)
qed (simp add: exts_of_def List.map_filter_simps)

lemma in_exts_of: "x \<in> set (exts_of keys k) \<longleftrightarrow> (\<exists>key \<in> set keys. parse_key key = Some (k, x))"
  by (auto simp: exts_of_def set_map_filter) force

lemma find_stream [simp]: "find (\<lambda>st'. st' = st) all_streams = Some st"
  by (cases st) (simp_all add: all_streams_def)

lemma find_stream_Some: "find (\<lambda>st. as_str st = str) all_streams = Some st \<longleftrightarrow> str = as_str st"
proof
  assume "find (\<lambda>st. as_str st = str) all_streams = Some st"
  then show "str = as_str st" by (auto simp: find_Some_iff)
qed simp

text \<open>
  A chunk is listed exactly when all three of its files are, whatever other keys there are,
  and in the order of stream name and slots.
\<close>

lemma set_group_keys:
  "c \<in> set (group_keys keys) \<longleftrightarrow>
   key_prefix c = ''chunks/'' @ as_str (rc_stream c) @ ''/'' @ stem (rc_start_slot c) (rc_end_slot c) \<and>
   (\<forall>x \<in> {''zst'', ''idx'', ''meta.json''}.
      \<exists>key \<in> set keys. parse_key key = Some ((as_str (rc_stream c), rc_start_slot c, rc_end_slot c), x))"
proof -
  let ?g = "foldl group_key [] keys"
  have dist: "distinct (map fst ?g)" using bt_ok_group [of "[]" keys] by (simp add: bt_ok_distinct)
  have exts: "(case map_of ?g k of None \<Rightarrow> [] | Some xs \<Rightarrow> xs) = exts_of keys k" for k
    by (simp add: group_keys_exts)
  have mem: "(k, xs) \<in> set ?g \<Longrightarrow> xs = exts_of keys k" for k xs
    using exts [of k] dist by simp
  have mem': "x \<in> set (exts_of keys k) \<Longrightarrow> (k, exts_of keys k) \<in> set ?g" for k x
    using exts [of k] by (auto split: option.splits dest: map_of_SomeD)
  have "c \<in> set (group_keys keys) \<longleftrightarrow> (\<exists>g \<in> set ?g. group_chunk g = Some c)"
    by (simp add: group_keys_def set_map_filter)
  also have "\<dots> \<longleftrightarrow> key_prefix c = ''chunks/'' @ as_str (rc_stream c) @ ''/'' @ stem (rc_start_slot c) (rc_end_slot c) \<and>
      (\<forall>x \<in> {''zst'', ''idx'', ''meta.json''}. x \<in> set (exts_of keys (as_str (rc_stream c), rc_start_slot c, rc_end_slot c)))"
    (is "?l = ?r")
  proof
    assume ?l
    then obtain str s e xs where g: "((str, s, e), xs) \<in> set ?g" "group_chunk ((str, s, e), xs) = Some c" by auto
    from g(2) have "str = as_str (rc_stream c)" "s = rc_start_slot c" "e = rc_end_slot c"
      "key_prefix c = ''chunks/'' @ str @ ''/'' @ stem s e" "''zst'' \<in> set xs" "''idx'' \<in> set xs" "''meta.json'' \<in> set xs"
      by (auto simp: group_chunk_def find_stream_Some split: option.splits if_splits)
    with mem [OF g(1)] show ?r by auto
  next
    assume r: ?r
    let ?k = "(as_str (rc_stream c), rc_start_slot c, rc_end_slot c)"
    from r mem' [of "''zst''" ?k] have "(?k, exts_of keys ?k) \<in> set ?g" by simp
    moreover from r have "group_chunk (?k, exts_of keys ?k) = Some c"
      by (simp add: group_chunk_def)
    ultimately show ?l by blast
  qed
  finally show ?thesis by (simp only: in_exts_of)
qed

lemma collect_keys_pages:
  assumes "\<And>i. i < n \<Longrightarrow> page (toks i) = Some (ps i) \<and> is_truncated (ps i) = Some True \<and> next_token (ps i) = toks (Suc i)"
    and "page (toks n) = Some last_page" and "is_truncated last_page \<noteq> Some True"
  shows "collect_keys page (toks 0) keys =
    Some (Inr (keys @ concat (map (\<lambda>i. page_contents (ps i)) [0..<n]) @
               page_contents last_page))"
  using assms
proof (induction n arbitrary: toks ps keys)
  case 0
  then show ?case by (subst collect_keys.simps) (auto split: option.splits)
next
  case (Suc n)
  have p0: "page (toks 0) = Some (ps 0)" "is_truncated (ps 0) = Some True" "next_token (ps 0) = toks (Suc 0)"
    using Suc.prems(1) [of 0] by auto
  from Suc.IH [of "\<lambda>i. toks (Suc i)" "\<lambda>i. ps (Suc i)"] Suc.prems
  have "collect_keys page (toks (Suc 0)) (keys @ page_contents (ps 0)) =
    Some (Inr ((keys @ page_contents (ps 0)) @
       concat (map (\<lambda>i. page_contents (ps (Suc i))) [0..<n]) @
               page_contents last_page))" by simp
  moreover have "map (\<lambda>i. page_contents (ps i)) [0..<Suc n] =
      page_contents (ps 0) # map (\<lambda>i. page_contents (ps (Suc i))) [0..<n]"
    by (simp add: map_upt_Suc del: upt_Suc)
  ultimately show ?case by (subst collect_keys.simps) (simp add: p0)
qed

section \<open>Properties\<close>

text \<open>C28: The listing is complete and exact over any number of pages. When the answers of the
  server are pages that continue one another and a last one, the result has exactly the chunks
  of which all three files occur among the keys of all pages, whatever other keys there are.\<close>

theorem listing_exact:
  assumes "\<forall>i < n. page (toks i) = Some (ps i) \<and> is_truncated (ps i) = Some True \<and> next_token (ps i) = toks (Suc i)"
    and "toks 0 = None" and "page (toks n) = Some last_page" and "is_truncated last_page \<noteq> Some True"
  shows "\<exists>cs. list_chunks page = Some (Inr cs) \<and>
    (\<forall>c. c \<in> set cs \<longleftrightarrow>
       key_prefix c = ''chunks/'' @ as_str (rc_stream c) @ ''/'' @ stem (rc_start_slot c) (rc_end_slot c) \<and>
       (\<forall>x \<in> {''zst'', ''idx'', ''meta.json''}.
          \<exists>key \<in> (\<Union>i < n. set (page_contents (ps i))) \<union> set (page_contents last_page).
            parse_key key = Some ((as_str (rc_stream c), rc_start_slot c, rc_end_slot c), x)))"
proof -
  let ?keys = "concat (map (\<lambda>i. page_contents (ps i)) [0..<n]) @ page_contents last_page"
  have "collect_keys page None [] = Some (Inr ?keys)"
    using collect_keys_pages [of n page toks ps last_page "[]"] assms by simp
  moreover have "set ?keys = (\<Union>i < n. set (page_contents (ps i))) \<union> set (page_contents last_page)"
    by (simp add: atLeast_upt)
  ultimately have lc: "list_chunks page = Some (Inr (group_keys ?keys))"
    and keys: "set ?keys = (\<Union>i < n. set (page_contents (ps i))) \<union> set (page_contents last_page)"
    by (simp_all add: list_chunks_def)
  show ?thesis
    by (intro exI [of _ "group_keys ?keys"] conjI allI) (rule lc, simp only: set_group_keys keys)
qed

lemma listing_exact_witness:
  "let page = (\<lambda>tok. if tok = None
       then Some \<lparr>page_keys = [Some (object_key Tx 1 2 ''zst''), Some (object_key Tx 1 2 ''idx''), None],
                  is_truncated = Some True, next_token = Some ''t''\<rparr>
       else Some \<lparr>page_keys = [Some ''other'', Some (object_key Tx 1 2 ''meta.json''), Some (object_key Tx 2 3 ''zst'')],
                  is_truncated = None, next_token = None\<rparr>)
   in \<exists>cs. list_chunks page = Some (Inr cs) \<and>
        \<lparr>rc_stream = Tx, rc_start_slot = 1, rc_end_slot = 2, key_prefix = ''chunks/tx/'' @ stem 1 2\<rparr> \<in> set cs"
proof -
  let ?p1 = "\<lparr>page_keys = [Some (object_key Tx 1 2 ''zst''), Some (object_key Tx 1 2 ''idx''), None],
                  is_truncated = Some True, next_token = Some ''t''\<rparr>"
  let ?p2 = "\<lparr>page_keys = [Some ''other'', Some (object_key Tx 1 2 ''meta.json''), Some (object_key Tx 2 3 ''zst'')],
                  is_truncated = None, next_token = None\<rparr>"
  let ?page = "\<lambda>tok. if tok = None then Some ?p1 else Some ?p2"
  let ?toks = "\<lambda>i :: nat. if i = 0 then None else Some ''t''"
  have "\<exists>cs. list_chunks ?page = Some (Inr cs) \<and>
    (\<forall>c. c \<in> set cs \<longleftrightarrow>
       key_prefix c = ''chunks/'' @ as_str (rc_stream c) @ ''/'' @ stem (rc_start_slot c) (rc_end_slot c) \<and>
       (\<forall>x \<in> {''zst'', ''idx'', ''meta.json''}.
          \<exists>key \<in> (\<Union>i < 1 :: nat. set (page_contents ?p1)) \<union> set (page_contents ?p2).
            parse_key key = Some ((as_str (rc_stream c), rc_start_slot c, rc_end_slot c), x)))"
    by (rule listing_exact [where toks = ?toks and n = 1 and ps = "\<lambda>_. ?p1"]) simp_all
  moreover have "(\<Union>i < 1 :: nat. A) = A" for A :: "string set" by auto
  ultimately obtain cs where cs: "list_chunks ?page = Some (Inr cs)"
    "\<lparr>rc_stream = Tx, rc_start_slot = 1, rc_end_slot = 2, key_prefix = ''chunks/tx/'' @ stem 1 2\<rparr> \<in> set cs"
    using parse_object_key [of "''zst''" Tx 1 2] parse_object_key [of "''idx''" Tx 1 2]
      parse_object_key [of "''meta.json''" Tx 1 2]
    by (auto simp: page_contents_def List.map_filter_simps)
  then show ?thesis by (simp only: Let_def) blast
qed

end
