(* ===== verification/Recovery.thy ===== *)
theory Recovery
  imports FileOps
begin

text \<open>
  The startup recovery of the writer (\<open>sillage-writer/src/recovery.rs\<close>) and the sweep of
  partial files it shares with the reader (\<open>sweep_partials\<close> of \<open>sillage-reader/src/sync.rs\<close>).
  A directory that cannot be read is one that does not exist here; the code turns it into an
  error in two of the three functions.
\<close>

section \<open>Paths\<close>

text \<open>
  \<open>Path::extension\<close> and \<open>Path::with_extension\<close> on a file name: the part after the last dot,
  unless the dot is the first character.
\<close>

definition extension :: "string \<Rightarrow> string option" where
  "extension name =
     (case rsplit_once (CHR ''.'') name of
        None \<Rightarrow> None | Some (a, b) \<Rightarrow> if a = [] then None else Some b)"

definition file_stem :: "string \<Rightarrow> string" where
  "file_stem name =
     (case rsplit_once (CHR ''.'') name of
        None \<Rightarrow> name | Some (a, b) \<Rightarrow> if a = [] then name else a)"

definition with_extension :: "string \<Rightarrow> string \<Rightarrow> string" where
  "with_extension name ext = file_stem name @ ''.'' @ ext"

lemma rsplit_once_None: "c \<notin> set s \<Longrightarrow> rsplit_once c s = None"
  using split_once_None [of c "rev s"] by (simp add: rsplit_once_def)

lemma with_extension_no_dot: "CHR ''.'' \<notin> set base \<Longrightarrow> with_extension base ext = base @ ''.'' @ ext"
  by (simp add: with_extension_def file_stem_def rsplit_once_None)

lemma with_extension_stem [simp]: "with_extension (stem s e) ext = chunk_file s e ext"
  by (simp add: with_extension_no_dot chunk_file_def)

lemma rsplit_once_SomeD: "rsplit_once c s = Some (a, b) \<Longrightarrow> s = a @ c # b \<and> c \<notin> set b"
  by (auto simp: rsplit_once_def split: option.splits dest!: split_once_SomeD) (metis rev.simps(2) rev_append rev_rev_ident append.assoc append_Cons append_Nil)

section \<open>Sweeping a directory\<close>

text \<open>
  The loop over the entries of one directory: those \<open>doomed\<close> are removed, a failed removal is
  logged and skipped.
\<close>

definition try_remove :: "(fs_op \<Rightarrow> bool) \<Rightarrow> string \<Rightarrow> dir \<Rightarrow> dir \<times> bool" where
  "try_remove fails n d =
     (if fails (RemoveFile n) \<or> \<not> exists_in d n then (d, False) else (remove_file n d, True))"

fun sweep_entries :: "(string \<Rightarrow> bool) \<Rightarrow> (fs_op \<Rightarrow> bool) \<Rightarrow> string list \<Rightarrow> dir \<times> u32 \<Rightarrow> dir \<times> u32" where
  "sweep_entries doomed fails [] dn = dn"
| "sweep_entries doomed fails (n # ns) (d, count) =
     (if doomed n
      then (case try_remove fails n d of
              (d', True) \<Rightarrow> sweep_entries doomed fails ns (d', count + 1)
            | (d', False) \<Rightarrow> sweep_entries doomed fails ns (d', count))
      else sweep_entries doomed fails ns (d, count))"

fun sweep_streams :: "(string \<Rightarrow> bool) \<Rightarrow> (fs_op \<Rightarrow> bool) \<Rightarrow> stream list \<Rightarrow> store \<times> u32 \<Rightarrow> store \<times> u32" where
  "sweep_streams doomed fails [] sn = sn"
| "sweep_streams doomed fails (st # sts) (nvme, count) =
     (case nvme st of
        None \<Rightarrow> sweep_streams doomed fails sts (nvme, count)
      | Some d \<Rightarrow>
          (case sweep_entries doomed fails (map fst d) (d, count) of
             (d', count') \<Rightarrow> sweep_streams doomed fails sts (nvme(st := Some d'), count')))"

text \<open>The writer looks at the extension, the reader at the end of the name.\<close>

definition writer_partial :: "string \<Rightarrow> bool" where
  "writer_partial name \<longleftrightarrow> extension name = Some ''partial''"

definition reader_partial :: "string \<Rightarrow> bool" where
  "reader_partial name \<longleftrightarrow> ends_with ''.partial'' name"

definition writer_sweep_partials :: "(fs_op \<Rightarrow> bool) \<Rightarrow> store \<Rightarrow> store \<times> u32" where
  "writer_sweep_partials fails nvme = sweep_streams writer_partial fails all_streams (nvme, 0)"

definition reader_sweep_partials :: "(fs_op \<Rightarrow> bool) \<Rightarrow> store \<Rightarrow> store \<times> u32" where
  "reader_sweep_partials fails nvme = sweep_streams reader_partial fails all_streams (nvme, 0)"

section \<open>Resume state\<close>

text \<open>One entry of \<open>latest_sealed_end_slot\<close>: only the end slot of the name is parsed.\<close>

definition sealed_end :: "string \<Rightarrow> u64 option" where
  "sealed_end name =
     do { st \<leftarrow> strip_suffix ''.meta.json'' name;
          (_, end_str) \<leftarrow> split_once (CHR ''-'') st;
          parse_u64 end_str }"

definition max_end_step :: "u64 option \<Rightarrow> string \<Rightarrow> u64 option" where
  "max_end_step max_end name =
     (case sealed_end name of
        None \<Rightarrow> max_end
      | Some e \<Rightarrow> Some (case max_end of None \<Rightarrow> e | Some m \<Rightarrow> max m e))"

definition latest_sealed_end_slot :: "store \<Rightarrow> stream \<Rightarrow> u64 option" where
  "latest_sealed_end_slot nvme st =
     (case nvme st of
        None \<Rightarrow> None
      | Some d \<Rightarrow> foldl max_end_step None (map fst d))"

definition count_unuploaded :: "store \<Rightarrow> stream \<Rightarrow> u32" where
  "count_unuploaded nvme st =
     (case nvme st of
        None \<Rightarrow> 0
      | Some d \<Rightarrow>
          of_nat (length (filter (\<lambda>n. case strip_suffix ''.meta.json'' n of
                                        None \<Rightarrow> False
                                      | Some base \<Rightarrow> \<not> exists_in d (base @ ''.uploaded''))
                            (map fst d))))"

record stream_recovery =
  sr_stream :: stream
  resume_slot :: "u64 option"
  unuploaded :: u32

record recovery_report =
  partials_removed :: u32
  per_stream :: "stream_recovery list"

definition run_recovery :: "(fs_op \<Rightarrow> bool) \<Rightarrow> store \<Rightarrow> recovery_report \<times> store" where
  "run_recovery fails nvme =
     (case writer_sweep_partials fails nvme of
        (nvme', removed) \<Rightarrow>
          (\<lparr>partials_removed = removed,
            per_stream = map (\<lambda>st. \<lparr>sr_stream = st, resume_slot = latest_sealed_end_slot nvme' st,
                                    unuploaded = count_unuploaded nvme' st\<rparr>) all_streams\<rparr>,
           nvme'))"

section \<open>What a sweep does\<close>

definition doomed_left :: "(string \<Rightarrow> bool) \<Rightarrow> (fs_op \<Rightarrow> bool) \<Rightarrow> dir \<Rightarrow> dir" where
  "doomed_left doomed fails d = filter (\<lambda>(n, f). \<not> doomed n \<or> fails (RemoveFile n)) d"

lemma exists_in_iff: "exists_in d n \<longleftrightarrow> n \<in> fst ` set d"
  by (auto simp: exists_in_def map_of_eq_None_iff)

lemma sweep_entries_filter:
  "distinct ns \<Longrightarrow> set ns \<subseteq> fst ` set d \<Longrightarrow>
   sweep_entries doomed fails ns (d, count) =
     (filter (\<lambda>(n, f). n \<in> set ns \<longrightarrow> \<not> doomed n \<or> fails (RemoveFile n)) d,
      count + of_nat (length (filter (\<lambda>n. doomed n \<and> \<not> fails (RemoveFile n)) ns)))"
proof (induction ns arbitrary: d count)
  case Nil
  have "filter (\<lambda>(n, f). True) d = d" by (simp add: case_prod_unfold)
  then show ?case by simp
next
  case (Cons n ns)
  show ?case
  proof (cases "doomed n \<and> \<not> fails (RemoveFile n)")
    case True
    have "exists_in d n" using Cons.prems by (simp add: exists_in_iff)
    with True have "sweep_entries doomed fails (n # ns) (d, count) =
        sweep_entries doomed fails ns (remove_file n d, count + 1)"
      by (simp add: try_remove_def)
    also have "\<dots> = (filter (\<lambda>(m, f). m \<in> set ns \<longrightarrow> \<not> doomed m \<or> fails (RemoveFile m)) (remove_file n d),
        count + 1 + of_nat (length (filter (\<lambda>m. doomed m \<and> \<not> fails (RemoveFile m)) ns)))"
      using Cons.prems by (intro Cons.IH) (auto simp: keys_remove)
    also have "filter (\<lambda>(m, f). m \<in> set ns \<longrightarrow> \<not> doomed m \<or> fails (RemoveFile m)) (remove_file n d) =
        filter (\<lambda>(m, f). m \<in> set (n # ns) \<longrightarrow> \<not> doomed m \<or> fails (RemoveFile m)) d"
      using True Cons.prems by (auto simp: remove_file_def delete_filter intro!: filter_cong)
    finally show ?thesis using True by (simp add: ac_simps)
  next
    case False
    then have "sweep_entries doomed fails (n # ns) (d, count) = sweep_entries doomed fails ns (d, count)"
      by (auto simp: try_remove_def)
    also have "\<dots> = (filter (\<lambda>(m, f). m \<in> set ns \<longrightarrow> \<not> doomed m \<or> fails (RemoveFile m)) d,
        count + of_nat (length (filter (\<lambda>m. doomed m \<and> \<not> fails (RemoveFile m)) ns)))"
      using Cons.prems by (intro Cons.IH) auto
    also have "filter (\<lambda>(m, f). m \<in> set ns \<longrightarrow> \<not> doomed m \<or> fails (RemoveFile m)) d =
        filter (\<lambda>(m, f). m \<in> set (n # ns) \<longrightarrow> \<not> doomed m \<or> fails (RemoveFile m)) d"
      using False by (auto intro!: filter_cong)
    finally show ?thesis using False by auto
  qed
qed

text \<open>The names of a directory are distinct.\<close>

definition store_ok :: "store \<Rightarrow> bool" where
  "store_ok nvme \<longleftrightarrow> (\<forall>st d. nvme st = Some d \<longrightarrow> distinct (map fst d))"

definition removable :: "(string \<Rightarrow> bool) \<Rightarrow> (fs_op \<Rightarrow> bool) \<Rightarrow> dir \<Rightarrow> nat" where
  "removable doomed fails d = length (filter (\<lambda>n. doomed n \<and> \<not> fails (RemoveFile n)) (map fst d))"

lemma sweep_dir:
  "distinct (map fst d) \<Longrightarrow>
   sweep_entries doomed fails (map fst d) (d, count) =
     (doomed_left doomed fails d, count + of_nat (removable doomed fails d))"
  by (auto simp: sweep_entries_filter doomed_left_def removable_def rev_image_eqI intro!: filter_cong)

lemma sweep_streams_result:
  "store_ok nvme \<Longrightarrow> distinct sts \<Longrightarrow>
   sweep_streams doomed fails sts (nvme, count) =
     (\<lambda>st. if st \<in> set sts then map_option (doomed_left doomed fails) (nvme st) else nvme st,
      count + of_nat (sum_list (map (\<lambda>st. case nvme st of None \<Rightarrow> 0 | Some d \<Rightarrow> removable doomed fails d) sts)))"
proof (induction sts arbitrary: nvme count)
  case (Cons st sts)
  show ?case
  proof (cases "nvme st")
    case None
    with Cons show ?thesis by (auto simp: fun_eq_iff)
  next
    case (Some d)
    let ?n = "nvme(st := Some (doomed_left doomed fails d))"
    have "distinct (map fst (doomed_left doomed fails d))"
      using Cons.prems(1) Some by (auto simp: doomed_left_def store_ok_def intro: distinct_map_filter)
    then have "store_ok ?n" using Cons.prems(1) by (auto simp: store_ok_def)
    then have IH: "sweep_streams doomed fails sts (?n, c) =
      (\<lambda>st. if st \<in> set sts then map_option (doomed_left doomed fails) (?n st) else ?n st,
       c + of_nat (sum_list (map (\<lambda>st. case ?n st of None \<Rightarrow> 0 | Some d \<Rightarrow> removable doomed fails d) sts)))" for c
      by (rule Cons.IH) (use Cons.prems(2) in simp)
    have "distinct (map fst d)" using Cons.prems(1) Some by (auto simp: store_ok_def)
    then have "sweep_streams doomed fails (st # sts) (nvme, count) =
        sweep_streams doomed fails sts (?n, count + of_nat (removable doomed fails d))"
      using Some by (simp add: sweep_dir)
    moreover have "map (\<lambda>s. case ?n s of None \<Rightarrow> 0 | Some d \<Rightarrow> removable doomed fails d) sts =
        map (\<lambda>s. case nvme s of None \<Rightarrow> 0 | Some d \<Rightarrow> removable doomed fails d) sts"
      using Cons.prems(2) by (intro map_cong) auto
    moreover have "(\<lambda>s. if s \<in> set sts then map_option (doomed_left doomed fails) (?n s) else ?n s) =
        (\<lambda>s. if s \<in> set (st # sts) then map_option (doomed_left doomed fails) (nvme s) else nvme s)"
      using Cons.prems(2) Some by (auto simp: fun_eq_iff)
    ultimately show ?thesis using Some by (simp only: IH) simp
  qed
qed (simp add: fun_eq_iff)

lemma distinct_left: "distinct (map fst d) \<Longrightarrow> distinct (map fst (doomed_left doomed fails d))"
  by (simp add: doomed_left_def distinct_map_filter)

lemma exists_left: "exists_in (doomed_left doomed fails d) n \<longleftrightarrow> exists_in d n \<and> (\<not> doomed n \<or> fails (RemoveFile n))"
  by (force simp: exists_in_iff doomed_left_def)

lemma left_idem: "doomed_left doomed fails (doomed_left doomed fails d) = doomed_left doomed fails d"
  by (simp add: doomed_left_def)

lemma removable_left: "removable doomed fails (doomed_left doomed fails d) = 0"
  by (auto simp: removable_def doomed_left_def filter_empty_conv)

lemma writer_sweep_result:
  assumes "store_ok nvme"
  shows "fst (writer_sweep_partials fails nvme) = (\<lambda>st. map_option (doomed_left writer_partial fails) (nvme st))"
  using sweep_streams_result [OF assms distinct_all_streams, of writer_partial fails 0]
  by (simp add: writer_sweep_partials_def)

lemma reader_sweep_result:
  assumes "store_ok nvme"
  shows "fst (reader_sweep_partials fails nvme) = (\<lambda>st. map_option (doomed_left reader_partial fails) (nvme st))"
  using sweep_streams_result [OF assms distinct_all_streams, of reader_partial fails 0]
  by (simp add: reader_sweep_partials_def)

lemma store_ok_left: "store_ok nvme \<Longrightarrow> store_ok (\<lambda>st. map_option (doomed_left doomed fails) (nvme st))"
  by (auto simp: store_ok_def distinct_left)

text \<open>The two predicates differ on one name only.\<close>

lemma partial_predicates: "writer_partial n \<longleftrightarrow> reader_partial n \<and> n \<noteq> ''.partial''"
proof
  assume "writer_partial n"
  then obtain a where a: "rsplit_once (CHR ''.'') n = Some (a, ''partial'')" "a \<noteq> []"
    by (auto simp: writer_partial_def extension_def split: option.splits if_splits prod.splits)
  from rsplit_once_SomeD [OF a(1)] a(2) show "reader_partial n \<and> n \<noteq> ''.partial''"
    by (auto simp: reader_partial_def ends_with_iff)
next
  assume n: "reader_partial n \<and> n \<noteq> ''.partial''"
  then obtain a where a: "n = a @ ''.partial''" "a \<noteq> []" by (auto simp: reader_partial_def ends_with_iff)
  have "rsplit_once (CHR ''.'') (a @ (CHR ''.'') # ''partial'') = Some (a, ''partial'')"
    by (rule rsplit_once_append) simp
  with a show "writer_partial n" by (simp add: writer_partial_def extension_def)
qed

lemma chunk_file_partial:
  "reader_partial (chunk_file s e x) \<longleftrightarrow> x = ''partial'' \<or> ends_with ''.partial'' x"
proof
  assume "reader_partial (chunk_file s e x)"
  then obtain t where t: "stem s e @ (CHR ''.'') # x = t @ (CHR ''.'') # ''partial''"
    by (auto simp: reader_partial_def ends_with_iff chunk_file_def)
  then consider us where "stem s e = t @ us" "us @ (CHR ''.'') # x = (CHR ''.'') # ''partial''"
    | us where "stem s e @ us = t" "(CHR ''.'') # x = us @ (CHR ''.'') # ''partial''"
    by (auto simp: append_eq_append_conv2)
  then show "x = ''partial'' \<or> ends_with ''.partial'' x"
  proof cases
    case 1
    have "CHR ''.'' \<notin> set us" using 1(1) stem_no_dot [of s e] by auto
    with 1(2) have "us = []" by (cases us) auto
    with 1(2) show ?thesis by simp
  next
    case 2
    show ?thesis
    proof (cases us)
      case Nil
      with 2(2) show ?thesis by simp
    next
      case (Cons c cs)
      with 2(2) have "x = cs @ ''.partial''" by simp
      then show ?thesis by (auto simp: ends_with_iff)
    qed
  qed
next
  assume "x = ''partial'' \<or> ends_with ''.partial'' x"
  then show "reader_partial (chunk_file s e x)"
    by (auto simp: reader_partial_def ends_with_iff chunk_file_def)
qed

lemma final_not_partial [simp]:
  "\<not> reader_partial (chunk_file s e ''meta.json'')" "\<not> reader_partial (chunk_file s e ''zst'')"
  "\<not> reader_partial (chunk_file s e ''idx'')" "\<not> reader_partial (chunk_file s e ''uploaded'')"
  by (simp_all add: chunk_file_partial ends_with_def strip_suffix_def)

lemma dir_complete_left:
  assumes "dir_complete d" and "\<And>n. doomed n \<Longrightarrow> reader_partial n"
  shows "dir_complete (doomed_left doomed fails d)"
proof -
  have keep: "exists_in (doomed_left doomed fails d) n \<longleftrightarrow> exists_in d n" if "\<not> reader_partial n" for n
    using that assms(2) by (auto simp: exists_left)
  show ?thesis using assms(1) by (simp add: dir_complete_def keep)
qed

section \<open>The resume slot\<close>

lemma foldl_max_end:
  "foldl max_end_step m ns =
     max_opt ((case m of None \<Rightarrow> [] | Some x \<Rightarrow> [x]) @ List.map_filter sealed_end ns)"
proof (induction ns arbitrary: m)
  case Nil
  then show ?case by (cases m) (simp_all add: max_opt_def List.map_filter_simps)
next
  case (Cons n ns)
  then show ?case
    by (cases m) (auto simp: max_end_step_def List.map_filter_simps max_opt_def split: option.splits)
qed

lemma latest_sealed_end_slot_Max:
  "latest_sealed_end_slot nvme st =
     (case nvme st of None \<Rightarrow> None | Some d \<Rightarrow> max_opt (List.map_filter sealed_end (map fst d)))"
  by (simp add: latest_sealed_end_slot_def foldl_max_end split: option.splits)

lemma sealed_end_chunk_file [simp]: "sealed_end (chunk_file s e ''meta.json'') = Some e"
  by (simp add: sealed_end_def)

lemma sealed_end_partial: "sealed_end n = Some e \<Longrightarrow> \<not> reader_partial n"
proof
  assume "sealed_end n = Some e" and "reader_partial n"
  then obtain a b where "n = a @ ''.meta.json''" "n = b @ ''.partial''"
    by (auto simp: sealed_end_def strip_suffix_Some bind_eq_Some_conv reader_partial_def ends_with_iff)
  then have "rev ''.meta.json'' @ rev a = rev ''.partial'' @ rev b" by (metis rev_append)
  then show False by simp
qed

lemma map_filter_left:
  "(\<And>n. n \<in> fst ` set d \<Longrightarrow> doomed n \<Longrightarrow> f n = None) \<Longrightarrow>
   List.map_filter f (map fst (doomed_left doomed fails d)) = List.map_filter f (map fst d)"
  by (induction d) (auto simp: doomed_left_def List.map_filter_simps split: option.splits)

text \<open>Sweeping partial files does not change what is sealed.\<close>

lemma latest_sealed_left:
  assumes "\<And>n. doomed n \<Longrightarrow> reader_partial n"
  shows "latest_sealed_end_slot (\<lambda>st. map_option (doomed_left doomed fails) (nvme st)) st =
    latest_sealed_end_slot nvme st"
proof (cases "nvme st")
  case (Some d)
  have "sealed_end n = None" if "doomed n" for n
    using sealed_end_partial [of n] assms [OF that] by (cases "sealed_end n") auto
  with Some show ?thesis by (simp add: latest_sealed_end_slot_Max map_filter_left)
qed (simp add: latest_sealed_end_slot_def)

section \<open>Properties\<close>

lemma store_ok_sweep: "store_ok nvme \<Longrightarrow> store_ok (fst (writer_sweep_partials fails nvme))"
  by (simp only: writer_sweep_result store_ok_left)

lemma writer_partial_reader: "writer_partial n \<Longrightarrow> reader_partial n"
  by (simp add: partial_predicates)

lemma count_idem:
  assumes "store_ok nvme"
  shows "snd (writer_sweep_partials fails (\<lambda>st. map_option (doomed_left writer_partial fails) (nvme st))) = 0"
proof -
  let ?n = "\<lambda>st. map_option (doomed_left writer_partial fails) (nvme st)"
  have "sum_list (map (\<lambda>st. case ?n st of None \<Rightarrow> 0 | Some d \<Rightarrow> removable writer_partial fails d) sts) = 0" for sts
    by (induction sts) (auto simp: removable_left split: option.splits)
  then show ?thesis
    by (simp only: writer_sweep_partials_def sweep_streams_result [OF store_ok_left [OF assms] distinct_all_streams]
        snd_conv) simp
qed

lemma doomed_left_filter: "doomed_left doomed fails = filter (\<lambda>(n, _). \<not> doomed n \<or> fails (RemoveFile n))"
  by (simp add: fun_eq_iff doomed_left_def)

text \<open>C29: Startup recovery removes exactly the partial files whose removal does not fail and nothing
  else, so complete directories stay complete; it reports for every stream the largest end slot of
  a sealed chunk, which the sweep does not change; and running it again on what it left changes
  nothing, removes nothing and reports the same.\<close>

theorem recovery_exact_and_idempotent:
  assumes "store_ok nvme" and "run_recovery fails nvme = (report, nvme')"
  shows "nvme' = (\<lambda>st. map_option (filter (\<lambda>(n, _). \<not> writer_partial n \<or> fails (RemoveFile n))) (nvme st)) \<and>
    (\<forall>st d d'. nvme st = Some d \<longrightarrow> dir_complete d \<longrightarrow> nvme' st = Some d' \<longrightarrow> dir_complete d') \<and>
    map (\<lambda>r. (sr_stream r, resume_slot r)) (per_stream report) =
      map (\<lambda>st. (st, case nvme st of None \<Rightarrow> None | Some d \<Rightarrow> max_opt (List.map_filter sealed_end (map fst d)))) all_streams \<and>
    run_recovery fails nvme' = (report\<lparr>partials_removed := 0\<rparr>, nvme')"
proof (intro conjI)
  have n': "nvme' = (\<lambda>st. map_option (doomed_left writer_partial fails) (nvme st))"
    using assms(2) writer_sweep_result [OF assms(1), of fails]
    by (cases "writer_sweep_partials fails nvme") (simp add: run_recovery_def)
  then show "nvme' = (\<lambda>st. map_option (filter (\<lambda>(n, _). \<not> writer_partial n \<or> fails (RemoveFile n))) (nvme st))"
    by (simp only: doomed_left_filter)
  show "\<forall>st d d'. nvme st = Some d \<longrightarrow> dir_complete d \<longrightarrow> nvme' st = Some d' \<longrightarrow> dir_complete d'"
    using dir_complete_left writer_partial_reader by (auto simp: n')
  show "map (\<lambda>r. (sr_stream r, resume_slot r)) (per_stream report) =
      map (\<lambda>st. (st, case nvme st of None \<Rightarrow> None | Some d \<Rightarrow> max_opt (List.map_filter sealed_end (map fst d)))) all_streams"
    using assms(2) latest_sealed_left [where doomed = writer_partial and fails = fails and nvme = nvme, OF writer_partial_reader] n'
    by (auto simp: run_recovery_def latest_sealed_end_slot_Max split: prod.splits)
  have "writer_sweep_partials fails nvme' = (nvme', 0)"
    using writer_sweep_result [OF store_ok_left [OF assms(1), where doomed = writer_partial and fails = fails], where fails = fails] count_idem [OF assms(1), of fails]
    by (simp add: n' prod_eq_iff option.map_comp comp_def left_idem)
  with assms(2) show "run_recovery fails nvme' = (report\<lparr>partials_removed := 0\<rparr>, nvme')"
    by (auto simp: run_recovery_def split: prod.splits)
qed

lemma recovery_exact_and_idempotent_witness:
  "\<exists>report nvme'. run_recovery (\<lambda>_. False)
      (\<lambda>st. if st = Tx then Some [(chunk_file 1 2 ''zst.partial'', \<lparr>content = [], mtime = 0\<rparr>),
                                  (chunk_file 0 1 ''meta.json'', \<lparr>content = [], mtime = 0\<rparr>)] else None) = (report, nvme') \<and>
    nvme' Tx = Some [(chunk_file 0 1 ''meta.json'', \<lparr>content = [], mtime = 0\<rparr>)] \<and>
    map (\<lambda>r. (sr_stream r, resume_slot r)) (per_stream report) = [(Tx, Some 1), (Acct, None), (Block, None)]"
proof -
  let ?n = "\<lambda>st. if st = Tx then Some [(chunk_file 1 2 ''zst.partial'', \<lparr>content = [], mtime = 0\<rparr>),
                                  (chunk_file 0 1 ''meta.json'', \<lparr>content = [], mtime = 0\<rparr>)] else None"
  have ok: "store_ok ?n" by (simp add: store_ok_def)
  obtain report nvme' where r: "run_recovery (\<lambda>_. False) ?n = (report, nvme')" by fastforce
  have p: "writer_partial (chunk_file 1 2 ''zst.partial'')" "\<not> writer_partial (chunk_file 0 1 ''meta.json'')"
    by (auto simp: partial_predicates chunk_file_partial ends_with_def strip_suffix_def) (simp add: chunk_file_def stem_def)
  have "chunk_file 1 2 ''zst.partial'' = stem 1 2 @ ''.zst.partial''" by (simp add: chunk_file_def)
  have "sealed_end (chunk_file 1 2 ''zst.partial'') = None"
    using sealed_end_partial [of "chunk_file 1 2 ''zst.partial''"] p(1) writer_partial_reader
    by (cases "sealed_end (chunk_file 1 2 ''zst.partial'')") auto
  with recovery_exact_and_idempotent [OF ok r] r p show ?thesis
    by (simp add: all_streams_def List.map_filter_simps max_opt_def)
qed

end
