(* ===== verification/Uploader.thy ===== *)
theory Uploader
  imports Retry Bucket Recovery
begin

text \<open>
  The uploader (\<open>sillage-writer/src/uploader.rs\<close>): finding sealed chunks without a marker,
  uploading the three files and writing the marker, evicting old uploaded chunks, disk
  pressure, and one cycle of its loop.

  \<open>put\<close> is the client's \<open>put_object\<close> (theory \<open>Bucket\<close>). The uploads of one cycle run
  concurrently up to a limit; each touches the keys and the marker of its own chunk, and the
  model runs them in the order they are spawned.
\<close>

section \<open>Pending chunks\<close>

record pending_chunk =
  pc_stream :: stream
  pc_base :: string
  pc_start_slot :: u64
  pc_end_slot :: u64

definition pending_entry :: "stream \<Rightarrow> dir \<Rightarrow> string \<Rightarrow> pending_chunk option" where
  "pending_entry st d file_name =
     (case strip_suffix ''.meta.json'' file_name of
        None \<Rightarrow> None
      | Some base \<Rightarrow>
          if exists_in d (with_extension base ''uploaded'') then None
          else
            let (start_str, end_str) = splitn2 (CHR ''-'') base
            in case parse_u64 start_str of
                 None \<Rightarrow> None
               | Some s \<Rightarrow>
                   (case parse_u64 end_str of
                      None \<Rightarrow> None
                    | Some e \<Rightarrow> Some \<lparr>pc_stream = st, pc_base = base, pc_start_slot = s, pc_end_slot = e\<rparr>))"

definition scan_pending :: "store \<Rightarrow> pending_chunk list" where
  "scan_pending nvme =
     sort_key (\<lambda>c. (as_str (pc_stream c), pc_start_slot c))
       (concat (map (\<lambda>st. case nvme st of
                            None \<Rightarrow> []
                          | Some d \<Rightarrow> List.map_filter (pending_entry st d) (map fst d)) all_streams))"

section \<open>Uploading\<close>

datatype upload_error = PutFailed string | MarkerFailed fs_op

text \<open>One attempt: the file is read, then put. A file that cannot be read fails the attempt.\<close>

definition put_file :: "'s put_object \<Rightarrow> string \<Rightarrow> bytes option \<Rightarrow> 's \<Rightarrow> (upload_error + unit) \<times> 's" where
  "put_file put key body s =
     (case body of
        None \<Rightarrow> (Inl (PutFailed key), s)
      | Some b \<Rightarrow> (case put key b s of (ok, s') \<Rightarrow> (if ok then Inr () else Inl (PutFailed key), s')))"

definition put_with_retry :: "'s put_object \<Rightarrow> string \<Rightarrow> bytes option \<Rightarrow> uploader_config \<Rightarrow> 's
    \<Rightarrow> (upload_error retry_error + unit) \<times> 's \<times> u64 list" where
  "put_with_retry put key body cfg s =
     retry (put_file put key body) (u_retry_initial_delay_ms cfg) (unat (u_retry_attempts cfg)) 0 s"

fun upload_files :: "'s put_object \<Rightarrow> uploader_config \<Rightarrow> pending_chunk \<Rightarrow> dir \<Rightarrow> string list \<Rightarrow> 's
    \<Rightarrow> (upload_error retry_error + unit) \<times> 's" where
  "upload_files put cfg chunk d [] s = (Inr (), s)"
| "upload_files put cfg chunk d (ext # exts) s =
     (let key = object_key (pc_stream chunk) (pc_start_slot chunk) (pc_end_slot chunk) ext;
          body = map_option content (map_of d (with_extension (pc_base chunk) ext))
      in case put_with_retry put key body cfg s of
           (Inl e, s', _) \<Rightarrow> (Inl e, s')
         | (Inr _, s', _) \<Rightarrow> upload_files put cfg chunk d exts s')"

definition marker_ops :: "pending_chunk \<Rightarrow> fs_op list" where
  "marker_ops chunk =
     (let partial = with_extension (pc_base chunk) ''uploaded.partial'';
          marker = with_extension (pc_base chunk) ''uploaded''
      in [CreateFile partial, SyncFile partial, RenameFile partial marker])"

definition upload_chunk :: "(fs_op \<Rightarrow> bool) \<Rightarrow> 's put_object \<Rightarrow> nat \<Rightarrow> uploader_config \<Rightarrow> pending_chunk
    \<Rightarrow> dir \<times> 's \<Rightarrow> (upload_error retry_error + unit) \<times> dir \<times> 's" where
  "upload_chunk fails put now cfg chunk ds =
     (case ds of (d, s) \<Rightarrow>
        (case upload_files put cfg chunk d [''zst'', ''idx'', ''meta.json''] s of
           (Inl e, s') \<Rightarrow> (Inl e, d, s')
         | (Inr _, s') \<Rightarrow>
             (case run_ops fails now (marker_ops chunk) d of
                (d', Some op) \<Rightarrow> (Inl (GaveUp (MarkerFailed op)), d', s')
              | (d', None) \<Rightarrow> (Inr (), d', s'))))"

section \<open>Retention and disk pressure\<close>

definition NS_PER_SEC :: nat where
  "NS_PER_SEC = 10 ^ 9"

text \<open>\<open>Duration::from_secs(retention_hours * 3600)\<close>, in nanoseconds.\<close>

definition retention_ns :: "u64 \<Rightarrow> nat" where
  "retention_ns hours = unat (hours * 3600) * NS_PER_SEC"

datatype sweep_error = MetadataFailed string

fun evict_siblings :: "(fs_op \<Rightarrow> bool) \<Rightarrow> string \<Rightarrow> string list \<Rightarrow> dir \<Rightarrow> dir" where
  "evict_siblings fails base [] d = d"
| "evict_siblings fails base (ext # exts) d =
     evict_siblings fails base exts (fst (try_remove fails (with_extension base ext) d))"

text \<open>
  The loop over the entries read at the start. An entry that an earlier eviction removed has no
  metadata any more, which is an error of the whole sweep.
\<close>

fun sweep_uploaded :: "(fs_op \<Rightarrow> bool) \<Rightarrow> nat \<Rightarrow> nat \<Rightarrow> string list \<Rightarrow> dir \<times> u32
    \<Rightarrow> (sweep_error + u32) \<times> dir" where
  "sweep_uploaded fails now retention [] (d, evicted) = (Inr evicted, d)"
| "sweep_uploaded fails now retention (n # ns) (d, evicted) =
     (case strip_suffix ''.uploaded'' n of
        None \<Rightarrow> sweep_uploaded fails now retention ns (d, evicted)
      | Some base \<Rightarrow>
          (case map_of d n of
             None \<Rightarrow> (Inl (MetadataFailed n), d)
           | Some f \<Rightarrow>
               if mtime f \<le> now \<and> now - mtime f > retention
               then sweep_uploaded fails now retention ns
                      (evict_siblings fails base [''zst'', ''idx'', ''meta.json'', ''uploaded''] d, evicted + 1)
               else sweep_uploaded fails now retention ns (d, evicted)))"

fun sweep_retention_streams :: "(fs_op \<Rightarrow> bool) \<Rightarrow> nat \<Rightarrow> nat \<Rightarrow> stream list \<Rightarrow> store \<times> u32
    \<Rightarrow> (sweep_error + u32) \<times> store" where
  "sweep_retention_streams fails now retention [] (nvme, evicted) = (Inr evicted, nvme)"
| "sweep_retention_streams fails now retention (st # sts) (nvme, evicted) =
     (case nvme st of
        None \<Rightarrow> sweep_retention_streams fails now retention sts (nvme, evicted)
      | Some d \<Rightarrow>
          (case sweep_uploaded fails now retention (map fst d) (d, evicted) of
             (Inl e, d') \<Rightarrow> (Inl e, nvme(st := Some d'))
           | (Inr evicted', d') \<Rightarrow> sweep_retention_streams fails now retention sts (nvme(st := Some d'), evicted')))"

definition uploader_sweep_retention :: "(fs_op \<Rightarrow> bool) \<Rightarrow> nat \<Rightarrow> u64 \<Rightarrow> store \<Rightarrow> (sweep_error + u32) \<times> store" where
  "uploader_sweep_retention fails now hours nvme =
     sweep_retention_streams fails now (retention_ns hours) all_streams (nvme, 0)"

text \<open>The two counters come from \<open>statvfs\<close>; \<open>None\<close> is its error.\<close>

definition disk_usage_pct :: "(u64 \<times> u64) option \<Rightarrow> u8 option" where
  "disk_usage_pct stat =
     (case stat of
        None \<Rightarrow> None
      | Some (blocks, bavail) \<Rightarrow>
          if blocks = 0 then Some 0
          else Some (ucast (min (((blocks - bavail) * 100) div blocks) 100)))"

definition disk_pressure :: "uploader_config \<Rightarrow> (u64 \<times> u64) option \<Rightarrow> bool" where
  "disk_pressure cfg stat =
     (case disk_usage_pct stat of None \<Rightarrow> False | Some pct \<Rightarrow> pct > disk_pressure_warn_pct cfg)"

section \<open>A cycle\<close>

fun upload_all :: "(fs_op \<Rightarrow> bool) \<Rightarrow> 's put_object \<Rightarrow> nat \<Rightarrow> uploader_config \<Rightarrow> pending_chunk list
    \<Rightarrow> store \<times> 's \<Rightarrow> nat \<times> store \<times> 's" where
  "upload_all fails put now cfg [] w = (0, w)"
| "upload_all fails put now cfg (chunk # chunks) (nvme, s) =
     (case upload_chunk fails put now cfg chunk (case nvme (pc_stream chunk) of Some d \<Rightarrow> d | None \<Rightarrow> [], s) of
        (r, d', s') \<Rightarrow>
          (case upload_all fails put now cfg chunks (nvme(pc_stream chunk := Some d'), s') of
             (n, w) \<Rightarrow> (if isl r then n else Suc n, w)))"

record cycle_report =
  cr_pending :: nat
  cr_uploaded :: nat
  cr_swept :: u32

text \<open>
  One turn of the loop of \<open>Uploader::run\<close>: the pending chunks are scanned before the retention
  sweep and uploaded after it. Without credentials nothing happens.
\<close>

definition uploader_cycle :: "(fs_op \<Rightarrow> bool) \<Rightarrow> 's put_object option \<Rightarrow> nat \<Rightarrow> uploader_config
    \<Rightarrow> store \<times> 's \<Rightarrow> cycle_report option \<times> store \<times> 's" where
  "uploader_cycle fails r2 now cfg w =
     (case r2 of
        None \<Rightarrow> (None, w)
      | Some put \<Rightarrow>
          (case w of (nvme, s) \<Rightarrow>
             let pending = scan_pending nvme
             in case uploader_sweep_retention fails now (u_local_retention_hours cfg) nvme of
                  (swept, nvme') \<Rightarrow>
                    (case upload_all fails put now cfg pending (nvme', s) of
                       (uploaded, w') \<Rightarrow>
                         (Some \<lparr>cr_pending = length pending, cr_uploaded = uploaded,
                                cr_swept = (case swept of Inr n \<Rightarrow> n | Inl _ \<Rightarrow> 0)\<rparr>, w'))))"

text \<open>The loop, woken at the given times until the shutdown signal.\<close>

fun uploader_run :: "(fs_op \<Rightarrow> bool) \<Rightarrow> 's put_object option \<Rightarrow> uploader_config \<Rightarrow> nat list
    \<Rightarrow> store \<times> 's \<Rightarrow> store \<times> 's" where
  "uploader_run fails r2 cfg [] w = w"
| "uploader_run fails r2 cfg (now # wakes) w =
     uploader_run fails r2 cfg wakes (snd (uploader_cycle fails r2 now cfg w))"

section \<open>What is in the bucket\<close>

text \<open>
  \<open>in_bucket\<close>: the three objects of a chunk exist. \<open>remote_complete\<close>: no metadata object without
  the other two. \<open>marked\<close>: a local marker says the truth about the bucket.
\<close>

definition in_bucket :: "'s objects \<Rightarrow> 's \<Rightarrow> stream \<Rightarrow> u64 \<Rightarrow> u64 \<Rightarrow> string set \<Rightarrow> bool" where
  "in_bucket obj s st a e exts \<longleftrightarrow> (\<forall>x \<in> exts. obj s (object_key st a e x) \<noteq> None)"

definition remote_complete :: "'s objects \<Rightarrow> 's \<Rightarrow> bool" where
  "remote_complete obj s \<longleftrightarrow>
     (\<forall>st a e. in_bucket obj s st a e {''meta.json''} \<longrightarrow> in_bucket obj s st a e {''zst'', ''idx''})"

definition marked :: "'s objects \<Rightarrow> store \<times> 's \<Rightarrow> bool" where
  "marked obj w \<longleftrightarrow>
     (\<forall>st d a e. fst w st = Some d \<longrightarrow> exists_in d (chunk_file a e ''uploaded'') \<longrightarrow>
        in_bucket obj (snd w) st a e {''zst'', ''idx'', ''meta.json''})"

text \<open>A put never removes an object, and a successful one leaves the object there.\<close>

definition grows :: "'s objects \<Rightarrow> 's \<Rightarrow> 's \<Rightarrow> string set \<Rightarrow> bool" where
  "grows obj s s' ks \<longleftrightarrow> (\<forall>k. obj s k \<noteq> None \<longrightarrow> obj s' k \<noteq> None) \<and> (\<forall>k. k \<notin> ks \<longrightarrow> obj s' k = obj s k)"

lemma grows_refl [simp]: "grows obj s s ks"
  by (simp add: grows_def)

lemma grows_trans: "grows obj a b ks \<Longrightarrow> grows obj b c ks \<Longrightarrow> grows obj a c ks"
  by (simp add: grows_def)

lemma grows_mono: "grows obj a b ks \<Longrightarrow> ks \<subseteq> ks' \<Longrightarrow> grows obj a b ks'"
  by (auto simp: grows_def)

lemma put_file_grows:
  assumes laws: "put_laws put obj" and p: "put_file put key body s = (r, s')"
  shows "grows obj s s' {key} \<and> (r = Inr () \<longrightarrow> (\<exists>b. body = Some b \<and> obj s' key = Some b))"
proof (cases body)
  case None
  with p show ?thesis by (auto simp: put_file_def)
next
  case (Some b)
  obtain ok s1 where o: "put key b s = (ok, s1)" by fastforce
  have s1: "s' = s1" and r: "r = Inr () \<longleftrightarrow> ok" using p Some o by (auto simp: put_file_def split: if_splits)
  have "obj s' k \<noteq> None" if "obj s k \<noteq> None" for k
    using that put_lawsD(2) [OF laws o] put_lawsD(3) [OF laws o, of k] s1 by (cases "k = key") auto
  moreover have "obj s' k = obj s k" if "k \<notin> {key}" for k
    using that put_lawsD(3) [OF laws o, of k] s1 by simp
  ultimately show ?thesis using put_lawsD(1) [OF laws o] s1 r Some by (simp add: grows_def)
qed

lemma put_with_retry_grows:
  assumes laws: "put_laws put obj" and p: "put_with_retry put key body cfg s = (r, s', ds)"
  shows "grows obj s s' {key} \<and> (r = Inr () \<longrightarrow> (\<exists>b. body = Some b \<and> obj s' key = Some b))"
proof -
  have step: "\<forall>s0 r0 s1. grows obj s s0 {key} \<longrightarrow> put_file put key body s0 = (r0, s1) \<longrightarrow> grows obj s s1 {key}"
    by (auto intro: grows_trans dest: put_file_grows [OF laws])
  note spec = retry_spec [where I = "\<lambda>s1. grows obj s s1 {key}", OF p [unfolded put_with_retry_def] grows_refl step]
  show ?thesis
  proof (intro conjI impI)
    assume "r = Inr ()"
    with spec obtain s0 where "put_file put key body s0 = (Inr (), s')" by blast
    from put_file_grows [OF laws this] show "\<exists>b. body = Some b \<and> obj s' key = Some b" by simp
  qed (use spec in simp)
qed

lemma in_bucket_grows: "grows obj s s' ks \<Longrightarrow> in_bucket obj s st a e xs \<Longrightarrow> in_bucket obj s' st a e xs"
  by (auto simp: in_bucket_def grows_def)

lemma remote_complete_grows:
  assumes g: "grows obj s s' {object_key st a e x}" and c: "remote_complete obj s"
    and x: "x = ''meta.json'' \<Longrightarrow> in_bucket obj s st a e {''zst'', ''idx''}"
  shows "remote_complete obj s'"
  unfolding remote_complete_def
proof (intro allI impI)
  fix st' a' e'
  assume m: "in_bucket obj s' st' a' e' {''meta.json''}"
  show "in_bucket obj s' st' a' e' {''zst'', ''idx''}"
  proof (cases "object_key st' a' e' ''meta.json'' = object_key st a e x")
    case True
    then have "st' = st" "a' = a" "e' = e" "x = ''meta.json''" by simp_all
    with x in_bucket_grows [OF g] show ?thesis by simp
  next
    case False
    then have "obj s' (object_key st' a' e' ''meta.json'') = obj s (object_key st' a' e' ''meta.json'')"
      using g unfolding grows_def by blast
    with m have "in_bucket obj s st' a' e' {''meta.json''}" by (simp add: in_bucket_def)
    with c have "in_bucket obj s st' a' e' {''zst'', ''idx''}" by (simp add: remote_complete_def)
    then show ?thesis by (rule in_bucket_grows [OF g])
  qed
qed

text \<open>
  The three puts in order: whatever fails, no metadata object is ever without its data and
  index, at any point of the upload; on success all three are there.
\<close>

lemma upload_files_complete:
  assumes laws: "put_laws put obj" and c: "remote_complete obj s"
    and u: "upload_files put cfg chunk d [''zst'', ''idx'', ''meta.json''] s = (r, s')"
  shows "remote_complete obj s' \<and> (\<exists>ks. grows obj s s' ks) \<and>
    (r = Inr () \<longrightarrow> in_bucket obj s' (pc_stream chunk) (pc_start_slot chunk) (pc_end_slot chunk)
                     {''zst'', ''idx'', ''meta.json''})"
proof -
  let ?k = "object_key (pc_stream chunk) (pc_start_slot chunk) (pc_end_slot chunk)"
  let ?b = "\<lambda>x. map_option content (map_of d (with_extension (pc_base chunk) x))"
  let ?in = "\<lambda>s. in_bucket obj s (pc_stream chunk) (pc_start_slot chunk) (pc_end_slot chunk)"
  obtain r1 s1 ds1 where p1: "put_with_retry put (?k ''zst'') (?b ''zst'') cfg s = (r1, s1, ds1)" by (metis surj_pair)
  obtain r2 s2 ds2 where p2: "put_with_retry put (?k ''idx'') (?b ''idx'') cfg s1 = (r2, s2, ds2)" by (metis surj_pair)
  obtain r3 s3 ds3 where p3: "put_with_retry put (?k ''meta.json'') (?b ''meta.json'') cfg s2 = (r3, s3, ds3)" by (metis surj_pair)
  note g1 = put_with_retry_grows [OF laws p1] and g2 = put_with_retry_grows [OF laws p2]
    and g3 = put_with_retry_grows [OF laws p3]
  have c1: "remote_complete obj s1" using g1 by (intro remote_complete_grows [OF conjunct1 [OF g1] c]) simp
  have c2: "remote_complete obj s2" using g2 by (intro remote_complete_grows [OF conjunct1 [OF g2] c1]) simp
  have grow: "\<exists>ks. grows obj s s1 ks" "\<exists>ks. grows obj s s2 ks" "\<exists>ks. grows obj s s3 ks"
  proof -
    let ?ks = "{?k ''zst'', ?k ''idx'', ?k ''meta.json''}"
    have g: "grows obj s s1 ?ks" "grows obj s1 s2 ?ks" "grows obj s2 s3 ?ks"
      by (rule grows_mono [OF conjunct1 [OF g1]] grows_mono [OF conjunct1 [OF g2]]
          grows_mono [OF conjunct1 [OF g3]], simp)+
    note g12 = grows_trans [OF g(1,2)]
    from g(1) g12 grows_trans [OF g12 g(3)]
    show "\<exists>ks. grows obj s s1 ks" "\<exists>ks. grows obj s s2 ks" "\<exists>ks. grows obj s s3 ks" by blast+
  qed
  show ?thesis
  proof (cases "r1 = Inr () \<and> r2 = Inr ()")
    case False
    then have "(\<exists>e. r1 = Inl e) \<or> r1 = Inr () \<and> (\<exists>e. r2 = Inl e)" by (metis (full_types) obj_sumE old.unit.exhaust)
    with u p1 p2 have "s' = s1 \<or> s' = s2" "r \<noteq> Inr ()" by (auto simp: Let_def)
    with c1 c2 grow show ?thesis by blast
  next
    case True
    then have "?in s2 {''zst'', ''idx''}"
      using g1 g2 in_bucket_grows [OF conjunct1 [OF g2], of "pc_stream chunk" "pc_start_slot chunk" "pc_end_slot chunk" "{''zst''}"]
      by (auto simp: in_bucket_def)
    then have c3: "remote_complete obj s3" and i3: "?in s3 {''zst'', ''idx''}"
      using remote_complete_grows [OF conjunct1 [OF g3] c2] in_bucket_grows [OF conjunct1 [OF g3]] by blast+
    from u p1 p2 p3 True have "s' = s3 \<and> (r = Inr () \<longrightarrow> r3 = Inr ())"
      by (auto simp: Let_def split: sum.splits)
    with c3 i3 g3 grow show ?thesis by (auto simp: in_bucket_def)
  qed
qed

section \<open>The marker\<close>

text \<open>The slots of a pending chunk come from its base name, which has no dot.\<close>

definition base_slots :: "string \<Rightarrow> u64 \<Rightarrow> u64 \<Rightarrow> bool" where
  "base_slots base a e \<longleftrightarrow>
     (let (x, y) = splitn2 (CHR ''-'') base in parse_u64 x = Some a \<and> parse_u64 y = Some e)"

definition chunk_wf :: "pending_chunk \<Rightarrow> bool" where
  "chunk_wf c \<longleftrightarrow> base_slots (pc_base c) (pc_start_slot c) (pc_end_slot c)"

lemma digit_val_no_dot: "digit_val (CHR ''.'') = None"
  by (simp add: digit_val_def)

lemma parse_digits_no_dot: "parse_digits acc s = Some n \<Longrightarrow> CHR ''.'' \<notin> set s"
  by (induction s arbitrary: acc) (auto simp: digit_val_no_dot split: option.splits if_splits)

lemma parse_u64_no_dot: "parse_u64 s = Some n \<Longrightarrow> CHR ''.'' \<notin> set s"
  by (auto simp: parse_u64_def Let_def simp del: parse_digits.simps
      split: list.splits if_splits dest: parse_digits_no_dot)

lemma splitn2_append_eq: "splitn2 c s = (x, y) \<Longrightarrow> s = x \<or> s = x @ c # y"
  by (auto simp: splitn2_def split: option.splits dest: split_once_SomeD)

lemma base_slots_no_dot: "base_slots base a e \<Longrightarrow> CHR ''.'' \<notin> set base"
proof -
  assume b: "base_slots base a e"
  obtain x y where xy: "splitn2 (CHR ''-'') base = (x, y)" by fastforce
  with b have "CHR ''.'' \<notin> set x" "CHR ''.'' \<notin> set y"
    by (auto simp: base_slots_def parse_u64_no_dot)
  with splitn2_append_eq [OF xy] show ?thesis by auto
qed

lemma base_slots_stem: "base_slots (stem a e) a' e' \<longleftrightarrow> a' = a \<and> e' = e"
  by (auto simp: base_slots_def)

lemma pending_entry_wf: "pending_entry st d n = Some c \<Longrightarrow> chunk_wf c \<and> pc_stream c = st"
  by (cases "splitn2 (CHR ''-'') (the (strip_suffix ''.meta.json'' n))")
    (auto simp: pending_entry_def chunk_wf_def base_slots_def split: option.splits if_splits)

lemma scan_pending_wf: "c \<in> set (scan_pending nvme) \<Longrightarrow> chunk_wf c"
  by (auto simp: scan_pending_def set_map_filter split: option.splits dest: pending_entry_wf)

lemma marker_exists:
  assumes wf: "chunk_wf c" and r: "run_ops fails now (marker_ops c) d = (d', res)"
    and m: "exists_in d' (chunk_file a e ''uploaded'')"
  shows "exists_in d (chunk_file a e ''uploaded'') \<or>
    res = None \<and> a = pc_start_slot c \<and> e = pc_end_slot c"
proof -
  have nd: "CHR ''.'' \<notin> set (pc_base c)" using wf base_slots_no_dot by (simp add: chunk_wf_def)
  let ?p = "pc_base c @ ''.uploaded.partial''" and ?m = "pc_base c @ ''.uploaded''"
  have ops: "marker_ops c = [CreateFile ?p, SyncFile ?p, RenameFile ?p ?m]"
    using nd by (simp add: marker_ops_def with_extension_no_dot Let_def)
  have ne: "chunk_file a e ''uploaded'' \<noteq> ?p"
  proof
    assume "chunk_file a e ''uploaded'' = ?p"
    then have "split_once (CHR ''.'') (chunk_file a e ''uploaded'') = split_once (CHR ''.'') (pc_base c @ (CHR ''.'') # ''uploaded.partial'')"
      by simp
    then show False using nd by (simp del: append_Cons)
  qed
  have eq: "chunk_file a e ''uploaded'' = ?m \<Longrightarrow> a = pc_start_slot c \<and> e = pc_end_slot c"
  proof -
    assume "chunk_file a e ''uploaded'' = ?m"
    then have "stem a e = pc_base c" by (simp add: chunk_file_def)
    with wf show ?thesis by (metis base_slots_stem chunk_wf_def)
  qed
  from r consider "d' = d" | "d' = create_file ?p \<lparr>content = [], mtime = now\<rparr> d"
    | "res = None" "rename_file ?p ?m (create_file ?p \<lparr>content = [], mtime = now\<rparr> d) = Some d'"
    unfolding ops by (auto split: if_splits option.splits)
  then show ?thesis
  proof cases
    case 1
    with m show ?thesis by simp
  next
    case 2
    with m ne show ?thesis by (simp add: exists_in_def)
  next
    case 3
    with m ne eq exists_rename [OF 3(2)] show ?thesis by (auto simp: exists_in_def)
  qed
qed

lemma upload_chunk_ok:
  assumes laws: "put_laws put obj" and c: "remote_complete obj s" and wf: "chunk_wf chunk"
    and u: "upload_chunk fails put now cfg chunk (d, s) = (r, d', s')"
  shows "remote_complete obj s' \<and> (\<exists>ks. grows obj s s' ks) \<and>
    (\<forall>a e. exists_in d' (chunk_file a e ''uploaded'') \<longrightarrow>
       exists_in d (chunk_file a e ''uploaded'') \<or>
       in_bucket obj s' (pc_stream chunk) a e {''zst'', ''idx'', ''meta.json''})"
proof -
  obtain r1 s1 where f: "upload_files put cfg chunk d [''zst'', ''idx'', ''meta.json''] s = (r1, s1)" by fastforce
  note f1 = upload_files_complete [OF laws c f]
  have s': "s' = s1" using u f unfolding upload_chunk_def by (auto split: sum.splits prod.splits option.splits)
  have "exists_in d (chunk_file a e ''uploaded'') \<or> in_bucket obj s' (pc_stream chunk) a e {''zst'', ''idx'', ''meta.json''}"
    if m: "exists_in d' (chunk_file a e ''uploaded'')" for a e
  proof (cases r1)
    case (Inl x)
    with u f have "d' = d" by (simp add: upload_chunk_def)
    with m show ?thesis by simp
  next
    case (Inr x)
    obtain res where "run_ops fails now (marker_ops chunk) d = (d', res)"
      using u f Inr unfolding upload_chunk_def by (auto split: prod.splits option.splits)
    from marker_exists [OF wf this m] f1 s' Inr show ?thesis by auto
  qed
  with f1 s' show ?thesis by blast
qed

text \<open>Eviction removes files only.\<close>

lemma exists_try_remove: "exists_in (fst (try_remove fails n d)) m \<Longrightarrow> exists_in d m"
  by (auto simp: try_remove_def exists_in_def split: if_splits)

lemma exists_evict: "exists_in (evict_siblings fails base exts d) m \<Longrightarrow> exists_in d m"
  by (induction exts arbitrary: d) (auto dest: exists_try_remove)

lemma exists_sweep_uploaded:
  "sweep_uploaded fails now retention ns (d, n) = (r, d') \<Longrightarrow> exists_in d' m \<Longrightarrow> exists_in d m"
proof (induction ns arbitrary: d n)
  case (Cons x ns)
  then consider k where "sweep_uploaded fails now retention ns (d, k) = (r, d')"
    | base exts k where "sweep_uploaded fails now retention ns (evict_siblings fails base exts d, k) = (r, d')"
    | "d' = d"
    by (auto simp del: evict_siblings.simps split: option.splits if_splits)
  then show ?case
  proof cases
    case 1
    from Cons.IH [OF this Cons.prems(2)] show ?thesis .
  next
    case 2
    from exists_evict [OF Cons.IH [OF this Cons.prems(2)]] show ?thesis .
  qed (use Cons.prems in simp)
qed simp

lemma exists_sweep_streams:
  "sweep_retention_streams fails now retention sts (nvme, n) = (r, nvme') \<Longrightarrow> nvme' st = Some d' \<Longrightarrow>
   exists_in d' m \<Longrightarrow> \<exists>d. nvme st = Some d \<and> exists_in d m"
proof (induction sts arbitrary: nvme n)
  case (Cons x sts)
  show ?case
  proof (cases "nvme x")
    case None
    with Cons show ?thesis by simp
  next
    case (Some dx)
    obtain r1 d1 where s: "sweep_uploaded fails now retention (map fst dx) (dx, n) = (r1, d1)" by fastforce
    note ex = exists_sweep_uploaded [OF s]
    have "\<exists>d. (nvme(x := Some d1)) st = Some d \<and> exists_in d m"
    proof (cases r1)
      case (Inl e)
      with Cons.prems Some s show ?thesis by auto
    next
      case (Inr k)
      with Cons.prems(1) Some s have "sweep_retention_streams fails now retention sts (nvme(x := Some d1), k) = (r, nvme')" by simp
      from Cons.IH [OF this Cons.prems(2,3)] show ?thesis .
    qed
    then show ?thesis using ex Some by (auto split: if_splits)
  qed
qed simp

definition uploader_inv :: "'s objects \<Rightarrow> store \<times> 's \<Rightarrow> bool" where
  "uploader_inv obj w \<longleftrightarrow> remote_complete obj (snd w) \<and> marked obj w"

lemma upload_all_inv:
  "put_laws put obj \<Longrightarrow> \<forall>c \<in> set cs. chunk_wf c \<Longrightarrow> uploader_inv obj (nvme, s) \<Longrightarrow>
   upload_all fails put now cfg cs (nvme, s) = (n, w') \<Longrightarrow> uploader_inv obj w'"
proof (induction cs arbitrary: nvme s n)
  case (Cons c cs)
  let ?d = "case nvme (pc_stream c) of Some d \<Rightarrow> d | None \<Rightarrow> []"
  obtain r d1 s1 where u: "upload_chunk fails put now cfg c (?d, s) = (r, d1, s1)" by (metis surj_pair)
  obtain n1 w1 where rec: "upload_all fails put now cfg cs (nvme(pc_stream c := Some d1), s1) = (n1, w1)" by (metis surj_pair)
  have w': "w' = w1" using Cons.prems(4) u rec by simp
  have rc: "remote_complete obj s" and mk: "marked obj (nvme, s)" using Cons.prems(3) by (simp_all add: uploader_inv_def)
  note u1 = upload_chunk_ok [OF Cons.prems(1) rc _ u]
  have wf: "chunk_wf c" using Cons.prems(2) by simp
  from u1 [OF wf] obtain ks where g: "grows obj s s1 ks" by blast
  have "in_bucket obj s1 st a e {''zst'', ''idx'', ''meta.json''}"
    if "(nvme(pc_stream c := Some d1)) st = Some d" "exists_in d (chunk_file a e ''uploaded'')" for st d a e
  proof (cases "st = pc_stream c")
    case False
    with that mk have "in_bucket obj s st a e {''zst'', ''idx'', ''meta.json''}" by (auto simp: marked_def)
    then show ?thesis by (rule in_bucket_grows [OF g])
  next
    case True
    with that u1 [OF wf] have "exists_in ?d (chunk_file a e ''uploaded'') \<or>
        in_bucket obj s1 st a e {''zst'', ''idx'', ''meta.json''}" by auto
    moreover have "in_bucket obj s st a e {''zst'', ''idx'', ''meta.json''}" if "exists_in ?d (chunk_file a e ''uploaded'')"
      using that mk True by (auto simp: marked_def exists_in_def split: option.splits)
    ultimately show ?thesis using in_bucket_grows [OF g] by blast
  qed
  then have "uploader_inv obj (nvme(pc_stream c := Some d1), s1)"
    using u1 [OF wf] by (auto simp: uploader_inv_def marked_def)
  from Cons.IH [OF Cons.prems(1) _ this rec [folded w']] Cons.prems(2) show ?case by simp
qed simp

lemma uploader_cycle_inv:
  assumes laws: "\<And>put. r2 = Some put \<Longrightarrow> put_laws put obj" and inv: "uploader_inv obj w"
  shows "uploader_inv obj (snd (uploader_cycle fails r2 now cfg w))"
proof (cases r2)
  case None
  with inv show ?thesis by (simp add: uploader_cycle_def)
next
  case (Some put)
  obtain nvme s where w: "w = (nvme, s)" by fastforce
  obtain r nvme' where sw: "uploader_sweep_retention fails now (u_local_retention_hours cfg) nvme = (r, nvme')" by fastforce
  obtain n w' where u: "upload_all fails put now cfg (scan_pending nvme) (nvme', s) = (n, w')" by (metis surj_pair)
  have "uploader_inv obj (nvme', s)"
    using inv exists_sweep_streams [OF sw [unfolded uploader_sweep_retention_def]] w
    unfolding uploader_inv_def marked_def by (metis fst_conv snd_conv)
  from upload_all_inv [OF laws [OF Some] _ this u] scan_pending_wf have "uploader_inv obj w'" by blast
  then show ?thesis by (simp add: uploader_cycle_def Some w sw u)
qed

lemma uploader_run_inv:
  assumes "\<And>put. r2 = Some put \<Longrightarrow> put_laws put obj"
  shows "uploader_inv obj w \<Longrightarrow> uploader_inv obj (uploader_run fails r2 cfg wakes w)"
proof (induction wakes arbitrary: w)
  case (Cons now wakes)
  from Cons.IH [OF uploader_cycle_inv [OF assms Cons.prems]] show ?case by simp
qed simp

section \<open>Eviction\<close>

text \<open>
  Only files of a chunk whose marker is older than the retention disappear. The names are
  those of chunks, so the base of a marker has no dot.
\<close>

definition plain_markers :: "dir \<Rightarrow> bool" where
  "plain_markers d \<longleftrightarrow> (\<forall>base. exists_in d (base @ ''.uploaded'') \<longrightarrow> CHR ''.'' \<notin> set base)"

lemma map_of_evict_Some: "map_of (evict_siblings fails base exts d) m = Some f \<Longrightarrow> map_of d m = Some f"
  by (induction exts arbitrary: d) (fastforce simp: try_remove_def split: if_splits)+

lemma evict_siblings_keeps:
  "\<forall>x \<in> set exts. m \<noteq> with_extension base x \<Longrightarrow> map_of (evict_siblings fails base exts d) m = map_of d m"
  by (induction exts arbitrary: d) (auto simp: try_remove_def split: if_splits)

definition expired :: "nat \<Rightarrow> nat \<Rightarrow> fsfile \<Rightarrow> bool" where
  "expired now retention f \<longleftrightarrow> mtime f \<le> now \<and> now - mtime f > retention"

lemma sweep_uploaded_removes:
  assumes "sweep_uploaded fails now retention ns (d, n) = (r, d')" and "plain_markers d" and "map_of d' m \<noteq> map_of d m"
  shows "\<exists>base x f. m = base @ ''.'' @ x \<and> x \<in> {''zst'', ''idx'', ''meta.json'', ''uploaded''} \<and>
    map_of d (base @ ''.uploaded'') = Some f \<and> expired now retention f"
  using assms
proof (induction ns arbitrary: d n)
  case (Cons y ns)
  show ?case
  proof (cases "\<exists>base f. y = base @ ''.uploaded'' \<and> map_of d y = Some f \<and> expired now retention f")
    case False
    with Cons.prems have "sweep_uploaded fails now retention ns (d, n) = (r, d') \<or> d' = d"
      by (auto simp: strip_suffix_Some expired_def split: option.splits if_splits)
    with Cons.IH [OF _ Cons.prems(2,3)] Cons.prems(3) show ?thesis by auto
  next
    case True
    then obtain base f where y: "y = base @ ''.uploaded''" "map_of d y = Some f" "expired now retention f" by blast
    let ?x = "[''zst'', ''idx'', ''meta.json'', ''uploaded'']"
    let ?d1 = "evict_siblings fails base ?x d"
    have s: "sweep_uploaded fails now retention ns (?d1, n + 1) = (r, d')"
      using Cons.prems(1) y by (auto simp: expired_def)
    have nd: "CHR ''.'' \<notin> set base" using Cons.prems(2) y by (auto simp: plain_markers_def exists_in_def)
    have p1: "plain_markers ?d1" using Cons.prems(2) exists_evict unfolding plain_markers_def by blast
    show ?thesis
    proof (cases "map_of ?d1 m = map_of d m")
      case False
      then obtain x where x: "x \<in> set ?x" "m = with_extension base x"
        using evict_siblings_keeps [of ?x m base fails d] by blast
      then have "m = base @ ''.'' @ x" using with_extension_no_dot [OF nd] by simp
      moreover have "x \<in> {''zst'', ''idx'', ''meta.json'', ''uploaded''}" using x(1) by simp
      moreover have "map_of d (base @ ''.uploaded'') = Some f" using y(1,2) by simp
      ultimately show ?thesis using y(3) by blast
    next
      case same: True
      with Cons.prems(3) have "map_of d' m \<noteq> map_of ?d1 m" by simp
      from Cons.IH [OF s p1 this] obtain base' x' f' where
        b': "m = base' @ ''.'' @ x'" "x' \<in> {''zst'', ''idx'', ''meta.json'', ''uploaded''}"
          "map_of ?d1 (base' @ ''.uploaded'') = Some f'" "expired now retention f'" by blast
      have "map_of d (base' @ ''.uploaded'') = Some f'"
        using b'(3) by (rule map_of_evict_Some)
      with b' show ?thesis by blast
    qed
  qed
qed simp

lemma sweep_streams_removes:
  "sweep_retention_streams fails now retention sts (nvme, n) = (r, nvme') \<Longrightarrow> distinct sts \<Longrightarrow>
   nvme st = Some d \<Longrightarrow> plain_markers d \<Longrightarrow>
   \<exists>d'. nvme' st = Some d' \<and>
     (\<forall>m. map_of d' m \<noteq> map_of d m \<longrightarrow>
        (\<exists>base x f. m = base @ ''.'' @ x \<and> x \<in> {''zst'', ''idx'', ''meta.json'', ''uploaded''} \<and>
           map_of d (base @ ''.uploaded'') = Some f \<and> expired now retention f))"
proof (induction sts arbitrary: nvme n)
  case (Cons x sts)
  show ?case
  proof (cases "nvme x")
    case None
    with Cons show ?thesis by simp
  next
    case (Some dx)
    obtain r1 d1 where s: "sweep_uploaded fails now retention (map fst dx) (dx, n) = (r1, d1)" by fastforce
    show ?thesis
    proof (cases "x = st")
      case True
      then have dx: "dx = d" using Some Cons.prems(3) by simp
      have keep: "sweep_retention_streams fails now retention sts (nv, k) = (r0, nv') \<Longrightarrow> st \<notin> set sts \<Longrightarrow> nv' st = nv st"
        for nv k r0 nv'
      proof (induction sts arbitrary: nv k)
        case (Cons y ys)
        then show ?case by (auto split: option.splits prod.splits sum.splits)
      qed simp
      have "nvme' st = Some d1"
        using Cons.prems(1,2) Some s True
        by (auto split: sum.splits dest!: keep)
      with sweep_uploaded_removes [OF s [unfolded dx] Cons.prems(4)] show ?thesis by blast
    next
      case False
      with Cons.prems(1) Some s have "(\<exists>k. sweep_retention_streams fails now retention sts (nvme(x := Some d1), k) = (r, nvme'))
          \<or> nvme' = nvme(x := Some d1)" by (auto split: sum.splits)
      then show ?thesis
      proof
        assume "\<exists>k. sweep_retention_streams fails now retention sts (nvme(x := Some d1), k) = (r, nvme')"
        then obtain k where "sweep_retention_streams fails now retention sts (nvme(x := Some d1), k) = (r, nvme')" ..
        from Cons.IH [OF this] Cons.prems(2-4) False show ?thesis by simp
      next
        assume "nvme' = nvme(x := Some d1)"
        then show ?thesis using False Cons.prems(3) by simp
      qed
    qed
  qed
qed auto

text \<open>What the sweep takes from the disk is in the bucket.\<close>

lemma evicted_in_bucket:
  assumes inv: "uploader_inv obj (nvme, s)" and d: "nvme st = Some d" and plain: "plain_markers d"
    and sw: "uploader_sweep_retention fails now hours nvme = (r, nvme')"
    and gone: "\<exists>d'. nvme' st = Some d' \<and> map_of d' (chunk_file a e x) \<noteq> map_of d (chunk_file a e x)"
  shows "in_bucket obj s st a e {''zst'', ''idx'', ''meta.json''} \<and>
    (\<exists>f. map_of d (chunk_file a e ''uploaded'') = Some f \<and> expired now (retention_ns hours) f)"
proof -
  obtain base y f where b: "chunk_file a e x = base @ ''.'' @ y" "y \<in> {''zst'', ''idx'', ''meta.json'', ''uploaded''}"
      "map_of d (base @ ''.uploaded'') = Some f" "expired now (retention_ns hours) f"
    using sweep_streams_removes [OF sw [unfolded uploader_sweep_retention_def] distinct_all_streams d plain] gone by auto
  have "CHR ''.'' \<notin> set base" using plain b(3) by (auto simp: plain_markers_def exists_in_def)
  then have "split_once (CHR ''.'') (base @ (CHR ''.'') # y) = Some (base, y)" by simp
  with b(1) have "base = stem a e"
    by (metis append_Cons append_Nil option.inject prod.inject split_chunk_file)
  then have m: "map_of d (chunk_file a e ''uploaded'') = Some f" using b(3) by (simp add: chunk_file_def)
  then have "in_bucket obj s st a e {''zst'', ''idx'', ''meta.json''}"
    using inv d by (auto simp: uploader_inv_def marked_def exists_in_def)
  with m b(4) show ?thesis by blast
qed

section \<open>Disk usage\<close>

lemma unat_percent: "x \<le> 100 \<Longrightarrow> unat (ucast x :: u8) = unat (x :: u64)"
proof -
  assume "x \<le> 100"
  then have "unat x \<le> 100" by (simp add: word_le_nat_alt)
  then show ?thesis by (simp add: unsigned_ucast_eq take_bit_nat_eq_self)
qed

lemma disk_usage_value:
  fixes blocks bavail :: u64
  assumes "blocks \<noteq> 0" and "bavail \<le> blocks" and "unat blocks * 100 < 2 ^ 64"
  shows "unat (((blocks - bavail) * 100) div blocks) = (unat blocks - unat bavail) * 100 div unat blocks"
proof -
  have "unat (blocks - bavail) = unat blocks - unat bavail" using assms(2) by (rule unat_sub)
  moreover have "(unat blocks - unat bavail) * 100 < 2 ^ 64" using assms(3) by (simp add: diff_mult_distrib)
  ultimately have "unat ((blocks - bavail) * 100) = (unat blocks - unat bavail) * 100"
    using unat_mult_lem [of "blocks - bavail" "100 :: u64", THEN iffD1] by simp
  then show ?thesis by (simp add: unat_div)
qed

section \<open>Properties\<close>

text \<open>The upload of a file is attempted at most as often as configured, with delays that double
  from the initial one between the attempts; it succeeds only with an attempt whose put succeeded;
  with no attempts configured it fails without touching the bucket; and a file that cannot be
  read uses up all attempts and every delay.\<close>

theorem upload_retry_schedule:
  assumes "put_with_retry put key body cfg s = (r, s', delays)"
  shows "delays = map (\<lambda>n. u_retry_initial_delay_ms cfg * 2 ^ n) [0..<length delays] \<and>
    (if u_retry_attempts cfg = 0 then r = Inl NoRetryAttempts \<and> s' = s \<and> delays = []
     else r \<noteq> Inl NoRetryAttempts \<and> length delays < unat (u_retry_attempts cfg)) \<and>
    (r = Inr () \<longrightarrow> (\<exists>s0 b. body = Some b \<and> put key b s0 = (True, s'))) \<and>
    (body = None \<and> u_retry_attempts cfg \<noteq> 0 \<longrightarrow>
       r = Inl (GaveUp (PutFailed key)) \<and> length delays = unat (u_retry_attempts cfg) - 1)"
proof -
  let ?n = "unat (u_retry_attempts cfg)"
  have n0: "u_retry_attempts cfg = 0 \<longleftrightarrow> ?n = 0" by (simp add: unat_eq_0)
  note p = assms [unfolded put_with_retry_def]
  have spec: "(\<forall>v. r = Inr v \<longrightarrow> (\<exists>s0. True \<and> put_file put key body s0 = (Inr v, s'))) \<and>
      delays = map (backoff (u_retry_initial_delay_ms cfg)) [0..<0 + length delays] \<and>
      (0 < ?n \<longrightarrow> 0 + length delays < ?n) \<and> (r = Inl NoRetryAttempts \<longleftrightarrow> ?n \<le> 0)"
    using retry_spec [where I = "\<lambda>_. True", OF p] by blast
  have fail: "r = Inl (GaveUp (PutFailed key)) \<and> length delays = ?n - 1" if b: "body = None" and n: "?n \<noteq> 0"
  proof -
    have "\<exists>s'. put_file put key body s = (Inl (PutFailed key), s')" for s by (simp add: put_file_def b)
    from retry_all_fail [of 0 ?n "put_file put key body" "PutFailed key" "u_retry_initial_delay_ms cfg" s, OF _ this]
    obtain s2 where "retry (put_file put key body) (u_retry_initial_delay_ms cfg) ?n 0 s =
        (Inl (GaveUp (PutFailed key)), s2, map (backoff (u_retry_initial_delay_ms cfg)) [0..<?n - 1])"
      using n by auto
    with p show ?thesis by auto
  qed
  have zero: "?n = 0 \<Longrightarrow> s' = s \<and> delays = []" using p by (simp add: retry_step)
  have succ: "\<exists>s0 b. body = Some b \<and> put key b s0 = (True, s')" if "r = Inr ()"
  proof -
    from spec that obtain s0 where "put_file put key body s0 = (Inr (), s')" by blast
    then show ?thesis by (auto simp: put_file_def split: option.splits prod.splits if_splits)
  qed
  have "delays = map (\<lambda>n. u_retry_initial_delay_ms cfg * 2 ^ n) [0..<length delays]"
    using spec by (simp add: backoff_def [abs_def])
  with spec fail zero succ show ?thesis by (auto simp: n0)
qed

definition example_uploader :: uploader_config where
  "example_uploader = default_uploader\<lparr>u_retry_attempts := 3, u_retry_initial_delay_ms := 100, u_local_retention_hours := 1\<rparr>"

lemma upload_retry_schedule_witness:
  "put_with_retry list_put ''k'' (Some [1]) example_uploader ([], [Some False, None]) = (Inr (), ([(''k'', [1])], []), [100, 200]) \<and>
   length [100, 200 :: u64] < unat (u_retry_attempts example_uploader)"
proof -
  have r: "put_with_retry list_put ''k'' (Some [1]) example_uploader ([], [Some False, None]) =
      (Inr (), ([(''k'', [1])], []), [100, 200])"
    by (simp add: put_with_retry_def example_uploader_def retry.simps put_file_def backoff_def)
  from upload_retry_schedule [OF r] r show ?thesis by (simp add: example_uploader_def)
qed

text \<open>C10: The loop of the uploader, whatever file operations and puts fail, for any number of cycles,
  keeps two promises to the readers of the bucket and to itself: the bucket never has the metadata
  object of a chunk without its data and index objects, and a chunk marked as uploaded on disk has
  all three objects in the bucket.\<close>

theorem uploader_keeps_bucket_complete:
  assumes "\<forall>put. r2 = Some put \<longrightarrow> put_laws put obj" and "remote_complete obj s" and "marked obj (nvme, s)"
  shows "remote_complete obj (snd (uploader_run fails r2 cfg wakes (nvme, s))) \<and>
    marked obj (uploader_run fails r2 cfg wakes (nvme, s))"
  using uploader_run_inv [of r2 obj "(nvme, s)" fails cfg wakes] assms by (auto simp: uploader_inv_def)

definition example_sealed :: store where
  "example_sealed st = (if st = Tx then Some (map (\<lambda>x. (chunk_file 10 20 x, \<lparr>content = [1], mtime = 0\<rparr>))
     [''zst'', ''idx'', ''meta.json'']) else None)"

lemma uploader_keeps_bucket_complete_witness:
  "marked list_obj (uploader_run (\<lambda>_. False) (Some list_put) example_uploader [5, 6] (example_sealed, ([], [Some False]))) \<and>
   remote_complete list_obj (snd (uploader_run (\<lambda>_. False) (Some list_put) example_uploader [5, 6] (example_sealed, ([], [Some False]))))"
proof -
  have "remote_complete list_obj ([], [Some False])"
    by (simp add: remote_complete_def in_bucket_def list_obj_def)
  moreover have "marked list_obj (example_sealed, ([], [Some False]))"
    by (simp add: marked_def example_sealed_def exists_in_def)
  moreover have "\<forall>put. Some list_put = Some put \<longrightarrow> put_laws put list_obj" using list_put_laws by simp
  ultimately show ?thesis
    using uploader_keeps_bucket_complete [where ?r2.0 = "Some list_put" and obj = list_obj and nvme = example_sealed and
        s = "([], [Some False])" and fails = "\<lambda>_. False" and cfg = example_uploader and wakes = "[5, 6]"] by metis
qed

text \<open>What retention deletes is safe in the bucket. When the two promises hold, every file of a
  chunk that a retention sweep changes or removes belongs to a chunk whose three objects are in the
  bucket, and whose marker is older than the configured hours.\<close>

theorem evicted_chunks_are_in_bucket:
  assumes "remote_complete obj s" and "marked obj (nvme, s)" and "nvme st = Some d" and "plain_markers d"
    and "uploader_sweep_retention fails now hours nvme = (r, nvme')" and "nvme' st = Some d'"
    and "map_of d' (chunk_file a e x) \<noteq> map_of d (chunk_file a e x)"
  shows "in_bucket obj s st a e {''zst'', ''idx'', ''meta.json''} \<and>
    (\<exists>f. map_of d (chunk_file a e ''uploaded'') = Some f \<and> mtime f \<le> now \<and> retention_ns hours < now - mtime f)"
  using evicted_in_bucket [of obj nvme s st d fails now hours r nvme' a e x] assms
  by (auto simp: uploader_inv_def expired_def)

definition example_uploaded :: dir where
  "example_uploaded = map (\<lambda>x. (chunk_file 10 20 x, \<lparr>content = [1], mtime = 0\<rparr>))
     [''zst'', ''idx'', ''meta.json'', ''uploaded'']"

lemma plain_markers_example: "plain_markers example_uploaded"
proof -
  have other: "base @ ''.uploaded'' \<noteq> chunk_file 10 20 x" if "x \<in> {''zst'', ''idx'', ''meta.json''}" for x base
  proof
    assume "base @ ''.uploaded'' = chunk_file 10 20 x"
    then have "last (base @ ''.uploaded'') = last (chunk_file 10 20 x)" by simp
    with that show False by (elim insertE emptyE) (simp_all add: chunk_file_def)
  qed
  have n: "n = chunk_file 10 20 ''uploaded''" if "n = base @ ''.uploaded''" "exists_in example_uploaded n" for n base
  proof -
    have "n \<in> chunk_file 10 20 ` {''zst'', ''idx'', ''meta.json'', ''uploaded''}"
      using that(2) unfolding exists_in_iff example_uploaded_def by auto
    with that(1) other show ?thesis by blast
  qed
  show ?thesis
    unfolding plain_markers_def
  proof (intro allI impI)
    fix base assume "exists_in example_uploaded (base @ ''.uploaded'')"
    from n [OF refl this] have "base = stem 10 20" by (simp add: chunk_file_def)
    then show "CHR ''.'' \<notin> set base" by simp
  qed
qed

lemma evicted_chunks_are_in_bucket_witness:
  "\<exists>r nvme' d'. uploader_sweep_retention (\<lambda>_. False) (10 ^ 13) 1 (\<lambda>st. if st = Tx then Some example_uploaded else None) = (r, nvme') \<and>
     nvme' Tx = Some d' \<and> map_of d' (chunk_file 10 20 ''zst'') = None \<and>
     in_bucket list_obj (map (\<lambda>x. (object_key Tx 10 20 x, [1])) [''zst'', ''idx'', ''meta.json''], []) Tx 10 20 {''zst'', ''idx'', ''meta.json''}"
proof -
  let ?nv = "\<lambda>st. if st = Tx then Some example_uploaded else None"
  let ?s = "(map (\<lambda>x. (object_key Tx 10 20 x, [1])) [''zst'', ''idx'', ''meta.json''], []) :: list_bucket"
  have rc: "remote_complete list_obj ?s" and mk: "marked list_obj (?nv, ?s)"
    by (auto simp: remote_complete_def marked_def in_bucket_def list_obj_def example_uploaded_def exists_in_def split: if_splits)
  have sx: "strip_suffix ''.uploaded'' (chunk_file 10 20 ''uploaded'') = Some (stem 10 20)"
    using strip_suffix_append [of "''.uploaded''" "stem 10 20"] by (simp add: chunk_file_def)
  have none: "strip_suffix ''.uploaded'' (chunk_file 10 20 x) = None" if "x \<in> {''zst'', ''idx'', ''meta.json''}" for x
    using that by (auto simp: strip_suffix_None chunk_file_def)
  obtain r nvme' where sw: "uploader_sweep_retention (\<lambda>_. False) (10 ^ 13) 1 ?nv = (r, nvme')" by fastforce
  then obtain d' where d': "nvme' Tx = Some d'" "map_of d' (chunk_file 10 20 ''zst'') = None"
    by (auto simp: uploader_sweep_retention_def all_streams_def example_uploaded_def sx none retention_ns_def NS_PER_SEC_def
        try_remove_def exists_in_def remove_file_def delete_conv' split: if_splits)
  have "map_of d' (chunk_file 10 20 ''zst'') \<noteq> map_of example_uploaded (chunk_file 10 20 ''zst'')"
    by (simp add: d'(2) example_uploaded_def)
  from evicted_chunks_are_in_bucket [OF rc mk _ plain_markers_example sw d'(1) this] sw d' show ?thesis by auto
qed

text \<open>The reported disk usage is a percentage: it never exceeds 100, and for a file system with no
  more available than total blocks, small enough that the product does not wrap, it is the rounded
  down share of the used blocks.\<close>

theorem disk_usage_is_percentage:
  assumes "disk_usage_pct (Some (blocks, bavail)) = Some p"
  shows "p \<le> 100 \<and>
    (blocks \<noteq> 0 \<and> bavail \<le> blocks \<and> unat blocks * 100 < 2 ^ 64 \<longrightarrow>
       unat p = (unat blocks - unat bavail) * 100 div unat blocks)"
proof (cases "blocks = 0")
  case True
  with assms show ?thesis by (simp add: disk_usage_pct_def)
next
  case False
  let ?x = "((blocks - bavail) * 100) div blocks"
  have p: "p = ucast (min ?x 100)" using assms False by (simp add: disk_usage_pct_def)
  have m: "min ?x 100 \<le> 100" by simp
  have "unat p \<le> 100" using unat_percent [OF m] m by (simp add: p word_le_nat_alt)
  then have "p \<le> 100" by (simp add: word_le_nat_alt)
  moreover have "unat p = (unat blocks - unat bavail) * 100 div unat blocks"
    if small: "bavail \<le> blocks" "unat blocks * 100 < 2 ^ 64"
  proof -
    have v: "unat ?x = (unat blocks - unat bavail) * 100 div unat blocks"
      using disk_usage_value [OF False small] .
    also have "\<dots> \<le> unat blocks * 100 div unat blocks" by (intro div_le_mono) simp
    also have "\<dots> = 100" using False by (simp add: unat_eq_0)
    finally have "?x \<le> 100" by (simp add: word_le_nat_alt)
    then show ?thesis using unat_percent [OF m] v by (simp add: p min_absorb1)
  qed
  ultimately show ?thesis by blast
qed

lemma disk_usage_is_percentage_witness:
  "disk_usage_pct (Some (200, 50)) = Some 75 \<and> (75 :: u8) \<le> 100"
  using disk_usage_is_percentage [of 200 50 75] by (simp add: disk_usage_pct_def)

end
