(* ===== verification/Lru.thy ===== *)
theory Lru
  imports Prelude
begin

text \<open>
  The byte-budgeted LRU cache that \<open>ChunkCache\<close> (\<open>sillage-reader/src/storage.rs\<close>) and
  \<open>IndexCache\<close> (\<open>sillage-reader/src/index.rs\<close>) implement with the same code: two hash maps,
  one from keys to cached values and one from keys to the tick of their last use, the sum of
  the sizes, and a tick counter. A hash map is an association list read with \<open>map_of\<close>; its
  order stands for the map's unspecified iteration order.

  A lookup takes the lock twice, once to probe and once to insert what was loaded in between
  without the lock. The two critical sections are separate definitions, so that any
  interleaving of several callers is a sequence of them.

  The abstract cache is the list of its entries from least to most recently used. The last
  section proves that the code refines it.
\<close>

section \<open>State and operations\<close>

record ('k, 'v) cache_inner =
  cmap :: "('k \<times> 'v) list"
  used :: u64
  tick :: u64
  last_used :: "('k \<times> u64) list"

definition cache_new :: "('k, 'v) cache_inner" where
  "cache_new = \<lparr>cmap = [], used = 0, tick = 0, last_used = []\<rparr>"

definition cache_len :: "('k, 'v) cache_inner \<Rightarrow> nat" where
  "cache_len c = length (cmap c)"

definition used_bytes :: "('k, 'v) cache_inner \<Rightarrow> u64" where
  "used_bytes c = used c"

text \<open>Bumping the recency of a key: the tick is read, then incremented.\<close>

definition touch :: "'k \<Rightarrow> ('k, 'v) cache_inner \<Rightarrow> ('k, 'v) cache_inner" where
  "touch k c = c\<lparr>tick := tick c + 1, last_used := AList.update k (tick c) (last_used c)\<rparr>"

text \<open>The first critical section: a hit bumps the key, a miss changes nothing.\<close>

definition cache_probe :: "'k \<Rightarrow> ('k, 'v) cache_inner \<Rightarrow> 'v option \<times> ('k, 'v) cache_inner" where
  "cache_probe k c =
     (case map_of (cmap c) k of
        Some v \<Rightarrow> (Some v, touch k c)
      | None \<Rightarrow> (None, c))"

text \<open>\<open>min_by_key\<close> on the ticks: the first entry that no later one undercuts.\<close>

fun min_tick :: "'k \<times> u64 \<Rightarrow> ('k \<times> u64) list \<Rightarrow> 'k \<times> u64" where
  "min_tick m [] = m"
| "min_tick m (y # ys) = min_tick (if snd y < snd m then y else m) ys"

fun min_by_tick :: "('k \<times> u64) list \<Rightarrow> 'k option" where
  "min_by_tick [] = None"
| "min_by_tick (x # xs) = Some (fst (min_tick x xs))"

definition cache_remove :: "('v \<Rightarrow> nat) \<Rightarrow> 'k \<Rightarrow> ('k, 'v) cache_inner \<Rightarrow> ('k, 'v) cache_inner" where
  "cache_remove weight k c =
     c\<lparr>cmap := AList.delete k (cmap c),
       last_used := AList.delete k (last_used c),
       used := (case map_of (cmap c) k of
                  Some v \<Rightarrow> used c - of_nat (weight v)
                | None \<Rightarrow> used c)\<rparr>"

lemma min_tick_in: "min_tick m xs \<in> set (m # xs)"
  by (induction m xs rule: min_tick.induct) auto

lemma min_tick_le: "y \<in> set (m # xs) \<Longrightarrow> snd (min_tick m xs) \<le> snd y"
  by (induction m xs arbitrary: y rule: min_tick.induct) (auto, force+)

lemma min_by_tick_in: "min_by_tick xs = Some k \<Longrightarrow> k \<in> fst ` set xs"
  using min_tick_in by (cases xs) fastforce+

text \<open>The eviction loop.\<close>

function evict :: "('v \<Rightarrow> nat) \<Rightarrow> u64 \<Rightarrow> ('k, 'v) cache_inner \<Rightarrow> ('k, 'v) cache_inner" where
  "evict weight budget c =
     (if budget < used c \<and> length (cmap c) > 1
      then (case min_by_tick (last_used c) of
              None \<Rightarrow> c
            | Some k \<Rightarrow> evict weight budget (cache_remove weight k c))
      else c)"
  by pat_completeness auto
termination
proof (relation "measure (\<lambda>(weight, budget, c). length (last_used c))")
  fix weight :: "'v \<Rightarrow> nat" and budget and c :: "('k, 'v) cache_inner" and k
  assume "min_by_tick (last_used c) = Some k"
  then have "k \<in> fst ` set (last_used c)" by (rule min_by_tick_in)
  then have "length (AList.delete k (last_used c)) < length (last_used c)"
    by (auto simp: AList.delete_eq intro!: length_filter_less)
  then show "((weight, budget, cache_remove weight k c), (weight, budget, c))
      \<in> measure (\<lambda>(weight, budget, c). length (last_used c))"
    by (simp add: cache_remove_def)
qed simp

declare evict.simps [simp del]

text \<open>
  The second critical section: a value another caller inserted meanwhile is returned and the
  loaded one dropped; otherwise the loaded one is inserted and older entries are evicted.
\<close>

definition cache_insert :: "('v \<Rightarrow> nat) \<Rightarrow> u64 \<Rightarrow> 'k \<Rightarrow> 'v \<Rightarrow> ('k, 'v) cache_inner
    \<Rightarrow> 'v \<times> ('k, 'v) cache_inner" where
  "cache_insert weight budget k v c =
     (case map_of (cmap c) k of
        Some existing \<Rightarrow> (existing, touch k c)
      | None \<Rightarrow>
          let c1 = touch k c;
              c2 = c1\<lparr>cmap := AList.update k v (cmap c1), used := used c1 + of_nat (weight v)\<rparr>
          in (v, evict weight budget c2))"

text \<open>Both sections around the load, as one call that is not interrupted.\<close>

definition get_or_load :: "('v \<Rightarrow> nat) \<Rightarrow> u64 \<Rightarrow> 'k \<Rightarrow> 'e + 'v \<Rightarrow> ('k, 'v) cache_inner
    \<Rightarrow> ('e + 'v) \<times> ('k, 'v) cache_inner" where
  "get_or_load weight budget k loaded c =
     (case cache_probe k c of
        (Some v, c') \<Rightarrow> (Inr v, c')
      | (None, c') \<Rightarrow>
          (case loaded of
             Inl e \<Rightarrow> (Inl e, c')
           | Inr v \<Rightarrow> (case cache_insert weight budget k v c' of (v', c'') \<Rightarrow> (Inr v', c''))))"

section \<open>Invariant\<close>

definition total :: "('v \<Rightarrow> nat) \<Rightarrow> ('k \<times> 'v) list \<Rightarrow> u64" where
  "total weight xs = sum_list (map (\<lambda>(k, v). of_nat (weight v)) xs)"

definition lru_inv :: "('v \<Rightarrow> nat) \<Rightarrow> ('k, 'v) cache_inner \<Rightarrow> bool" where
  "lru_inv weight c \<longleftrightarrow>
     distinct (map fst (cmap c)) \<and> distinct (map fst (last_used c)) \<and>
     fst ` set (cmap c) = fst ` set (last_used c) \<and>
     used c = total weight (cmap c) \<and>
     distinct (map snd (last_used c)) \<and>
     (\<forall>(k, t) \<in> set (last_used c). t < tick c)"

text \<open>What the cache holds comes from \<open>load\<close>.\<close>

definition coherent :: "('k \<Rightarrow> 'e + 'v) \<Rightarrow> ('k, 'v) cache_inner \<Rightarrow> bool" where
  "coherent load c \<longleftrightarrow> (\<forall>k v. map_of (cmap c) k = Some v \<longrightarrow> load k = Inr v)"

text \<open>The entries from least to most recently used.\<close>

definition by_tick :: "('k, 'v) cache_inner \<Rightarrow> ('k \<times> 'v) list" where
  "by_tick c = map (\<lambda>(k, t). (k, the (map_of (cmap c) k))) (sort_key snd (last_used c))"

section \<open>The abstract cache\<close>

fun trim :: "('v \<Rightarrow> nat) \<Rightarrow> u64 \<Rightarrow> ('k \<times> 'v) list \<Rightarrow> ('k \<times> 'v) list" where
  "trim weight budget (x # y # ys) =
     (if budget < total weight (x # y # ys) then trim weight budget (y # ys) else x # y # ys)"
| "trim weight budget xs = xs"

definition lru_spec_get :: "('v \<Rightarrow> nat) \<Rightarrow> u64 \<Rightarrow> 'k \<Rightarrow> 'e + 'v \<Rightarrow> ('k \<times> 'v) list
    \<Rightarrow> ('e + 'v) \<times> ('k \<times> 'v) list" where
  "lru_spec_get weight budget k loaded xs =
     (case map_of xs k of
        Some v \<Rightarrow> (Inr v, filter (\<lambda>x. fst x \<noteq> k) xs @ [(k, v)])
      | None \<Rightarrow>
          (case loaded of
             Inl e \<Rightarrow> (Inl e, xs)
           | Inr v \<Rightarrow> (Inr v, trim weight budget (xs @ [(k, v)]))))"

lemma trim_suffix: "\<exists>n. trim weight budget xs = drop n xs"
proof (induction weight budget xs rule: trim.induct)
  case (1 weight budget x y ys)
  show ?case
  proof (cases "budget < total weight (x # y # ys)")
    case True
    with "1.IH" obtain n where "trim weight budget (y # ys) = drop n (y # ys)" by blast
    with True show ?thesis by (intro exI [of _ "Suc n"]) simp
  next
    case False
    then show ?thesis by (intro exI [of _ 0]) simp
  qed
qed (auto intro: exI [of _ 0])

lemma trim_snoc: "\<exists>ys. trim weight budget (xs @ [x]) = ys @ [x]"
proof (induction xs)
  case (Cons a xs)
  then show ?case by (cases xs) auto
qed simp

lemma trim_bound: "total weight (trim weight budget xs) \<le> budget \<or> length (trim weight budget xs) \<le> 1"
  by (induction weight budget xs rule: trim.induct) auto

section \<open>Lemmas\<close>

lemma lru_inv_new [simp]: "lru_inv weight cache_new"
  by (simp add: lru_inv_def cache_new_def total_def)

lemma coherent_new [simp]: "coherent load cache_new"
  by (simp add: coherent_def cache_new_def)

lemma lru_invD:
  assumes "lru_inv weight c"
  shows "distinct (map fst (cmap c))" "distinct (map fst (last_used c))"
    "fst ` set (cmap c) = fst ` set (last_used c)" "used c = total weight (cmap c)"
    "distinct (map snd (last_used c))" "(k, t) \<in> set (last_used c) \<Longrightarrow> t < tick c"
  using assms by (auto simp: lru_inv_def)

lemma lru_invI:
  assumes "distinct (map fst (cmap c))" "distinct (map fst (last_used c))"
    "fst ` set (cmap c) = fst ` set (last_used c)" "used c = total weight (cmap c)"
    "distinct (map snd (last_used c))" "\<And>k t. (k, t) \<in> set (last_used c) \<Longrightarrow> t < tick c"
  shows "lru_inv weight c"
  using assms by (auto simp: lru_inv_def)

lemma fst_delete: "fst ` set (AList.delete k xs) = fst ` set xs - {k}"
  by (auto simp: delete_filter)

lemma lru_inv_length: "lru_inv weight c \<Longrightarrow> length (last_used c) = length (cmap c)"
  by (rule length_keys_eq) (auto simp: lru_inv_def)

lemma map_fst_by_tick: "map fst (by_tick c) = map fst (sort_key snd (last_used c))"
  by (simp add: by_tick_def case_prod_unfold)

lemma set_by_tick:
  fixes c :: "('k, 'v) cache_inner"
  assumes inv: "lru_inv weight c"
  shows "set (by_tick c) = set (cmap c)"
  proof (rule set_eqI)
    fix x :: "'k \<times> 'v"
    obtain k v where x: "x = (k, v)" by (cases x)
    have "x \<in> set (by_tick c) \<longleftrightarrow> k \<in> fst ` set (last_used c) \<and> v = the (map_of (cmap c) k)"
      by (force simp: by_tick_def x)
    also have "\<dots> \<longleftrightarrow> k \<in> fst ` set (cmap c) \<and> v = the (map_of (cmap c) k)"
      using lru_invD(3) [OF inv] by simp
    also have "\<dots> \<longleftrightarrow> map_of (cmap c) k = Some v"
      by (cases "map_of (cmap c) k") (auto simp: map_of_eq_None_iff weak_map_of_SomeI dest: map_of_SomeD intro: rev_image_eqI)
    also have "\<dots> \<longleftrightarrow> x \<in> set (cmap c)"
      using lru_invD(1) [OF inv] by (simp add: x)
    finally show "x \<in> set (by_tick c) \<longleftrightarrow> x \<in> set (cmap c)" .
  qed

lemma distinct_by_tick: "lru_inv weight c \<Longrightarrow> distinct (map fst (by_tick c))"
  by (simp add: map_fst_by_tick lru_inv_def distinct_map)

lemma total_by_tick: "lru_inv weight c \<Longrightarrow> total weight (by_tick c) = used c"
proof -
  assume inv: "lru_inv weight c"
  have "distinct (by_tick c)" and "distinct (cmap c)"
    using distinct_by_tick [OF inv] lru_invD(1) [OF inv] by (simp_all add: distinct_map)
  then show ?thesis
    by (simp add: lru_invD(4) [OF inv] total_def sum_list_distinct_conv_sum_set set_by_tick [OF inv])
qed

lemma length_by_tick: "lru_inv weight c \<Longrightarrow> length (by_tick c) = length (cmap c)"
  by (simp add: by_tick_def lru_inv_length)

lemma map_of_by_tick: "lru_inv weight c \<Longrightarrow> map_of (by_tick c) = map_of (cmap c)"
  using map_of_inject_set [of "by_tick c" "cmap c"]
  by (simp add: distinct_by_tick lru_invD(1) set_by_tick)

lemma distinct_ticks_update:
  assumes "distinct (map fst lu)" and "distinct (map snd lu)" and "\<And>k' t'. (k', t') \<in> set lu \<Longrightarrow> t' < (t :: u64)"
  shows "distinct (map snd (AList.update k t lu))"
proof -
  have "distinct (AList.update k t lu)"
    using distinct_update [OF assms(1), of k t] by (simp add: distinct_map)
  moreover have "inj_on snd (set (AList.update k t lu))"
    using assms(2) by (auto simp: set_update_distinct [OF assms(1)] distinct_map inj_on_def
        dest: assms(3))
  ultimately show ?thesis by (simp add: distinct_map)
qed

lemma sort_key_update:
  assumes "distinct (map fst lu)" and "distinct (map snd lu)" and "\<And>k' t'. (k', t') \<in> set lu \<Longrightarrow> t' < (t :: u64)"
  shows "sort_key snd (AList.update k t lu) = filter (\<lambda>x. fst x \<noteq> k) (sort_key snd lu) @ [(k, t)]"
proof (rule sort_key_unique)
  have "\<And>x. x \<in> set lu \<Longrightarrow> snd x < t" using assms(3) by (metis prod.collapse)
  then have less: "\<forall>x \<in> set (filter (\<lambda>x. fst x \<noteq> k) (sort_key snd lu)). snd x < t" by simp
  show "sorted (map snd (filter (\<lambda>x. fst x \<noteq> k) (sort_key snd lu) @ [(k, t)]))"
    using less by (auto simp: sorted_append filter_sort_key intro: less_imp_le)
  show "distinct (map snd (filter (\<lambda>x. fst x \<noteq> k) (sort_key snd lu) @ [(k, t)]))"
    using less assms(2) by (auto simp: distinct_map inj_on_def dest: assms(3))
  show "distinct (map snd (AList.update k t lu))"
    using assms by (rule distinct_ticks_update)
  show "set (AList.update k t lu) = set (filter (\<lambda>x. fst x \<noteq> k) (sort_key snd lu) @ [(k, t)])"
    by (auto simp: set_update_distinct [OF assms(1)])
qed

lemma by_tick_touch:
  assumes "lru_inv weight c" and "map_of (cmap c) k = Some v"
  shows "by_tick (touch k c) = filter (\<lambda>x. fst x \<noteq> k) (by_tick c) @ [(k, v)]"
  using assms(2) lru_invD [OF assms(1)]
  by (simp add: by_tick_def touch_def sort_key_update filter_map o_def case_prod_unfold)

lemma lru_inv_touch:
  assumes inv: "lru_inv weight c" and hit: "k \<in> fst ` set (cmap c)" and t: "tick c \<noteq> - 1"
  shows "lru_inv weight (touch k c)"
proof -
  note lru_invD [OF inv]
  moreover have "distinct (map snd (AList.update k (tick c) (last_used c)))"
    using lru_invD [OF inv] by (intro distinct_ticks_update) blast+
  ultimately show ?thesis
    using hit t word_less_inc [OF t]
    by (auto simp: lru_inv_def touch_def distinct_update set_update_distinct
        intro: less_trans)
qed

lemma lru_inv_remove:
  assumes inv: "lru_inv weight c" and k: "map_of (cmap c) k = Some v"
  shows "lru_inv weight (cache_remove weight k c)"
proof -
  have kv: "(k, v) \<in> set (cmap c)" using k by (rule map_of_SomeD)
  have "distinct (cmap c)" using lru_invD(1) [OF inv] by (simp add: distinct_map)
  moreover have "{x \<in> set (cmap c). fst x \<noteq> k} = set (cmap c) - {(k, v)}"
    using k by (auto dest: map_of_is_SomeI [OF lru_invD(1) [OF inv]])
  ultimately have "total weight (AList.delete k (cmap c)) = total weight (cmap c) - of_nat (weight v)"
    using kv by (simp add: total_def sum_list_distinct_conv_sum_set set_delete_filter
        delete_filter sum_diff1)
  then have u: "used (cache_remove weight k c) = total weight (cmap (cache_remove weight k c))"
    using k lru_invD(4) [OF inv] by (simp add: cache_remove_def)
  show ?thesis
  proof (rule lru_invI)
    show "fst ` set (cmap (cache_remove weight k c)) = fst ` set (last_used (cache_remove weight k c))"
      by (simp add: cache_remove_def fst_delete lru_invD(3) [OF inv])
    show "\<And>k' t. (k', t) \<in> set (last_used (cache_remove weight k c)) \<Longrightarrow> t < tick (cache_remove weight k c)"
      using lru_invD(6) [OF inv] by (auto simp: cache_remove_def delete_filter)
  qed (use u lru_invD [OF inv] in \<open>simp_all add: cache_remove_def delete_filter distinct_map_filter\<close>)
qed

lemma by_tick_remove: "by_tick (cache_remove weight k c) = filter (\<lambda>x. fst x \<noteq> k) (by_tick c)"
proof -
  have "map_of (filter (\<lambda>x. fst x \<noteq> k) (cmap c)) k' = map_of (cmap c) k'" if "k' \<noteq> k" for k'
    using that by (simp add: delete_conv' flip: delete_filter)
  then show ?thesis
    by (auto simp: by_tick_def cache_remove_def delete_filter filter_sort_key [symmetric]
        filter_map o_def case_prod_unfold)
qed

lemma min_by_tick_first:
  assumes inv: "lru_inv weight c" and bt: "by_tick c = x # xs"
  shows "min_by_tick (last_used c) = Some (fst x)"
proof -
  let ?lu = "last_used c"
  obtain y ys where lu: "?lu = y # ys"
    using bt by (cases ?lu) (auto simp: by_tick_def)
  obtain z zs where sk: "sort_key snd ?lu = z # zs"
    using lu by (cases "sort_key snd ?lu") (metis length_sort list.distinct(1) length_0_conv, simp)
  have z: "fst z = fst x" using bt sk by (auto simp: by_tick_def case_prod_unfold)
  have zin: "z \<in> set ?lu" using sk by (metis list.set_intros(1) set_sort)
  have min: "min_tick y ys \<in> set ?lu" unfolding lu by (rule min_tick_in)
  have "snd (min_tick y ys) \<le> snd z" using zin unfolding lu by (rule min_tick_le)
  moreover have "snd z \<le> snd (min_tick y ys)"
  proof -
    have "sorted (map snd (z # zs))" using sk sorted_sort_key [of snd ?lu] by simp
    moreover have "min_tick y ys \<in> set (z # zs)" using min sk by (metis set_sort)
    ultimately show ?thesis by auto
  qed
  ultimately have "snd z = snd (min_tick y ys)" by simp
  then have "z = min_tick y ys"
    using min zin lru_invD(5) [OF inv] by (auto simp: distinct_map inj_on_def)
  with lu z show ?thesis by simp
qed

lemma evict_refines:
  "lru_inv weight c \<Longrightarrow>
   lru_inv weight (evict weight budget c) \<and>
   by_tick (evict weight budget c) = trim weight budget (by_tick c)"
proof (induction weight budget c rule: evict.induct)
  case (1 weight budget c)
  note inv = "1.prems"
  show ?case
  proof (cases "budget < used c \<and> length (cmap c) > 1")
    case False
    have "trim weight budget (by_tick c) = by_tick c"
      using False length_by_tick [OF inv] total_by_tick [OF inv]
      by (cases "by_tick c" rule: remdups_adj.cases) (auto simp: linorder_not_less)
    with False inv show ?thesis by (auto simp: evict.simps [of weight budget c])
  next
    case True
    then obtain x y ys where bt: "by_tick c = x # y # ys"
      using length_by_tick [OF inv] by (cases "by_tick c" rule: remdups_adj.cases) auto
    have min: "min_by_tick (last_used c) = Some (fst x)"
      using inv bt by (rule min_by_tick_first)
    have "fst x \<in> fst ` set (cmap c)"
      using set_by_tick [OF inv] bt by (metis image_eqI list.set_intros(1))
    then obtain v where v: "map_of (cmap c) (fst x) = Some v"
      by (metis map_of_eq_None_iff not_None_eq)
    have rest: "by_tick (cache_remove weight (fst x) c) = y # ys"
      using distinct_by_tick [OF inv] by (auto simp: by_tick_remove bt filter_id_conv rev_image_eqI)
    have over: "budget < total weight (x # y # ys)"
      using True total_by_tick [OF inv] bt by simp
    have step: "evict weight budget c = evict weight budget (cache_remove weight (fst x) c)"
      using True min by (simp add: evict.simps [of weight budget c])
    from "1.IH" [OF True min lru_inv_remove [OF inv v]] over rest
    show ?thesis by (simp add: step bt)
  qed
qed

lemma lru_inv_add:
  fixes v :: 'v and c :: "('k, 'v) cache_inner"
  assumes inv: "lru_inv weight c" and new: "map_of (cmap c) k = None" and t: "tick c \<noteq> - 1"
  defines "c2 \<equiv> (touch k c)\<lparr>cmap := AList.update k v (cmap c), used := used c + of_nat (weight v)\<rparr>"
  shows "lru_inv weight c2" and "by_tick c2 = by_tick c @ [(k, v)]"
proof -
  have k: "k \<notin> fst ` set (cmap c)" "k \<notin> fst ` set (last_used c)"
    using new lru_invD(3) [OF inv] by (simp_all add: map_of_eq_None_iff)
  have lu: "last_used c2 = last_used c @ [(k, tick c)]" and cm: "cmap c2 = cmap c @ [(k, v)]"
    using k by (simp_all add: c2_def touch_def update_new)
  have us: "used c2 = used c + of_nat (weight v)" "tick c2 = tick c + 1"
    by (simp_all add: c2_def touch_def)
  have old: "t < tick c" if "(k', t) \<in> set (last_used c)" for k' t
    using lru_invD(6) [OF inv] that .
  show "lru_inv weight c2"
  proof (rule lru_invI)
    show "\<And>k' t. (k', t) \<in> set (last_used c2) \<Longrightarrow> t < tick c2"
      using old word_less_inc [OF t] by (fastforce simp: lu us intro: less_trans)
    have "tick c \<notin> snd ` set (last_used c)"
      using old by (metis imageE less_irrefl prod.collapse)
    then show "distinct (map snd (last_used c2))"
      using lru_invD(5) [OF inv] by (simp add: lu)
    show "used c2 = total weight (cmap c2)"
      by (simp add: us cm total_def lru_invD(4) [OF inv])
  qed (use lru_invD(1-3) [OF inv] k in \<open>simp_all add: lu cm\<close>)
  have "AList.update k (tick c) (last_used c) = last_used c @ [(k, tick c)]"
    using k by (simp add: update_new)
  moreover have "filter (\<lambda>x. fst x \<noteq> k) (sort_key snd (last_used c)) = sort_key snd (last_used c)"
    using k by (auto simp: filter_id_conv rev_image_eqI)
  moreover have "sort_key snd (AList.update k (tick c) (last_used c)) =
      filter (\<lambda>x. fst x \<noteq> k) (sort_key snd (last_used c)) @ [(k, tick c)]"
    by (rule sort_key_update [OF lru_invD(2) [OF inv] lru_invD(5) [OF inv]]) (rule old)
  ultimately have sk: "sort_key snd (last_used c2) = sort_key snd (last_used c) @ [(k, tick c)]"
    by (simp add: lu)
  have other: "map_of (cmap c2) k' = map_of (cmap c) k'" if "k' \<in> fst ` set (last_used c)" for k'
  proof -
    from that k(2) have "k' \<noteq> k" by auto
    then show ?thesis by (simp add: cm map_of_append map_add_def split: option.splits)
  qed
  have "map_of (cmap c2) k = Some v"
    using new by (simp add: cm map_add_def)
  moreover have "map (\<lambda>(k', t). (k', the (map_of (cmap c2) k'))) (sort_key snd (last_used c)) = by_tick c"
    using other by (auto simp: by_tick_def intro!: map_cong) (metis fst_conv image_eqI)
  ultimately show "by_tick c2 = by_tick c @ [(k, v)]"
    by (simp add: by_tick_def [of c2] sk)
qed

section \<open>The code refines the abstract cache\<close>

lemma cache_insert_refines:
  assumes inv: "lru_inv weight c" and t: "tick c \<noteq> - 1"
    and r: "cache_insert weight budget k v c = (v', c')"
  shows "lru_inv weight c' \<and> (Inr v', by_tick c') = lru_spec_get weight budget k (Inr v) (by_tick c)"
  proof (cases "map_of (cmap c) k")
    case None
    with r show ?thesis
      using evict_refines [OF lru_inv_add(1) [OF inv None t, of v], of budget]
        lru_inv_add(2) [OF inv None t, of v]
      by (auto simp: cache_insert_def Let_def lru_spec_get_def map_of_by_tick [OF inv] touch_def)
  next
    case (Some w)
    then have "k \<in> fst ` set (cmap c)" by (metis map_of_eq_None_iff not_None_eq)
    with Some r show ?thesis
      using lru_inv_touch [OF inv _ t] by_tick_touch [OF inv Some]
      by (auto simp: cache_insert_def lru_spec_get_def map_of_by_tick [OF inv])
  qed

lemma cache_probe_refines:
  assumes inv: "lru_inv weight c" and t: "tick c \<noteq> - 1" and r: "cache_probe k c = (res, c')"
  shows "lru_inv weight c'"
    and "res = Some v \<Longrightarrow> (Inr v, by_tick c') = lru_spec_get weight budget k x (by_tick c)"
    and "res = None \<Longrightarrow> c' = c \<and> map_of (by_tick c) k = None"
proof -
  have mem: "map_of (cmap c) k = Some v \<Longrightarrow> k \<in> fst ` set (cmap c)" for v
    by (metis map_of_eq_None_iff not_None_eq)
  show "lru_inv weight c'"
    using r inv mem lru_inv_touch [OF inv _ t] by (auto simp: cache_probe_def split: option.splits)
  show "res = Some v \<Longrightarrow> (Inr v, by_tick c') = lru_spec_get weight budget k x (by_tick c)"
    using r by (auto simp: cache_probe_def lru_spec_get_def map_of_by_tick [OF inv]
        by_tick_touch [OF inv] split: option.splits)
  show "res = None \<Longrightarrow> c' = c \<and> map_of (by_tick c) k = None"
    using r by (auto simp: cache_probe_def map_of_by_tick [OF inv] split: option.splits)
qed

text \<open>C18: A call of the cache does what the abstract least-recently-used cache does: on the
  entries ordered by recency, a hit moves the entry to the end, a failed load changes nothing,
  a loaded value is appended and the oldest entries are dropped until the budget holds or one
  entry is left; the answer is the same.\<close>

theorem get_or_load_refines:
  assumes inv: "lru_inv weight c" and t: "tick c \<noteq> - 1"
    and r: "get_or_load weight budget k loaded c = (res, c')"
  shows "lru_inv weight c' \<and> (res, by_tick c') = lru_spec_get weight budget k loaded (by_tick c)"
proof -
  obtain pr c1 where p: "cache_probe k c = (pr, c1)" by (cases "cache_probe k c")
  note refines = cache_probe_refines [OF inv t p]
  show ?thesis
  proof (cases pr)
    case (Some v)
    with r p refines(1,2) show ?thesis by (auto simp: get_or_load_def)
  next
    case None
    then have c1: "c1 = c" and no: "map_of (by_tick c) k = None" using refines(3) by auto
    show ?thesis
    proof (cases loaded)
      case (Inl e)
      with None r p c1 no inv show ?thesis by (auto simp: get_or_load_def lru_spec_get_def)
    next
      case (Inr v)
      obtain v' c2 where ins: "cache_insert weight budget k v c = (v', c2)"
        by (cases "cache_insert weight budget k v c")
      with None r p c1 Inr have "res = Inr v'" "c' = c2" by (auto simp: get_or_load_def)
      with cache_insert_refines [OF inv t ins] Inr show ?thesis by simp
    qed
  qed
qed

lemma get_or_load_refines_witness:
  "let c = \<lparr>cmap = [(8, 4), (2, 5)], used = 9, tick = 2, last_used = [(2, 0), (8, 1)]\<rparr>
   in by_tick (snd (get_or_load id 10 (3 :: int) (Inr 6 :: unit + nat) c)) = [(8, 4), (3, 6)] \<and>
      by_tick (snd (get_or_load id 10 2 (Inl () :: unit + nat) c)) = [(8, 4), (2, 5)]"
proof -
  let ?c = "\<lparr>cmap = [(8 :: int, 4 :: nat), (2, 5)], used = 9, tick = 2, last_used = [(2, 0), (8, 1)]\<rparr>"
  have inv: "lru_inv id ?c" and t: "tick ?c \<noteq> - 1" by (auto simp: lru_inv_def total_def)
  have c: "by_tick ?c = [(2, 5), (8, 4)]" by (simp add: by_tick_def sort_key_def)
  have "by_tick (snd (get_or_load id 10 k r ?c)) = snd (lru_spec_get id 10 k r (by_tick ?c))"
    for k and r :: "unit + nat"
    using get_or_load_refines [OF inv t, of 10 k r] by (metis prod.collapse snd_conv)
  then show ?thesis by (simp add: c lru_spec_get_def total_def Let_def)
qed

section \<open>Interleaved callers\<close>

text \<open>
  Every access of any caller is one of the two critical sections. The index counts the
  sections that took a tick.
\<close>

inductive cache_run :: "('v \<Rightarrow> nat) \<Rightarrow> u64 \<Rightarrow> ('k \<Rightarrow> 'e + 'v) \<Rightarrow> nat \<Rightarrow> ('k, 'v) cache_inner \<Rightarrow> bool"
  for weight budget load where
  start: "cache_run weight budget load 0 cache_new"
| probe: "cache_run weight budget load n c \<Longrightarrow>
     cache_run weight budget load (Suc n) (snd (cache_probe k c))"
| insert: "cache_run weight budget load n c \<Longrightarrow> load k = Inr v \<Longrightarrow>
     cache_run weight budget load (Suc n) (snd (cache_insert weight budget k v c))"

lemma tick_evict [simp]: "tick (evict weight budget c) = tick c"
proof (induction weight budget c rule: evict.induct)
  case (1 weight budget c)
  then show ?case
    by (subst evict.simps) (auto simp: cache_remove_def split: option.splits)
qed

lemma cmap_evict: "map_of (cmap (evict weight budget c)) k = Some v \<Longrightarrow> map_of (cmap c) k = Some v"
proof (induction weight budget c rule: evict.induct)
  case (1 weight budget c)
  from "1.prems" "1.IH" show ?case
    by (subst (asm) evict.simps)
      (auto simp: cache_remove_def delete_conv' split: if_splits option.splits)
qed

definition within_budget :: "u64 \<Rightarrow> ('k, 'v) cache_inner \<Rightarrow> bool" where
  "within_budget budget c \<longleftrightarrow> used c \<le> budget \<or> length (cmap c) \<le> 1"

lemma within_budget_evict: "lru_inv weight c \<Longrightarrow> within_budget budget (evict weight budget c)"
  using evict_refines [of weight c budget] trim_bound [of weight budget "by_tick c"]
  by (metis length_by_tick total_by_tick within_budget_def)

lemma within_budget_touch [simp]: "within_budget budget (touch k c) = within_budget budget c"
  by (simp add: within_budget_def touch_def)

lemma coherent_touch [simp]: "coherent load (touch k c) = coherent load c"
  by (simp add: coherent_def touch_def)

lemma tick_touch: "tick (touch k c) = tick c + 1"
  by (simp add: touch_def)

lemma snd_cache_probe: "snd (cache_probe k c) = (if k \<in> fst ` set (cmap c) then touch k c else c)"
  by (auto simp: cache_probe_def map_of_eq_None_iff split: option.splits dest: map_of_SomeD
      intro: rev_image_eqI)

lemma coherent_evict: "coherent load c \<Longrightarrow> coherent load (evict weight budget c)"
  unfolding coherent_def using cmap_evict by fastforce

lemma coherent_insert:
  "coherent load c \<Longrightarrow> load k = Inr v \<Longrightarrow> coherent load (snd (cache_insert weight budget k v c))"
  by (auto simp: cache_insert_def Let_def update_conv' split: option.splits
      intro!: coherent_evict) (auto simp: coherent_def touch_def update_conv')

lemma fst_cache_insert:
  "coherent load c \<Longrightarrow> load k = Inr v \<Longrightarrow> fst (cache_insert weight budget k v c) = v"
  by (auto simp: cache_insert_def coherent_def Let_def split: option.splits)

lemma tick_cache_insert [simp]: "tick (snd (cache_insert weight budget k v c)) = tick c + 1"
  by (auto simp: cache_insert_def touch_def Let_def split: option.splits)

lemma within_budget_insert:
  assumes inv: "lru_inv weight c" and t: "tick c \<noteq> - 1" and w: "within_budget budget c"
  shows "within_budget budget (snd (cache_insert weight budget k v c))"
  using w within_budget_evict [OF lru_inv_add(1) [OF inv _ t, of k v], of budget]
  by (auto simp: cache_insert_def Let_def touch_def within_budget_def split: option.splits)

text \<open>C19: Callers of the cache may interleave in any order between their two critical
  sections. After any sequence of sections shorter than the 64-bit tick counter the bookkeeping
  is right (the byte count is the sum over the entries, the ticks are distinct and below the
  counter), the budget holds unless a single entry exceeds it, and every entry is what loading
  its key gives.\<close>

theorem cache_run_inv:
  "cache_run weight budget load n c \<Longrightarrow> n < 2 ^ 64 \<Longrightarrow>
   lru_inv weight c \<and> within_budget budget c \<and> coherent load c \<and> unat (tick c) \<le> n"
proof (induction rule: cache_run.induct)
  case start
  then show ?case by (simp add: within_budget_def) (simp add: cache_new_def)
next
  case (probe n c k)
  then have IH: "lru_inv weight c" "within_budget budget c" "coherent load c" "unat (tick c) \<le> n" by auto
  have t: "tick c \<noteq> - 1" using IH(4) probe.prems by (intro u64_not_max) simp
  show ?case
    using IH t lru_inv_touch [OF IH(1) _ t] unat_inc [OF t]
    by (simp add: snd_cache_probe tick_touch)
next
  case (insert n c k v)
  then have IH: "lru_inv weight c" "within_budget budget c" "coherent load c" "unat (tick c) \<le> n" by auto
  have t: "tick c \<noteq> - 1" using IH(4) insert.prems by (intro u64_not_max) simp
  have "lru_inv weight (snd (cache_insert weight budget k v c))"
    using cache_insert_refines [OF IH(1) t] by (metis surjective_pairing)
  then show ?case
    using IH(4) unat_inc [OF t] coherent_insert [OF IH(3) insert.hyps(2)]
      within_budget_insert [OF IH(1) t IH(2)] by simp
qed

lemma cache_run_inv_witness:
  "\<exists>c :: (nat, nat) cache_inner. cache_run id 10 (\<lambda>k. Inr k :: unit + nat) 3 c \<and> lru_inv id c \<and> within_budget 10 c \<and>
     map_of (cmap c) 7 = Some 7 \<and> used c = 7"
proof -
  let ?load = "\<lambda>k. Inr k :: unit + nat"
  let ?c1 = "snd (cache_insert id 10 4 4 (cache_new :: (nat, nat) cache_inner))"
  let ?c2 = "snd (cache_probe 4 ?c1)"
  let ?c3 = "snd (cache_insert id 10 7 7 ?c2)"
  have run: "cache_run id 10 ?load (Suc (Suc (Suc 0))) ?c3"
    by (intro cache_run.insert cache_run.probe cache_run.start) simp_all
  have "Suc (Suc (Suc 0)) < 2 ^ 64" by simp
  with cache_run_inv [OF run] have "lru_inv id ?c3" "within_budget 10 ?c3" by blast+
  moreover have "map_of (cmap ?c3) 7 = Some 7 \<and> used ?c3 = 7"
    by (simp add: cache_insert_def cache_new_def touch_def cache_probe_def evict.simps cache_remove_def
        Let_def AList.delete_eq)
  ultimately show ?thesis using run by (intro exI [of _ ?c3]) (simp add: numeral_3_eq_3)
qed

section \<open>The interface the clients use\<close>

text \<open>
  A client of a cache asks for a key and hands over the file to load on a miss. It relies on
  two laws: whatever the cache holds, the answer is what loading the key's file gives, and
  the cache stays one of which this is true. Errors of the load are passed on, never cached.
\<close>

locale loading_cache =
  fixes get :: "'k \<Rightarrow> 'f \<Rightarrow> 'c \<Rightarrow> ('e + 'v) \<times> 'c"
    and load :: "'f \<Rightarrow> 'e + 'v"
    and ok :: "('k \<Rightarrow> 'f) \<Rightarrow> 'c \<Rightarrow> bool"
  assumes get_value: "ok files c \<Longrightarrow> fst (get k (files k) c) = load (files k)"
    and get_ok: "ok files c \<Longrightarrow> ok files (snd (get k (files k) c))"
begin

lemma get_pair: "ok files c \<Longrightarrow> get k (files k) c = (r, c') \<Longrightarrow> r = load (files k) \<and> ok files c'"
  using get_value get_ok by (metis fst_conv snd_conv)

text \<open>Any sequence of calls answers as if nothing were cached.\<close>

lemma gets_transparent:
  "ok files c \<Longrightarrow>
   \<exists>c'. foldl (\<lambda>(rs, c) k. let (r, c') = get k (files k) c in (rs @ [r], c')) (rs, c) ks =
        (rs @ map (load \<circ> files) ks, c') \<and> ok files c'"
proof (induction ks arbitrary: rs c)
  case (Cons k ks)
  obtain r c' where g: "get k (files k) c = (r, c')" by fastforce
  with get_pair [OF Cons.prems] have "r = load (files k)" "ok files c'" by auto
  with g Cons.IH [of c' "rs @ [r]"] show ?case by simp
qed simp

end

lemma get_or_load_coherent:
  assumes "coherent load c"
  shows "fst (get_or_load weight budget k (load k) c) = load k"
    and "coherent load (snd (get_or_load weight budget k (load k) c))"
proof -
  have "fst (get_or_load weight budget k (load k) c) = load k \<and>
    coherent load (snd (get_or_load weight budget k (load k) c))"
  proof (cases "map_of (cmap c) k")
    case (Some v)
    with assms show ?thesis by (auto simp: get_or_load_def cache_probe_def coherent_def touch_def)
  next
    case None
    show ?thesis
    proof (cases "load k")
      case (Inl e)
      with None assms show ?thesis by (simp add: get_or_load_def cache_probe_def)
    next
      case (Inr v)
      with None assms coherent_insert [OF assms Inr] fst_cache_insert [OF assms Inr]
      show ?thesis
        by (auto simp: get_or_load_def cache_probe_def split: prod.splits) (metis fst_conv snd_conv)+
    qed
  qed
  then show "fst (get_or_load weight budget k (load k) c) = load k"
    and "coherent load (snd (get_or_load weight budget k (load k) c))" by simp_all
qed

end
