(* ===== verification/Storage.thy ===== *)
theory Storage
  imports Frames Names Lru
begin

text \<open>
  The reader's view of the local disk (\<open>sillage-reader/src/storage.rs\<close>): the chunk catalog
  built by scanning the stream directories, its queries, the shared handle through which the
  syncer publishes a new catalog, and the decoded-chunk cache, which is the cache of theory
  \<open>Lru\<close> over \<open>decode_chunk\<close>.
\<close>

section \<open>Catalog\<close>

record chunk_entry =
  ce_stream :: stream
  ce_start_slot :: u64
  ce_end_slot_exclusive :: u64
  zst_path :: string
  idx_path :: string
  meta_path :: string
  zst_len :: u64
  ce_meta :: chunk_meta

type_synonym chunk_tree = "(u64 \<times> chunk_entry) list"
type_synonym chunk_catalog = "stream \<Rightarrow> chunk_tree option"

text \<open>
  One directory entry of \<open>ChunkCatalog::scan\<close>. \<open>parse_meta\<close> is \<open>serde_json::from_slice\<close>.
  \<open>None\<close> is an early \<open>continue\<close>.
\<close>

definition scan_candidate :: "(bytes \<Rightarrow> chunk_meta option) \<Rightarrow> stream \<Rightarrow> dir \<Rightarrow> string \<times> fsfile
    \<Rightarrow> chunk_entry option" where
  "scan_candidate parse_meta st d nf =
     do {
       base \<leftarrow> strip_suffix ''.meta.json'' (fst nf);
       let (start_str, end_str) = splitn2 (CHR ''-'') base;
       s \<leftarrow> parse_u64 start_str;
       e \<leftarrow> parse_u64 end_str;
       let zst = base @ ''.zst'';
       let idx = base @ ''.idx'';
       zst_file \<leftarrow> map_of d zst;
       idx_file \<leftarrow> map_of d idx;
       m \<leftarrow> parse_meta (content (snd nf));
       if schema_version m \<noteq> SCHEMA_VERSION then None
       else Some \<lparr>ce_stream = st, ce_start_slot = s, ce_end_slot_exclusive = e, zst_path = zst,
                  idx_path = idx, meta_path = fst nf,
                  zst_len = of_nat (length (content zst_file)), ce_meta = m\<rparr>
     }"

definition scan_entry :: "(bytes \<Rightarrow> chunk_meta option) \<Rightarrow> stream \<Rightarrow> dir \<Rightarrow> chunk_tree
    \<Rightarrow> string \<times> fsfile \<Rightarrow> chunk_tree" where
  "scan_entry parse_meta st d tree nf =
     (case scan_candidate parse_meta st d nf of
        None \<Rightarrow> tree
      | Some entry \<Rightarrow> bt_insert (ce_start_slot entry) entry tree)"

definition scan_stream :: "(bytes \<Rightarrow> chunk_meta option) \<Rightarrow> stream \<Rightarrow> dir \<Rightarrow> chunk_tree" where
  "scan_stream parse_meta st d = foldl (scan_entry parse_meta st d) [] d"

text \<open>A stream has a tree in the catalog only once an entry was inserted for it.\<close>

definition scan :: "(bytes \<Rightarrow> chunk_meta option) \<Rightarrow> store \<Rightarrow> chunk_catalog" where
  "scan parse_meta nvme st =
     (case nvme st of
        None \<Rightarrow> None
      | Some d \<Rightarrow>
          (case scan_stream parse_meta st d of
             [] \<Rightarrow> None
           | t # ts \<Rightarrow> Some (t # ts)))"

definition chunks_in_range :: "chunk_catalog \<Rightarrow> stream \<Rightarrow> u64 \<Rightarrow> u64 \<Rightarrow> chunk_entry list" where
  "chunks_in_range cat st from_slot to_slot_exclusive =
     (case cat st of
        None \<Rightarrow> []
      | Some tree \<Rightarrow>
          map snd (filter (\<lambda>(_, entry). ce_end_slot_exclusive entry > from_slot)
            (filter (\<lambda>(k, _). k < to_slot_exclusive) tree)))"

definition catalog_get :: "chunk_catalog \<Rightarrow> stream \<Rightarrow> u64 \<Rightarrow> chunk_entry option" where
  "catalog_get cat st s = (case cat st of None \<Rightarrow> None | Some t \<Rightarrow> map_of t s)"

type_synonym catalog_summary = "(stream \<times> nat \<times> u64 option \<times> u64 option) list"

definition summary_of :: "chunk_catalog \<Rightarrow> stream \<Rightarrow> (stream \<times> nat \<times> u64 option \<times> u64 option) option" where
  "summary_of cat st =
     (case cat st of
        None \<Rightarrow> None
      | Some tree \<Rightarrow>
          Some (st, length tree,
            (case tree of [] \<Rightarrow> None | (k, _) # _ \<Rightarrow> Some k),
            (case rev tree of [] \<Rightarrow> None | (_, e) # _ \<Rightarrow> Some (ce_end_slot_exclusive e))))"

definition summary :: "chunk_catalog \<Rightarrow> catalog_summary" where
  "summary cat = List.map_filter (summary_of cat) all_streams"

definition newest_end_slot :: "chunk_catalog \<Rightarrow> u64 option" where
  "newest_end_slot cat = max_opt (List.map_filter (\<lambda>(_, _, _, max_end). max_end) (summary cat))"

section \<open>Shared catalog\<close>

text \<open>
  \<open>SharedCatalog\<close> is a cell. A snapshot is the value the cell held; a later store does not
  change it.
\<close>

record shared_catalog =
  current :: chunk_catalog

definition snapshot :: "shared_catalog \<Rightarrow> chunk_catalog" where
  "snapshot sc = current sc"

definition store_catalog :: "shared_catalog \<Rightarrow> chunk_catalog \<Rightarrow> shared_catalog" where
  "store_catalog sc cat = sc\<lparr>current := cat\<rparr>"

section \<open>Decoded-chunk cache\<close>

record cache_key =
  ck_stream :: stream
  ck_start_slot :: u64

type_synonym chunk_cache = "(cache_key, decoded_chunk) cache_inner"

definition get_or_decode :: "(bytes \<Rightarrow> bytes option) \<Rightarrow> u64 \<Rightarrow> cache_key \<Rightarrow> bytes option \<Rightarrow> chunk_cache
    \<Rightarrow> (decode_error + decoded_chunk) \<times> chunk_cache" where
  "get_or_decode unzstd budget key zst_file c =
     get_or_load dc_heap_bytes budget key (decode_chunk unzstd zst_file) c"

interpretation chunk_cache: loading_cache "get_or_decode unzstd budget" "decode_chunk unzstd"
    "\<lambda>files. coherent (decode_chunk unzstd \<circ> files)" for unzstd budget
  by unfold_locales
    (simp_all add: get_or_decode_def get_or_load_coherent
      [where load = "decode_chunk unzstd \<circ> files" for files, simplified comp_apply])

section \<open>Well-formed catalogs\<close>

definition catalog_ok :: "chunk_catalog \<Rightarrow> bool" where
  "catalog_ok cat \<longleftrightarrow>
     (\<forall>st tree. cat st = Some tree \<longrightarrow>
        tree \<noteq> [] \<and> bt_ok tree \<and>
        (\<forall>(k, e) \<in> set tree. ce_start_slot e = k \<and> ce_stream e = st))"

definition tree_ok :: "stream \<Rightarrow> chunk_tree \<Rightarrow> bool" where
  "tree_ok st tree \<longleftrightarrow> bt_ok tree \<and> (\<forall>(k, e) \<in> set tree. ce_start_slot e = k \<and> ce_stream e = st)"

lemma tree_ok_insert:
  "tree_ok st tree \<Longrightarrow> ce_start_slot e = k \<Longrightarrow> ce_stream e = st \<Longrightarrow> tree_ok st (bt_insert k e tree)"
  using set_bt_insert_subset [of k e tree] by (fastforce simp: tree_ok_def bt_ok_insert)

lemma scan_candidate_Some:
  "scan_candidate parse_meta st d nf = Some e \<longleftrightarrow>
   (\<exists>base s en zf m. fst nf = base @ ''.meta.json'' \<and> parse_meta_name (fst nf) = Some (s, en) \<and>
      map_of d (base @ ''.zst'') = Some zf \<and> exists_in d (base @ ''.idx'') \<and>
      parse_meta (content (snd nf)) = Some m \<and> schema_version m = SCHEMA_VERSION \<and>
      e = \<lparr>ce_stream = st, ce_start_slot = s, ce_end_slot_exclusive = en,
           zst_path = base @ ''.zst'', idx_path = base @ ''.idx'', meta_path = fst nf,
           zst_len = of_nat (length (content zf)), ce_meta = m\<rparr>)"
  by (cases "strip_suffix ''.meta.json'' (fst nf)")
    (auto simp: scan_candidate_def parse_meta_name_def bind_eq_Some_conv Let_def exists_in_def
      strip_suffix_Some strip_suffix_None split: prod.splits if_splits)

lemma tree_ok_scan_entry: "tree_ok st tree \<Longrightarrow> tree_ok st (scan_entry parse_meta st d tree nf)"
  by (auto simp: scan_entry_def scan_candidate_Some intro: tree_ok_insert split: option.splits)

lemma tree_ok_scan_stream: "tree_ok st (scan_stream parse_meta st d)"
proof -
  have "tree_ok st tree \<Longrightarrow> tree_ok st (foldl (scan_entry parse_meta st d) tree xs)" for tree xs
    by (induction xs arbitrary: tree) (auto intro: tree_ok_scan_entry)
  moreover have "tree_ok st []" by (simp add: tree_ok_def)
  ultimately show ?thesis by (simp add: scan_stream_def)
qed

lemma catalog_ok_scan: "catalog_ok (scan parse_meta nvme)"
  unfolding catalog_ok_def
proof (intro allI impI)
  fix st tree
  assume "scan parse_meta nvme st = Some tree"
  then obtain d where "tree = scan_stream parse_meta st d" and "tree \<noteq> []"
    by (fastforce simp: scan_def split: option.splits list.splits)
  with tree_ok_scan_stream [of st parse_meta d]
  show "tree \<noteq> [] \<and> bt_ok tree \<and> (\<forall>(k, e) \<in> set tree. ce_start_slot e = k \<and> ce_stream e = st)"
    by (simp add: tree_ok_def)
qed

lemma catalog_okD:
  assumes "catalog_ok cat" and "cat st = Some tree"
  shows "tree \<noteq> []" "bt_ok tree" "\<And>k e. (k, e) \<in> set tree \<Longrightarrow> ce_start_slot e = k \<and> ce_stream e = st"
  using assms by (fastforce simp: catalog_ok_def)+

lemma chunks_in_range_set:
  assumes "catalog_ok cat"
  shows "set (chunks_in_range cat st a b) =
    {e. \<exists>tree. cat st = Some tree \<and> e \<in> snd ` set tree \<and>
       ce_start_slot e < b \<and> a < ce_end_slot_exclusive e}"
proof (cases "cat st")
  case (Some tree)
  from catalog_okD(3) [OF assms Some] show ?thesis
    by (force simp: chunks_in_range_def Some)
qed (simp add: chunks_in_range_def)

lemma chunks_in_range_sorted:
  assumes "catalog_ok cat"
  shows "sorted_wrt (<) (map ce_start_slot (chunks_in_range cat st a b))"
proof (cases "cat st")
  case (Some tree)
  let ?es = "filter (\<lambda>(_, entry). ce_end_slot_exclusive entry > a) (filter (\<lambda>(k, _). k < b) tree)"
  from catalog_okD(3) [OF assms Some] have "map ce_start_slot (map snd ?es) = map fst ?es"
    by auto
  moreover have "bt_ok ?es"
    using catalog_okD(2) [OF assms Some] by (simp add: bt_ok_filter)
  ultimately show ?thesis by (simp only: chunks_in_range_def Some option.case bt_ok_def)
qed (simp add: chunks_in_range_def)

text \<open>The summary of a stream is about its whole tree.\<close>

lemma set_summary: "set (summary cat) = {x. \<exists>st. summary_of cat st = Some x}"
  by (auto simp: summary_def map_filter_def) force

lemma summary_of_Some:
  assumes "catalog_ok cat" and "cat st = Some tree"
  shows "summary_of cat st =
    Some (st, length tree, Some (fst (hd tree)), Some (ce_end_slot_exclusive (snd (last tree))))"
proof -
  have "tree \<noteq> []" using catalog_okD(1) [OF assms] .
  then obtain x xs where "tree = x # xs" by (cases tree) auto
  moreover obtain ys y where "tree = ys @ [y]" using \<open>tree \<noteq> []\<close> by (metis rev_exhaust)
  moreover from this have "last tree = y" and "rev tree = y # rev ys" by simp_all
  ultimately show ?thesis
    by (simp add: summary_of_def assms(2) case_prod_unfold)
qed

lemma newest_end_slot_eq:
  assumes "catalog_ok cat"
  shows "newest_end_slot cat =
    max_opt (map (\<lambda>st. ce_end_slot_exclusive (snd (last (the (cat st)))))
      (filter (\<lambda>st. cat st \<noteq> None) all_streams))"
proof -
  have "List.map_filter (\<lambda>(_, _, _, m). m) (List.map_filter (summary_of cat) sts) =
    map (\<lambda>st. ce_end_slot_exclusive (snd (last (the (cat st))))) (filter (\<lambda>st. cat st \<noteq> None) sts)" for sts
  proof (induction sts)
    case (Cons st sts)
    have "cat st = None \<Longrightarrow> summary_of cat st = None" by (simp add: summary_of_def)
    with Cons show ?case
      by (cases "cat st") (auto simp: List.map_filter_simps summary_of_Some [OF assms])
  qed (simp add: List.map_filter_simps)
  then show ?thesis by (simp add: newest_end_slot_def summary_def)
qed

section \<open>What the catalog shows\<close>

text \<open>
  A chunk of a directory that a reader may use: the three files of one base name, metadata that
  parses and has the schema version of this build.
\<close>

definition visible :: "(bytes \<Rightarrow> chunk_meta option) \<Rightarrow> stream \<Rightarrow> dir \<Rightarrow> chunk_entry \<Rightarrow> bool" where
  "visible parse_meta st d e \<longleftrightarrow>
     (\<exists>base f zf m. (base @ ''.meta.json'', f) \<in> set d \<and>
        parse_meta_name (base @ ''.meta.json'') = Some (ce_start_slot e, ce_end_slot_exclusive e) \<and>
        map_of d (base @ ''.zst'') = Some zf \<and> exists_in d (base @ ''.idx'') \<and>
        parse_meta (content f) = Some m \<and> schema_version m = SCHEMA_VERSION \<and>
        e = \<lparr>ce_stream = st, ce_start_slot = ce_start_slot e,
             ce_end_slot_exclusive = ce_end_slot_exclusive e, zst_path = base @ ''.zst'',
             idx_path = base @ ''.idx'', meta_path = base @ ''.meta.json'',
             zst_len = of_nat (length (content zf)), ce_meta = m\<rparr>)"

lemma visible_candidate: "visible parse_meta st d e \<longleftrightarrow> (\<exists>nf \<in> set d. scan_candidate parse_meta st d nf = Some e)"
proof
  assume "visible parse_meta st d e"
  then obtain base f zf m where v: "(base @ ''.meta.json'', f) \<in> set d"
    "parse_meta_name (base @ ''.meta.json'') = Some (ce_start_slot e, ce_end_slot_exclusive e)"
    "map_of d (base @ ''.zst'') = Some zf" "exists_in d (base @ ''.idx'')" "parse_meta (content f) = Some m"
    "schema_version m = SCHEMA_VERSION"
    "e = \<lparr>ce_stream = st, ce_start_slot = ce_start_slot e,
             ce_end_slot_exclusive = ce_end_slot_exclusive e, zst_path = base @ ''.zst'',
             idx_path = base @ ''.idx'', meta_path = base @ ''.meta.json'',
             zst_len = of_nat (length (content zf)), ce_meta = m\<rparr>"
    unfolding visible_def by blast
  then have "scan_candidate parse_meta st d (base @ ''.meta.json'', f) = Some e"
    unfolding scan_candidate_Some fst_conv snd_conv by blast
  with v(1) show "\<exists>nf \<in> set d. scan_candidate parse_meta st d nf = Some e" by blast
next
  assume "\<exists>nf \<in> set d. scan_candidate parse_meta st d nf = Some e"
  then obtain n f where nf: "(n, f) \<in> set d" "scan_candidate parse_meta st d (n, f) = Some e" by fastforce
  then show "visible parse_meta st d e"
    unfolding visible_def scan_candidate_Some by fastforce
qed

text \<open>The tree holds, under every start slot, one of the candidates with that slot.\<close>

lemma foldl_scan_entry:
  "case map_of (foldl (scan_entry parse_meta st d) tree nfs) s of
      None \<Rightarrow> map_of tree s = None \<and> (\<forall>nf \<in> set nfs. \<forall>e. scan_candidate parse_meta st d nf = Some e \<longrightarrow> ce_start_slot e \<noteq> s)
    | Some e \<Rightarrow> map_of tree s = Some e \<or>
        ce_start_slot e = s \<and> (\<exists>nf \<in> set nfs. scan_candidate parse_meta st d nf = Some e)"
proof (induction nfs arbitrary: tree)
  case (Cons nf nfs)
  have step: "map_of (scan_entry parse_meta st d tree nf) s =
    (case scan_candidate parse_meta st d nf of
       None \<Rightarrow> map_of tree s | Some e \<Rightarrow> if s = ce_start_slot e then Some e else map_of tree s)"
    by (auto simp: scan_entry_def map_of_bt_insert split: option.splits)
  show ?case
    using Cons.IH [of "scan_entry parse_meta st d tree nf"] unfolding step
    by (auto split: option.splits if_splits)
qed (simp split: option.splits)

lemma catalog_get_visible:
  "case catalog_get (scan parse_meta nvme) st s of
     None \<Rightarrow> \<not> (\<exists>e. visible parse_meta st (case nvme st of None \<Rightarrow> [] | Some d \<Rightarrow> d) e \<and> ce_start_slot e = s)
   | Some e \<Rightarrow> visible parse_meta st (case nvme st of None \<Rightarrow> [] | Some d \<Rightarrow> d) e \<and> ce_start_slot e = s"
proof -
  have "catalog_get (scan parse_meta nvme) st s =
    map_of (scan_stream parse_meta st (case nvme st of None \<Rightarrow> [] | Some d \<Rightarrow> d)) s"
    by (auto simp: catalog_get_def scan_def scan_stream_def split: option.splits list.splits)
  with foldl_scan_entry [where parse_meta = parse_meta and st = st and s = s and tree = "[]"
      and d = "case nvme st of None \<Rightarrow> [] | Some d \<Rightarrow> d" and nfs = "case nvme st of None \<Rightarrow> [] | Some d \<Rightarrow> d"]
  show ?thesis
    unfolding visible_candidate scan_stream_def by (auto split: option.splits)
qed

text \<open>C20: The catalog a scan builds shows a chunk under a start slot exactly when the stream's
  directory has one with the three files of one base name and metadata of this schema version;
  what it shows is such a chunk. A partial download, a chunk without its index or with metadata
  of another version is never shown.\<close>

theorem scan_shows_complete_chunks:
  "case catalog_get (scan parse_meta nvme) st s of
     None \<Rightarrow> \<not> (\<exists>e. visible parse_meta st (case nvme st of None \<Rightarrow> [] | Some d \<Rightarrow> d) e \<and> ce_start_slot e = s)
   | Some e \<Rightarrow> visible parse_meta st (case nvme st of None \<Rightarrow> [] | Some d \<Rightarrow> d) e \<and> ce_start_slot e = s"
  by (rule catalog_get_visible)

text \<open>Reading decoded chunks through the cache is the same as decoding their files: whatever
  calls are made, in whatever order, on a cache of whatever budget, each is answered with the
  result of decoding the file of its key, errors included.\<close>

theorem decoded_cache_transparent:
  "fst (foldl (\<lambda>(rs, c) k. let (r, c') = get_or_decode unzstd budget k (files k) c in (rs @ [r], c'))
      ([], cache_new) ks) = map (decode_chunk unzstd \<circ> files) ks"
  using chunk_cache.gets_transparent [where unzstd = unzstd and files = files and c = cache_new and rs = "[]" and budget = budget and ks = ks] by (auto simp: coherent_def cache_new_def)

text \<open>C21: The chunks the catalog returns for a slot range are exactly the catalog's chunks of the
  stream that overlap the range, in strictly ascending order of their start slots. This order is
  what the replay relies on.\<close>

theorem range_query_exact:
  "(e \<in> set (chunks_in_range (scan parse_meta nvme) st a b) \<longleftrightarrow>
      catalog_get (scan parse_meta nvme) st (ce_start_slot e) = Some e \<and>
      ce_start_slot e < b \<and> a < ce_end_slot_exclusive e) \<and>
   sorted_wrt (<) (map ce_start_slot (chunks_in_range (scan parse_meta nvme) st a b))"
proof -
  have "e \<in> snd ` set tree \<longleftrightarrow> map_of tree (ce_start_slot e) = Some e"
    if "scan parse_meta nvme st = Some tree" for tree
    using catalog_okD(2,3) [OF catalog_ok_scan that] by (force simp: bt_in_set [symmetric])
  then show ?thesis
    using chunks_in_range_sorted [OF catalog_ok_scan]
    by (auto simp: chunks_in_range_set [OF catalog_ok_scan] catalog_get_def split: option.splits)
qed

text \<open>The newest slot the catalog reports is the largest end over the streams, each taken at its
  chunk with the largest start slot.\<close>

lemma newest_end_slot_scan:
  "newest_end_slot (scan parse_meta nvme) =
    max_opt (map (\<lambda>st. ce_end_slot_exclusive (snd (last (the (scan parse_meta nvme st)))))
      (filter (\<lambda>st. scan parse_meta nvme st \<noteq> None) all_streams))"
  by (rule newest_end_slot_eq [OF catalog_ok_scan])

end
