(* ===== verification/Sync.thy ===== *)
theory Sync
  imports Retry Bucket Recovery Storage
begin

text \<open>
  The syncer of the reader (\<open>sillage-reader/src/sync.rs\<close>): the chunks on disk, the chunks to
  download, a download file by file, the retention sweep, and one cycle with the publication of
  a new catalog. \<open>get\<close> is the client's \<open>get_object\<close> (theory \<open>Bucket\<close>).

  The downloads of a cycle run concurrently up to a limit; each writes the files of its own
  chunk, and the model runs them in the order they are spawned. A \<open>HashSet\<close> is a list without
  repetitions, its iteration order is that of the directories. Creating the stream directory is
  assumed to succeed.
\<close>

section \<open>What is on disk\<close>

record chunk_key =
  ck3_stream :: stream
  ck3_start :: u64
  ck3_end :: u64

definition local_entry :: "stream \<Rightarrow> string \<Rightarrow> chunk_key option" where
  "local_entry st file_name =
     map_option (\<lambda>(s, e). \<lparr>ck3_stream = st, ck3_start = s, ck3_end = e\<rparr>) (parse_meta_name file_name)"

definition local_chunks :: "store \<Rightarrow> chunk_key list" where
  "local_chunks nvme =
     remdups (concat (map (\<lambda>st. case nvme st of
                                  None \<Rightarrow> []
                                | Some d \<Rightarrow> List.map_filter (local_entry st) (map fst d)) all_streams))"

section \<open>What to download\<close>

definition retention_slots :: "u64 \<Rightarrow> u64" where
  "retention_slots hours = hours * 3600 * 5 div 2"

text \<open>\<open>iter().max().unwrap_or(0)\<close> and \<open>saturating_sub\<close>.\<close>

definition newest_end :: "u64 list \<Rightarrow> u64" where
  "newest_end ends = (case max_opt ends of None \<Rightarrow> 0 | Some m \<Rightarrow> m)"

definition sat_sub :: "u64 \<Rightarrow> u64 \<Rightarrow> u64" where
  "sat_sub a b = (if b \<le> a then a - b else 0)"

definition key_of_remote :: "r2_chunk \<Rightarrow> chunk_key" where
  "key_of_remote c = \<lparr>ck3_stream = rc_stream c, ck3_start = rc_start_slot c, ck3_end = rc_end_slot c\<rparr>"

definition diff_for_sync :: "chunk_key list \<Rightarrow> r2_chunk list \<Rightarrow> u64 \<Rightarrow> r2_chunk list" where
  "diff_for_sync local remote hours =
     (let newest_end_slot = newest_end (map rc_end_slot remote);
          cutoff = sat_sub newest_end_slot (retention_slots hours)
      in sort_key (\<lambda>c. (as_str (rc_stream c), rc_start_slot c))
           (filter (\<lambda>c. key_of_remote c \<notin> set local) (filter (\<lambda>c. rc_end_slot c \<ge> cutoff) remote)))"

section \<open>Downloading\<close>

datatype download_error = GetFailed string | FileFailed fs_op

text \<open>
  \<open>get_file\<close>: the body is received in full, then written to the destination and synced.
\<close>

definition get_file :: "(fs_op \<Rightarrow> bool) \<Rightarrow> 's get_object \<Rightarrow> nat \<Rightarrow> string \<Rightarrow> string \<Rightarrow> dir \<times> 's
    \<Rightarrow> (download_error + u64) \<times> dir \<times> 's" where
  "get_file fails get now key dest ds =
     (case ds of (d, s) \<Rightarrow>
        (case get key s of
           (None, s') \<Rightarrow> (Inl (GetFailed key), d, s')
         | (Some data, s') \<Rightarrow>
             (case run_ops fails now [CreateFile dest, WriteFile dest data, SyncFile dest] d of
                (d', Some op) \<Rightarrow> (Inl (FileFailed op), d', s')
              | (d', None) \<Rightarrow> (Inr (of_nat (length data)), d', s'))))"

definition get_with_retry :: "(fs_op \<Rightarrow> bool) \<Rightarrow> 's get_object \<Rightarrow> nat \<Rightarrow> string \<Rightarrow> string \<Rightarrow> reader_config
    \<Rightarrow> dir \<times> 's \<Rightarrow> (download_error retry_error + u64) \<times> (dir \<times> 's) \<times> u64 list" where
  "get_with_retry fails get now key dest cfg ds =
     retry (get_file fails get now key dest) (r_retry_initial_delay_ms cfg) (unat (r_retry_attempts cfg)) 0 ds"

fun download_files :: "(fs_op \<Rightarrow> bool) \<Rightarrow> 's get_object \<Rightarrow> nat \<Rightarrow> reader_config \<Rightarrow> r2_chunk \<Rightarrow> string list
    \<Rightarrow> dir \<times> 's \<Rightarrow> (download_error retry_error + unit) \<times> dir \<times> 's" where
  "download_files fails get now cfg chunk [] ds = (Inr (), ds)"
| "download_files fails get now cfg chunk (ext # exts) ds =
     (let key = object_key (rc_stream chunk) (rc_start_slot chunk) (rc_end_slot chunk) ext;
          final = chunk_file (rc_start_slot chunk) (rc_end_slot chunk) ext;
          partial = final @ ''.partial''
      in case get_with_retry fails get now key partial cfg ds of
           (Inl e, ds', _) \<Rightarrow> (Inl e, ds')
         | (Inr _, (d', s'), _) \<Rightarrow>
             (case run_ops fails now [RenameFile partial final] d' of
                (d'', Some op) \<Rightarrow> (Inl (GaveUp (FileFailed op)), d'', s')
              | (d'', None) \<Rightarrow> download_files fails get now cfg chunk exts (d'', s')))"

definition download_chunk :: "(fs_op \<Rightarrow> bool) \<Rightarrow> 's get_object \<Rightarrow> nat \<Rightarrow> reader_config \<Rightarrow> r2_chunk
    \<Rightarrow> dir \<times> 's \<Rightarrow> (download_error retry_error + unit) \<times> dir \<times> 's" where
  "download_chunk fails get now cfg chunk ds =
     download_files fails get now cfg chunk [''zst'', ''idx'', ''meta.json''] ds"

section \<open>Retention\<close>

text \<open>One evicted chunk: its three files are removed, a failed removal is logged and skipped.\<close>

definition evict_chunk :: "(fs_op \<Rightarrow> bool) \<Rightarrow> store \<Rightarrow> chunk_key \<Rightarrow> store" where
  "evict_chunk fails nvme c =
     (case nvme (ck3_stream c) of
        None \<Rightarrow> nvme
      | Some d \<Rightarrow>
          nvme(ck3_stream c := Some (foldl (\<lambda>d ext. fst (try_remove fails (chunk_file (ck3_start c) (ck3_end c) ext) d))
                                       d [''zst'', ''idx'', ''meta.json''])))"

definition expired_chunks :: "u64 \<Rightarrow> chunk_key list \<Rightarrow> chunk_key list" where
  "expired_chunks hours local =
     (let newest_end_slot = newest_end (map ck3_end local);
          cutoff = sat_sub newest_end_slot (retention_slots hours)
      in filter (\<lambda>c. \<not> ck3_end c \<ge> cutoff) local)"

definition reader_sweep_retention :: "(fs_op \<Rightarrow> bool) \<Rightarrow> u64 \<Rightarrow> store \<Rightarrow> u32 \<times> store" where
  "reader_sweep_retention fails hours nvme =
     (let doomed = expired_chunks hours (local_chunks nvme)
      in (of_nat (length doomed), foldl (evict_chunk fails) nvme doomed))"

section \<open>A cycle\<close>

fun download_all :: "(fs_op \<Rightarrow> bool) \<Rightarrow> 's get_object \<Rightarrow> nat \<Rightarrow> reader_config \<Rightarrow> r2_chunk list
    \<Rightarrow> store \<times> 's \<Rightarrow> u32 \<times> store \<times> 's" where
  "download_all fails get now cfg [] w = (0, w)"
| "download_all fails get now cfg (chunk # chunks) (nvme, s) =
     (case download_chunk fails get now cfg chunk
             (case nvme (rc_stream chunk) of Some d \<Rightarrow> d | None \<Rightarrow> [], s) of
        (r, d', s') \<Rightarrow>
          (case download_all fails get now cfg chunks (nvme(rc_stream chunk := Some d'), s') of
             (n, w) \<Rightarrow> (if isl r then n else n + 1, w)))"

record 's syncer =
  sy_store :: store
  sy_net :: 's
  sy_catalog :: shared_catalog

definition republish_catalog :: "(bytes \<Rightarrow> chunk_meta option) \<Rightarrow> 's syncer \<Rightarrow> 's syncer" where
  "republish_catalog parse_meta y =
     y\<lparr>sy_catalog := store_catalog (sy_catalog y) (scan parse_meta (sy_store y))\<rparr>"

text \<open>
  One turn of the loop of \<open>Syncer::run\<close>. \<open>list_r2\<close> lists the bucket; \<open>r2 = None\<close> is the
  local-only mode, in which a turn does nothing.
\<close>

definition syncer_cycle :: "(bytes \<Rightarrow> chunk_meta option) \<Rightarrow> (fs_op \<Rightarrow> bool) \<Rightarrow>
    (('s \<Rightarrow> (list_error + r2_chunk list) \<times> 's) \<times> 's get_object) option \<Rightarrow> nat \<Rightarrow> reader_config
    \<Rightarrow> 's syncer \<Rightarrow> 's syncer" where
  "syncer_cycle parse_meta fails r2 now cfg y =
     (case r2 of
        None \<Rightarrow> y
      | Some (list_r2, get) \<Rightarrow>
          (case list_r2 (sy_net y) of
             (Inl _, s) \<Rightarrow> y\<lparr>sy_net := s\<rparr>
           | (Inr remote, s) \<Rightarrow>
               let local = local_chunks (sy_store y);
                   to_download = diff_for_sync local remote (r_local_retention_hours cfg)
               in case download_all fails get now cfg to_download (sy_store y, s) of
                    (downloaded, nvme, s') \<Rightarrow>
                      (case reader_sweep_retention fails (r_local_retention_hours cfg) nvme of
                         (swept, nvme') \<Rightarrow>
                           let y' = y\<lparr>sy_store := nvme', sy_net := s'\<rparr>
                           in if downloaded > 0 \<or> swept > 0 then republish_catalog parse_meta y' else y')))"

definition syncer_start :: "(fs_op \<Rightarrow> bool) \<Rightarrow> 's syncer \<Rightarrow> 's syncer" where
  "syncer_start fails y = y\<lparr>sy_store := fst (reader_sweep_partials fails (sy_store y))\<rparr>"

fun syncer_run :: "(bytes \<Rightarrow> chunk_meta option) \<Rightarrow> (fs_op \<Rightarrow> bool) \<Rightarrow>
    (('s \<Rightarrow> (list_error + r2_chunk list) \<times> 's) \<times> 's get_object) option \<Rightarrow> reader_config \<Rightarrow> nat list
    \<Rightarrow> 's syncer \<Rightarrow> 's syncer" where
  "syncer_run parse_meta fails r2 cfg [] y = y"
| "syncer_run parse_meta fails r2 cfg (now # wakes) y =
     syncer_run parse_meta fails r2 cfg wakes (syncer_cycle parse_meta fails r2 now cfg y)"

section \<open>Choosing what to download\<close>

lemma in_local_chunks:
  "c \<in> set (local_chunks nvme) \<longleftrightarrow>
   (\<exists>d n. nvme (ck3_stream c) = Some d \<and> exists_in d n \<and> parse_meta_name n = Some (ck3_start c, ck3_end c))"
proof
  assume "c \<in> set (local_chunks nvme)"
  then obtain st d n where n: "nvme st = Some d" "n \<in> fst ` set d" "local_entry st n = Some c"
    by (auto simp: local_chunks_def set_map_filter split: option.splits) (metis fst_conv image_eqI)
  from n(3) have "ck3_stream c = st" "parse_meta_name n = Some (ck3_start c, ck3_end c)"
    by (auto simp: local_entry_def)
  with n show "\<exists>d n. nvme (ck3_stream c) = Some d \<and> exists_in d n \<and> parse_meta_name n = Some (ck3_start c, ck3_end c)"
    by (auto simp: exists_in_iff)
next
  assume "\<exists>d n. nvme (ck3_stream c) = Some d \<and> exists_in d n \<and> parse_meta_name n = Some (ck3_start c, ck3_end c)"
  then obtain d n where n: "nvme (ck3_stream c) = Some d" "n \<in> fst ` set d"
    "parse_meta_name n = Some (ck3_start c, ck3_end c)" by (auto simp: exists_in_iff)
  have "local_entry (ck3_stream c) n = Some c" using n(3) by (simp add: local_entry_def)
  then have "c \<in> set (List.map_filter (local_entry (ck3_stream c)) (map fst d))"
    using n(2) unfolding set_map_filter by auto
  with n(1) show "c \<in> set (local_chunks nvme)" by (force simp: local_chunks_def)
qed

lemma set_diff_for_sync:
  "c \<in> set (diff_for_sync local remote hours) \<longleftrightarrow>
   c \<in> set remote \<and> key_of_remote c \<notin> set local \<and>
   sat_sub (newest_end (map rc_end_slot remote)) (retention_slots hours) \<le> rc_end_slot c"
  by (auto simp: diff_for_sync_def Let_def)

lemma diff_for_sync_sorted:
  "sorted (map (\<lambda>c. (as_str (rc_stream c), rc_start_slot c)) (diff_for_sync local remote hours))"
  by (simp add: diff_for_sync_def Let_def)

lemma set_expired:
  "c \<in> set (expired_chunks hours local) \<longleftrightarrow>
   c \<in> set local \<and> ck3_end c < sat_sub (newest_end (map ck3_end local)) (retention_slots hours)"
  by (auto simp: expired_chunks_def Let_def)

lemma sat_sub_mono: "a \<le> b \<Longrightarrow> sat_sub a r \<le> sat_sub b r"
proof -
  assume ab: "a \<le> b"
  show ?thesis
  proof (cases "r \<le> a")
    case True
    with ab have "r \<le> b" by simp
    with True ab show ?thesis
      by (simp add: sat_sub_def word_le_nat_alt unat_sub)
  qed (simp add: sat_sub_def)
qed

text \<open>A chunk the sweep takes is not downloaded again, as long as the bucket is not behind.\<close>

lemma no_churn:
  assumes "c \<in> set (diff_for_sync local' remote hours)"
    and "newest_end (map ck3_end local) \<le> newest_end (map rc_end_slot remote)"
  shows "key_of_remote c \<notin> set (expired_chunks hours local)"
proof
  assume "key_of_remote c \<in> set (expired_chunks hours local)"
  then have "rc_end_slot c < sat_sub (newest_end (map ck3_end local)) (retention_slots hours)"
    by (simp add: set_expired key_of_remote_def)
  also have "\<dots> \<le> sat_sub (newest_end (map rc_end_slot remote)) (retention_slots hours)"
    using assms(2) by (rule sat_sub_mono)
  finally show False using assms(1) by (auto simp: set_diff_for_sync dest: leD)
qed

lemma newest_end_ge: "e \<in> set ends \<Longrightarrow> e \<le> newest_end ends"
  by (auto simp: newest_end_def max_opt_Max)

text \<open>The sweep never takes the newest chunk.\<close>

lemma newest_kept: "c \<in> set local \<Longrightarrow> ck3_end c = newest_end (map ck3_end local) \<Longrightarrow>
  c \<notin> set (expired_chunks hours local)"
  by (auto simp: set_expired sat_sub_def not_less word_le_nat_alt unat_sub split: if_splits)

section \<open>What a download leaves on disk\<close>

lemma dir_complete_run_ops: "dir_complete d \<Longrightarrow> run_ops fails now ops d = (d', r) \<Longrightarrow>
  \<forall>op \<in> set ops. adds_data op \<Longrightarrow> dir_complete d'"
  using dir_complete_run [of d ops fails now] by simp

lemma chunk_file_ext: "chunk_file s e x @ y = chunk_file s e (x @ y)"
  by (simp add: chunk_file_def)

text \<open>The property one attempt keeps: the directory stays complete, final files are untouched.\<close>

definition finals_kept :: "dir \<Rightarrow> dir \<Rightarrow> bool" where
  "finals_kept d d' \<longleftrightarrow> (\<forall>n. \<not> reader_partial n \<longrightarrow> map_of d' n = map_of d n)"

lemma finals_kept_refl [simp]: "finals_kept d d"
  by (simp add: finals_kept_def)

lemma finals_kept_trans: "finals_kept a b \<Longrightarrow> finals_kept b c \<Longrightarrow> finals_kept a c"
  by (simp add: finals_kept_def)

lemma run_get_ops:
  assumes "run_ops fails now [CreateFile p, WriteFile p b, SyncFile p] d = (d', r)" and "reader_partial p"
  shows "finals_kept d d'" and "r = None \<Longrightarrow> map_of d' p = Some \<lparr>content = b, mtime = now\<rparr>"
  using assms by (auto simp: finals_kept_def split: if_splits)

lemma get_with_retry_spec:
  assumes laws: "get_laws get obj" and p: "reader_partial dest"
    and g: "get_with_retry fails get now key dest cfg (d, s) = (r, (d', s'), ds)"
  shows "finals_kept d d' \<and> obj s' = obj s \<and>
    (\<forall>v. r = Inr v \<longrightarrow> (\<exists>b. obj s key = Some b \<and> map_of d' dest = Some \<lparr>content = b, mtime = now\<rparr>))"
proof -
  let ?I = "\<lambda>(d1, s1). finals_kept d d1 \<and> obj s1 = obj s"
  have step: "finals_kept d0 d1 \<and> obj s1 = obj s0 \<and>
      (\<forall>v. r0 = Inr v \<longrightarrow> (\<exists>b. obj s0 key = Some b \<and> map_of d1 dest = Some \<lparr>content = b, mtime = now\<rparr>))"
    if a: "get_file fails get now key dest (d0, s0) = (r0, d1, s1)" for d0 s0 r0 d1 s1
  proof -
    obtain body s2 where b: "get key s0 = (body, s2)" by fastforce
    note l = get_lawsD [OF laws b]
    show ?thesis
    proof (cases body)
      case None
      with a b l show ?thesis by (auto simp: get_file_def)
    next
      case (Some data)
      obtain d2 e where ro: "run_ops fails now [CreateFile dest, WriteFile dest data, SyncFile dest] d0 = (d2, e)" by fastforce
      have "d1 = d2" "s1 = s2" "\<And>v. r0 = Inr v \<Longrightarrow> e = None"
        using a b Some ro by (auto simp: get_file_def simp del: run_ops.simps split: option.splits)
      with run_get_ops [OF ro p] l Some show ?thesis by blast
    qed
  qed
  have keeps: "\<forall>x0 r0 x1. ?I x0 \<longrightarrow> get_file fails get now key dest x0 = (r0, x1) \<longrightarrow> ?I x1"
    using step finals_kept_trans by (auto dest!: step)
  have start: "?I (d, s)" by simp
  note spec = retry_spec [where I = ?I, OF g [unfolded get_with_retry_def] start keeps]
  have "\<exists>b. obj s key = Some b \<and> map_of d' dest = Some \<lparr>content = b, mtime = now\<rparr>" if v: "r = Inr v" for v
  proof -
    from spec v obtain d0 s0 where "finals_kept d d0 \<and> obj s0 = obj s" "get_file fails get now key dest (d0, s0) = (Inr v, d', s')"
      by fastforce
    with step show ?thesis by metis
  qed
  with spec show ?thesis by simp
qed

text \<open>
  One file of a download: on an error nothing but partial files changed; otherwise exactly the
  final file is new, and holds the object.
\<close>

lemma download_files_step:
  assumes laws: "get_laws get obj" and ext: "final = chunk_file a e ext"
    and g: "get_with_retry fails get now key (final @ ''.partial'') cfg (d, s) = (Inr v, (d1, s1), ds)"
    and r: "run_ops fails now [RenameFile (final @ ''.partial'') final] d1 = (d2, None)" and np: "\<not> reader_partial final"
  shows "obj s1 = obj s \<and> (\<exists>b. obj s key = Some b \<and>
    (\<forall>n. \<not> reader_partial n \<longrightarrow> map_of d2 n = (if n = final then Some \<lparr>content = b, mtime = now\<rparr> else map_of d n)))"
proof -
  have p: "reader_partial (final @ ''.partial'')" by (auto simp: reader_partial_def ends_with_iff)
  note s = get_with_retry_spec [OF laws p g]
  then obtain b where b: "obj s key = Some b" "map_of d1 (final @ ''.partial'') = Some \<lparr>content = b, mtime = now\<rparr>"
    by blast
  have "rename_file (final @ ''.partial'') final d1 = Some d2"
    using r by (auto split: if_splits option.splits)
  from map_of_rename [OF this] have m2: "map_of d2 = (map_of d1)(final @ ''.partial'' := None, final := map_of d1 (final @ ''.partial''))" .
  have "map_of d2 n = (if n = final then Some \<lparr>content = b, mtime = now\<rparr> else map_of d n)" if n: "\<not> reader_partial n" for n
  proof -
    have "n \<noteq> final @ ''.partial''" using n p by auto
    moreover have "map_of d1 n = map_of d n" using s n by (simp add: finals_kept_def)
    ultimately show ?thesis using b(2) by (auto simp: m2)
  qed
  with s b(1) show ?thesis by blast
qed

section \<open>What the catalog sees\<close>

text \<open>
  The scan looks at the metadata files and at the two files beside each. \<open>same_view d d'\<close>: the
  scan cannot tell the directories apart. A name it never looks at is \<open>unseen\<close>.
\<close>

definition candidates :: "(bytes \<Rightarrow> chunk_meta option) \<Rightarrow> stream \<Rightarrow> dir \<Rightarrow> chunk_entry list" where
  "candidates parse_meta st d = List.map_filter (scan_candidate parse_meta st d) d"

definition meta_bases :: "dir \<Rightarrow> string set" where
  "meta_bases d = {base. exists_in d (base @ ''.meta.json'')}"

definition unseen :: "string set \<Rightarrow> string \<Rightarrow> bool" where
  "unseen bases n \<longleftrightarrow> \<not> ends_with ''.meta.json'' n \<and>
     (\<forall>base \<in> bases. n \<noteq> base @ ''.zst'' \<and> n \<noteq> base @ ''.idx'')"

definition same_view :: "dir \<Rightarrow> dir \<Rightarrow> bool" where
  "same_view d d' \<longleftrightarrow> (\<forall>parse_meta st. candidates parse_meta st d' = candidates parse_meta st d) \<and>
     meta_bases d' = meta_bases d"

lemma same_view_refl [simp]: "same_view d d"
  by (simp add: same_view_def)

lemma same_view_trans: "same_view a b \<Longrightarrow> same_view b c \<Longrightarrow> same_view a c"
  by (simp add: same_view_def)

lemma scan_stream_candidates:
  "scan_stream parse_meta st d =
     foldl (\<lambda>tree e. bt_insert (ce_start_slot e) e tree) [] (candidates parse_meta st d)"
proof -
  have "foldl (scan_entry parse_meta st d) tree xs =
    foldl (\<lambda>tree e. bt_insert (ce_start_slot e) e tree) tree (List.map_filter (scan_candidate parse_meta st d) xs)" for tree xs
    by (induction xs arbitrary: tree) (auto simp: scan_entry_def List.map_filter_simps split: option.splits)
  then show ?thesis by (simp add: scan_stream_def candidates_def)
qed

lemma scan_same_view:
  assumes "\<And>st. (case nvme st of None \<Rightarrow> (case nvme' st of None \<Rightarrow> True | Some d' \<Rightarrow> same_view [] d')
               | Some d \<Rightarrow> \<exists>d'. nvme' st = Some d' \<and> same_view d d')"
  shows "scan parse_meta nvme' = scan parse_meta nvme"
proof
  fix st
  show "scan parse_meta nvme' st = scan parse_meta nvme st"
  proof (cases "nvme st")
    case None
    with assms [of st] show ?thesis
      by (auto simp: scan_def same_view_def scan_stream_candidates candidates_def List.map_filter_simps split: option.splits)
  next
    case (Some d)
    with assms [of st] obtain d' where "nvme' st = Some d'" "same_view d d'" by auto
    with Some show ?thesis by (simp add: scan_def scan_stream_candidates same_view_def)
  qed
qed

lemma map_filter_update:
  assumes "\<And>f. g (n, f) = None" and "\<And>f. g' (n, f) = None"
    and "\<And>x. x \<in> set d \<Longrightarrow> fst x \<noteq> n \<Longrightarrow> g' x = g x"
  shows "List.map_filter g' (AList.update n f d) = List.map_filter g d"
  using assms(3)
proof (induction d)
  case Nil
  then show ?case by (simp add: List.map_filter_simps assms)
next
  case (Cons x d)
  obtain m v where x: "x = (m, v)" by fastforce
  show ?case
  proof (cases "m = n")
    case True
    have "List.map_filter g' d = List.map_filter g d"
    proof -
      have "g' y = g y" if "y \<in> set d" for y
        using Cons.prems [of y] that assms(1,2) by (cases "fst y = n") (metis list.set_intros(2) prod.collapse)+
      then show ?thesis by (induction d) (auto simp: List.map_filter_simps split: option.splits)
    qed
    with True x show ?thesis by (simp add: List.map_filter_simps assms(1,2))
  next
    case False
    with Cons x show ?thesis by (auto simp: List.map_filter_simps split: option.splits)
  qed
qed

lemma map_filter_delete:
  assumes "\<And>f. g (n, f) = None" and "\<And>x. x \<in> set d \<Longrightarrow> fst x \<noteq> n \<Longrightarrow> g' x = g x"
  shows "List.map_filter g' (AList.delete n d) = List.map_filter g d"
  using assms(2)
proof (induction d)
  case (Cons x d)
  obtain m v where x: "x = (m, v)" by fastforce
  with Cons show ?case by (cases "m = n") (auto simp: List.map_filter_simps assms(1) split: option.splits)
qed simp

lemma candidate_unseen:
  assumes "unseen (meta_bases d) n" and "\<And>m. m \<noteq> n \<Longrightarrow> map_of d' m = map_of d m"
  shows "scan_candidate parse_meta st d0 (n, f) = None"
    and "x \<in> set d \<Longrightarrow> fst x \<noteq> n \<Longrightarrow> scan_candidate parse_meta st d' x = scan_candidate parse_meta st d x"
proof -
  show "scan_candidate parse_meta st d0 (n, f) = None"
    using assms(1) by (auto simp: scan_candidate_def unseen_def ends_with_def)
  assume x: "x \<in> set d" "fst x \<noteq> n"
  show "scan_candidate parse_meta st d' x = scan_candidate parse_meta st d x"
  proof (cases "strip_suffix ''.meta.json'' (fst x)")
    case None
    then show ?thesis by (simp add: scan_candidate_def)
  next
    case (Some base)
    then have "fst x = base @ ''.meta.json''" by (simp add: strip_suffix_Some)
    with x(1) have "base \<in> meta_bases d" by (auto simp: meta_bases_def exists_in_iff intro: rev_image_eqI)
    then have "base @ ''.zst'' \<noteq> n" "base @ ''.idx'' \<noteq> n" using assms(1) by (auto simp: unseen_def)
    then have "map_of d' (base @ ''.zst'') = map_of d (base @ ''.zst'')"
      "map_of d' (base @ ''.idx'') = map_of d (base @ ''.idx'')" by (simp_all only: assms(2) not_False_eq_True)
    with Some show ?thesis by (simp add: scan_candidate_def Let_def)
  qed
qed

lemma same_view_create:
  assumes "unseen (meta_bases d) n"
  shows "same_view d (create_file n f d)"
proof -
  have eq: "\<And>m. m \<noteq> n \<Longrightarrow> map_of (create_file n f d) m = map_of d m" by simp
  note c = candidate_unseen [OF assms eq]
  have "candidates parse_meta st (create_file n f d) = candidates parse_meta st d" for parse_meta st
    unfolding candidates_def create_file_def
    by (rule map_filter_update) (use c in \<open>auto simp: create_file_def\<close>)
  moreover have "meta_bases (create_file n f d) = meta_bases d"
    using assms by (auto simp: meta_bases_def exists_in_def unseen_def ends_with_iff)
  ultimately show ?thesis by (simp add: same_view_def)
qed

lemma same_view_remove:
  assumes "unseen (meta_bases d) n"
  shows "same_view d (remove_file n d)"
proof -
  have eq: "\<And>m. m \<noteq> n \<Longrightarrow> map_of (remove_file n d) m = map_of d m" by simp
  note c = candidate_unseen [OF assms eq]
  have "candidates parse_meta st (remove_file n d) = candidates parse_meta st d" for parse_meta st
    unfolding candidates_def remove_file_def
    by (rule map_filter_delete) (use c in \<open>auto simp: remove_file_def\<close>)
  moreover have "meta_bases (remove_file n d) = meta_bases d"
    using assms by (auto simp: meta_bases_def exists_in_def unseen_def ends_with_iff)
  ultimately show ?thesis by (simp add: same_view_def)
qed

lemma same_view_apply:
  assumes "\<forall>n \<in> touches op. unseen (meta_bases d) n" and "apply_op now op d = Some d'"
  shows "same_view d d'"
proof (cases op)
  case (RenameFile a b)
  with assms(2) obtain f where "d' = create_file b f (remove_file a d)"
    by (auto simp: rename_file_def create_file_def remove_file_def split: option.splits)
  moreover have "same_view d (remove_file a d)" using assms(1) RenameFile by (intro same_view_remove) simp
  moreover have "same_view (remove_file a d) (create_file b f (remove_file a d))"
    using assms(1) RenameFile \<open>same_view d (remove_file a d)\<close> by (intro same_view_create) (simp add: same_view_def)
  ultimately show ?thesis using same_view_trans by blast
qed (use assms in \<open>auto intro: same_view_create same_view_remove split: if_splits\<close>)

lemma same_view_run:
  "\<forall>op \<in> set ops. \<forall>n \<in> touches op. unseen (meta_bases d) n \<Longrightarrow> run_ops fails now ops d = (d', r) \<Longrightarrow> same_view d d'"
proof (induction ops arbitrary: d)
  case (Cons op ops)
  show ?case
  proof (cases "fails op \<or> apply_op now op d = None")
    case True
    with Cons.prems(2) show ?thesis by (auto split: if_splits)
  next
    case False
    then obtain d1 where d1: "apply_op now op d = Some d1" "\<not> fails op" by auto
    have v: "same_view d d1" using Cons.prems(1) by (intro same_view_apply [OF _ d1(1)]) simp
    then have "same_view d1 d'"
      using Cons.prems d1 by (intro Cons.IH) (auto simp: same_view_def)
    with v show ?thesis by (rule same_view_trans)
  qed
qed simp

text \<open>A download that fails shows the scan nothing.\<close>

lemma unseen_partial: "reader_partial n \<Longrightarrow> unseen bases n"
proof -
  assume "reader_partial n"
  then obtain t where n: "n = t @ ''.partial''" by (auto simp: reader_partial_def ends_with_iff)
  have "t @ ''.partial'' \<noteq> b @ x" if "x \<in> {''.meta.json'', ''.zst'', ''.idx''}" for b x
  proof
    assume "t @ ''.partial'' = b @ x"
    then have "rev ''.partial'' @ rev t = rev x @ rev b" by (metis rev_append)
    with that show False by auto
  qed
  then show ?thesis by (auto simp: unseen_def ends_with_iff n)
qed

lemma unseen_final:
  assumes "stem a e \<notin> bases" and "x \<in> {''zst'', ''idx''}"
  shows "unseen bases (chunk_file a e x)"
proof -
  have ne: "chunk_file a e x \<noteq> b @ ''.'' @ y" if "y \<noteq> x" "CHR ''.'' \<notin> set b" for b y
  proof
    assume "chunk_file a e x = b @ ''.'' @ y"
    then have "split_once (CHR ''.'') (chunk_file a e x) = split_once (CHR ''.'') (b @ (CHR ''.'') # y)" by simp
    with that show False by simp
  qed
  have dot: "CHR ''.'' \<notin> set b" if "chunk_file a e x = b @ (CHR ''.'') # y" "CHR ''.'' \<notin> set y" for b y
  proof -
    have "rsplit_once (CHR ''.'') (chunk_file a e x) = Some (stem a e, x)"
      using assms(2) by (intro rsplit_chunk_file) auto
    moreover have "rsplit_once (CHR ''.'') (b @ (CHR ''.'') # y) = Some (b, y)" using that(2) by simp
    ultimately have "b = stem a e" using that(1) by simp
    then show ?thesis by simp
  qed
  have "chunk_file a e x \<noteq> t @ ''.meta.json''" for t
  proof
    assume "chunk_file a e x = t @ ''.meta.json''"
    then have "rev (chunk_file a e x) = rev ''.meta.json'' @ rev t" by (metis rev_append)
    with assms(2) show False by (auto simp: chunk_file_def)
  qed
  moreover have "chunk_file a e x \<noteq> b @ ''.zst'' \<and> chunk_file a e x \<noteq> b @ ''.idx''" if "b \<in> bases" for b
  proof -
    have "b = stem a e" if "chunk_file a e x = b @ (CHR ''.'') # y" "CHR ''.'' \<notin> set y" for y
      using dot [OF that] that(1) by (metis option.inject prod.inject split_chunk_file split_once_append)
    from this [of "''zst''"] this [of "''idx''"] that assms(1) show ?thesis by auto
  qed
  ultimately show ?thesis by (simp add: unseen_def ends_with_iff)
qed

lemma get_with_retry_view:
  assumes g: "get_with_retry fails get now key dest cfg (d, s) = (r, (d', s'), ds)" and p: "reader_partial dest"
  shows "same_view d d'"
proof -
  let ?I = "\<lambda>(d1, s1). same_view d d1"
  have "same_view d d1" if v: "same_view d d0" and a: "get_file fails get now key dest (d0, s0) = (r0, d1, s1)" for d0 s0 r0 d1 s1
  proof -
    have "d1 = d0 \<or> (\<exists>b r. run_ops fails now [CreateFile dest, WriteFile dest b, SyncFile dest] d0 = (d1, r))"
      using a unfolding get_file_def by (auto simp del: run_ops.simps split: option.splits prod.splits)
    moreover have "same_view d0 d1" if "run_ops fails now [CreateFile dest, WriteFile dest b, SyncFile dest] d0 = (d1, r)" for b r
      using unseen_partial [OF p] by (intro same_view_run [OF _ that]) simp
    ultimately have "same_view d0 d1" by auto
    with v show ?thesis by (rule same_view_trans)
  qed
  then have "\<forall>x0 r0 x1. ?I x0 \<longrightarrow> get_file fails get now key dest x0 = (r0, x1) \<longrightarrow> ?I x1" by auto
  with retry_spec [where I = ?I, OF g [unfolded get_with_retry_def]] show ?thesis by simp
qed

lemma download_files_view:
  assumes dl: "download_files fails get now cfg chunk exts (d, s) = (Inl bad, d', s')"
    and new: "stem (rc_start_slot chunk) (rc_end_slot chunk) \<notin> meta_bases d"
    and exts: "\<exists>pre. pre @ exts = [''zst'', ''idx'', ''meta.json'']"
  shows "same_view d d'"
  using dl new exts
proof (induction exts arbitrary: d s)
  case Nil
  then show ?case by simp
next
  case (Cons ext exts)
  let ?f = "chunk_file (rc_start_slot chunk) (rc_end_slot chunk) ext"
  let ?p = "?f @ ''.partial''"
  have p: "reader_partial ?p" by (auto simp: reader_partial_def ends_with_iff)
  obtain r1 d1 s1 ds where g: "get_with_retry fails get now
      (object_key (rc_stream chunk) (rc_start_slot chunk) (rc_end_slot chunk) ext) ?p cfg (d, s) = (r1, (d1, s1), ds)"
    by (metis surj_pair)
  note v1 = get_with_retry_view [OF g p]
  show ?case
  proof (cases r1)
    case (Inl e)
    with Cons.prems(1) g v1 show ?thesis by (simp add: Let_def)
  next
    case (Inr v)
    obtain d2 e2 where r: "run_ops fails now [RenameFile ?p ?f] d1 = (d2, e2)" by fastforce
    show ?thesis
    proof (cases e2)
      case (Some op)
      with r have "d2 = d1" by (auto split: if_splits option.splits)
      with Cons.prems(1) g Inr r Some v1 show ?thesis by (simp add: Let_def del: run_ops.simps)
    next
      case None
      with Cons.prems(1) g Inr r have rec: "download_files fails get now cfg chunk exts (d2, s1) = (Inl bad, d', s')"
        by (simp add: Let_def del: run_ops.simps)
      then have "exts \<noteq> []" by auto
      with Cons.prems(3) have ext: "ext \<in> {''zst'', ''idx''}" and pre: "\<exists>pre. pre @ exts = [''zst'', ''idx'', ''meta.json'']"
        by (auto simp: Cons_eq_append_conv append_eq_Cons_conv)
      have "stem (rc_start_slot chunk) (rc_end_slot chunk) \<notin> meta_bases d1" using Cons.prems(2) v1 by (simp add: same_view_def)
      then have v2: "same_view d1 d2"
        using unseen_final [OF _ ext] unseen_partial [OF p] by (intro same_view_run [OF _ r]) simp
      then have v12: "same_view d d2" using v1 same_view_trans by blast
      then have "stem (rc_start_slot chunk) (rc_end_slot chunk) \<notin> meta_bases d2" using Cons.prems(2) by (simp add: same_view_def)
      from Cons.IH [OF rec this pre] v12 show ?thesis using same_view_trans by blast
    qed
  qed
qed

text \<open>\<open>store_view\<close>: the scan sees two stores alike.\<close>

definition store_view :: "store \<Rightarrow> store \<Rightarrow> bool" where
  "store_view nvme nvme' \<longleftrightarrow>
     (\<forall>st. case nvme st of
             None \<Rightarrow> (case nvme' st of None \<Rightarrow> True | Some d' \<Rightarrow> same_view [] d')
           | Some d \<Rightarrow> \<exists>d'. nvme' st = Some d' \<and> same_view d d')"

lemma store_view_refl [simp]: "store_view nvme nvme"
  by (auto simp: store_view_def split: option.splits)

lemma store_view_trans:
  assumes "store_view a b" and "store_view b c"
  shows "store_view a c"
  unfolding store_view_def
proof
  fix st
  from assms have ab: "case a st of None \<Rightarrow> (case b st of None \<Rightarrow> True | Some d' \<Rightarrow> same_view [] d')
      | Some d \<Rightarrow> \<exists>d'. b st = Some d' \<and> same_view d d'"
    and bc: "case b st of None \<Rightarrow> (case c st of None \<Rightarrow> True | Some d' \<Rightarrow> same_view [] d')
      | Some d \<Rightarrow> \<exists>d'. c st = Some d' \<and> same_view d d'" by (simp_all add: store_view_def)
  show "case a st of None \<Rightarrow> (case c st of None \<Rightarrow> True | Some d' \<Rightarrow> same_view [] d')
      | Some d \<Rightarrow> \<exists>d'. c st = Some d' \<and> same_view d d'"
    using ab bc by (cases "a st"; cases "b st") (auto intro: same_view_trans split: option.splits)
qed

lemma store_view_update:
  "same_view (case nvme st of Some d \<Rightarrow> d | None \<Rightarrow> []) d' \<Longrightarrow> store_view nvme (nvme(st := Some d'))"
  by (auto simp: store_view_def split: option.splits)

definition bases_of :: "store \<Rightarrow> stream \<Rightarrow> string set" where
  "bases_of nvme st = meta_bases (case nvme st of Some d \<Rightarrow> d | None \<Rightarrow> [])"

lemma bases_of_view:
  assumes "store_view nvme nvme'"
  shows "bases_of nvme' st = bases_of nvme st"
proof -
  from assms have "case nvme st of None \<Rightarrow> (case nvme' st of None \<Rightarrow> True | Some d' \<Rightarrow> same_view [] d')
      | Some d \<Rightarrow> \<exists>d'. nvme' st = Some d' \<and> same_view d d'" by (simp add: store_view_def)
  then show ?thesis
    by (cases "nvme st"; cases "nvme' st") (auto simp: bases_of_def same_view_def)
qed

lemma scan_store_view: "store_view nvme nvme' \<Longrightarrow> scan parse_meta nvme' = scan parse_meta nvme"
  by (rule scan_same_view) (simp add: store_view_def)

lemma download_all_count: "download_all fails get now cfg cs w = (n, w') \<Longrightarrow> unat n \<le> length cs"
proof (induction cs arbitrary: w n w')
  case (Cons c cs)
  obtain nvme s where w: "w = (nvme, s)" by fastforce
  obtain r d1 s1 where dl: "download_chunk fails get now cfg c (case nvme (rc_stream c) of Some d \<Rightarrow> d | None \<Rightarrow> [], s) = (r, d1, s1)"
    by (metis surj_pair)
  obtain n1 w1 where rec: "download_all fails get now cfg cs (nvme(rc_stream c := Some d1), s1) = (n1, w1)"
    by (metis surj_pair)
  have "n = n1 \<or> n = n1 + 1" using Cons.prems w dl rec by (auto split: if_splits)
  moreover have "unat (n1 + 1) \<le> Suc (unat n1)" by (simp add: unat_word_ariths)
  ultimately show ?case using Cons.IH [OF rec] by auto
qed simp

lemma download_all_none:
  assumes "download_all fails get now cfg cs (nvme, s) = (n, nvme', s')" and "n = 0" and "length cs < 2 ^ 32"
    and "\<forall>c \<in> set cs. stem (rc_start_slot c) (rc_end_slot c) \<notin> bases_of nvme (rc_stream c)"
  shows "store_view nvme nvme'"
  using assms
proof (induction cs arbitrary: nvme s n)
  case (Cons c cs)
  let ?d = "case nvme (rc_stream c) of Some d \<Rightarrow> d | None \<Rightarrow> []"
  obtain r d1 s1 where dl: "download_chunk fails get now cfg c (?d, s) = (r, d1, s1)"
    by (metis surj_pair)
  obtain n1 w1 where rec: "download_all fails get now cfg cs (nvme(rc_stream c := Some d1), s1) = (n1, w1)"
    by (metis surj_pair)
  have "unat n1 \<le> length cs" by (rule download_all_count [OF rec])
  then have "unat n1 + 1 < 2 ^ 32" using Cons.prems(3) by simp
  then have "unat (n1 + 1) = unat n1 + 1" by (simp add: unat_word_ariths)
  then have "n1 + 1 \<noteq> 0" by (metis Suc_eq_plus1 nat.simps(3) unat_0)
  then have n1: "n1 = 0" and e: "isl r" and w1: "w1 = (nvme', s')"
    using Cons.prems(1,2) dl rec by (auto split: if_splits)
  from e obtain bad where bad: "r = Inl bad" by (cases r) auto
  have v: "same_view ?d d1"
    using Cons.prems(4) by (intro download_files_view [OF dl [unfolded download_chunk_def bad]]) (auto simp: bases_of_def)
  have v1: "store_view nvme (nvme(rc_stream c := Some d1))" using v by (rule store_view_update)
  have "store_view (nvme(rc_stream c := Some d1)) nvme'"
    using Cons.prems(3,4) by (intro Cons.IH [OF rec [unfolded w1] n1]) (auto simp only: bases_of_view [OF v1] length_Cons list.set insert_iff)
  with v1 show ?case by (rule store_view_trans)
qed simp

lemma not_local_no_base:
  "key_of_remote c \<notin> set (local_chunks nvme) \<Longrightarrow> stem (rc_start_slot c) (rc_end_slot c) \<notin> bases_of nvme (rc_stream c)"
proof
  assume new: "key_of_remote c \<notin> set (local_chunks nvme)" and "stem (rc_start_slot c) (rc_end_slot c) \<in> bases_of nvme (rc_stream c)"
  then obtain d where "nvme (rc_stream c) = Some d" "exists_in d (chunk_file (rc_start_slot c) (rc_end_slot c) ''meta.json'')"
    by (auto simp: bases_of_def meta_bases_def chunk_file_def exists_in_def split: option.splits)
  then have "key_of_remote c \<in> set (local_chunks nvme)"
    unfolding in_local_chunks by (auto simp: key_of_remote_def intro!: exI [of _ "chunk_file (rc_start_slot c) (rc_end_slot c) ''meta.json''"])
  with new show False by blast
qed

lemma local_chunks_view:
  assumes "store_view nvme nvme'"
  shows "length (local_chunks nvme') = length (local_chunks nvme)"
proof -
  have mem: "c \<in> set (local_chunks nv) \<longleftrightarrow> (\<exists>base \<in> bases_of nv (ck3_stream c).
      parse_meta_name (base @ ''.meta.json'') = Some (ck3_start c, ck3_end c))" for c nv
  proof
    assume "c \<in> set (local_chunks nv)"
    then obtain d n where n: "nv (ck3_stream c) = Some d" "exists_in d n" "parse_meta_name n = Some (ck3_start c, ck3_end c)"
      by (auto simp: in_local_chunks)
    from parse_meta_name_Some [OF n(3)] obtain base where "n = base @ ''.meta.json''" ..
    with n show "\<exists>base \<in> bases_of nv (ck3_stream c). parse_meta_name (base @ ''.meta.json'') = Some (ck3_start c, ck3_end c)"
      by (auto simp: bases_of_def meta_bases_def)
  next
    assume "\<exists>base \<in> bases_of nv (ck3_stream c). parse_meta_name (base @ ''.meta.json'') = Some (ck3_start c, ck3_end c)"
    then show "c \<in> set (local_chunks nv)"
      by (auto simp: in_local_chunks bases_of_def meta_bases_def exists_in_def split: option.splits)
  qed
  have "set (local_chunks nvme') = set (local_chunks nvme)"
    using bases_of_view [OF assms] by (auto simp: mem)
  then show ?thesis
    by (simp add: local_chunks_def length_remdups_card_conv)
qed

text \<open>The published catalog is always the scan of the disk.\<close>

definition fresh :: "(bytes \<Rightarrow> chunk_meta option) \<Rightarrow> 's syncer \<Rightarrow> bool" where
  "fresh parse_meta y \<longleftrightarrow> snapshot (sy_catalog y) = scan parse_meta (sy_store y)"

lemma length_diff: "length (diff_for_sync local remote hours) \<le> length remote"
  unfolding diff_for_sync_def Let_def length_sort by (rule le_trans [OF length_filter_le length_filter_le])

lemma cycle_fresh:
  assumes f: "fresh parse_meta y"
    and small: "\<And>list_r2 get remote s. r2 = Some (list_r2, get) \<Longrightarrow> list_r2 (sy_net y) = (Inr remote, s) \<Longrightarrow>
      length remote < 2 ^ 32"
    and few: "length (local_chunks (sy_store y)) < 2 ^ 32"
  shows "fresh parse_meta (syncer_cycle parse_meta fails r2 now cfg y)"
proof (cases r2)
  case None
  with f show ?thesis by (simp add: syncer_cycle_def)
next
  case (Some p)
  obtain list_r2 get where r2: "r2 = Some (list_r2, get)" using Some by (cases p) auto
  obtain l s where l: "list_r2 (sy_net y) = (l, s)" by fastforce
  show ?thesis
  proof (cases l)
    case (Inl e)
    with f l r2 show ?thesis by (simp add: syncer_cycle_def fresh_def)
  next
    case (Inr remote)
    let ?local = "local_chunks (sy_store y)"
    let ?dl = "diff_for_sync ?local remote (r_local_retention_hours cfg)"
    obtain n nvme s' where dl: "download_all fails get now cfg ?dl (sy_store y, s) = (n, nvme, s')" by (metis surj_pair)
    obtain m nvme' where sw: "reader_sweep_retention fails (r_local_retention_hours cfg) nvme = (m, nvme')" by fastforce
    have cyc: "syncer_cycle parse_meta fails r2 now cfg y =
      (let y' = y\<lparr>sy_store := nvme', sy_net := s'\<rparr> in if n > 0 \<or> m > 0 then republish_catalog parse_meta y' else y')"
      using l r2 Inr dl sw by (simp add: syncer_cycle_def Let_def)
    show ?thesis
    proof (cases "n > 0 \<or> m > 0")
      case True
      then show ?thesis by (simp add: cyc Let_def fresh_def republish_catalog_def snapshot_def store_catalog_def)
    next
      case False
      then have n0: "n = 0" and m0: "m = 0" by (simp_all add: word_neq_0_conv [symmetric])
      have "length ?dl < 2 ^ 32"
        using length_diff [of ?local remote "r_local_retention_hours cfg"] small [OF r2 l [unfolded Inr]] by simp
      moreover have "\<forall>c \<in> set ?dl. stem (rc_start_slot c) (rc_end_slot c) \<notin> bases_of (sy_store y) (rc_stream c)"
        using not_local_no_base by (auto simp: set_diff_for_sync)
      ultimately have v: "store_view (sy_store y) nvme" by (rule download_all_none [OF dl n0])
      let ?ex = "expired_chunks (r_local_retention_hours cfg) (local_chunks nvme)"
      have "length ?ex \<le> length (local_chunks nvme)"
        by (simp add: expired_chunks_def Let_def)
      then have "length ?ex < 2 ^ 32" using few local_chunks_view [OF v] by simp
      then have "unat (of_nat (length ?ex) :: u32) = length ?ex" by (simp add: unat_of_nat take_bit_nat_eq_self)
      moreover have "(of_nat (length ?ex) :: u32) = 0" using sw m0 by (simp add: reader_sweep_retention_def Let_def)
      ultimately have "?ex = []" by simp
      then have "nvme' = nvme" using sw by (simp add: reader_sweep_retention_def Let_def)
      with f False scan_store_view [OF v] show ?thesis by (simp add: cyc Let_def fresh_def)
    qed
  qed
qed

section \<open>A downloaded chunk\<close>

text \<open>
  One file of the download, all outcomes: either the final files are as they were and the
  download stops with an error, or exactly one new final file appears, holding the object.
\<close>

lemma download_files_Cons:
  assumes laws: "get_laws get obj"
    and dl: "download_files fails get now cfg chunk (ext # exts) (d, s) = (r, d', s')"
    and np: "\<not> reader_partial (chunk_file (rc_start_slot chunk) (rc_end_slot chunk) ext)"
  shows "(\<exists>bad. r = Inl bad) \<and> finals_kept d d' \<and> obj s' = obj s \<or>
    (\<exists>b d1 s1. obj s (object_key (rc_stream chunk) (rc_start_slot chunk) (rc_end_slot chunk) ext) = Some b \<and>
       obj s1 = obj s \<and> download_files fails get now cfg chunk exts (d1, s1) = (r, d', s') \<and>
       (\<forall>n. \<not> reader_partial n \<longrightarrow> map_of d1 n =
          (if n = chunk_file (rc_start_slot chunk) (rc_end_slot chunk) ext
           then Some \<lparr>content = b, mtime = now\<rparr> else map_of d n)))"
proof -
  let ?f = "chunk_file (rc_start_slot chunk) (rc_end_slot chunk) ext"
  let ?k = "object_key (rc_stream chunk) (rc_start_slot chunk) (rc_end_slot chunk) ext"
  have p: "reader_partial (?f @ ''.partial'')" by (auto simp: reader_partial_def ends_with_iff)
  obtain r1 d1 s1 ds where g: "get_with_retry fails get now ?k (?f @ ''.partial'') cfg (d, s) = (r1, (d1, s1), ds)"
    by (metis surj_pair)
  note g1 = get_with_retry_spec [OF laws p g]
  show ?thesis
  proof (cases r1)
    case (Inl e)
    with dl g g1 have "r = Inl e" "d' = d1" "s' = s1" by (simp_all add: Let_def)
    with g1 show ?thesis by blast
  next
    case (Inr v)
    obtain d2 e2 where ro: "run_ops fails now [RenameFile (?f @ ''.partial'') ?f] d1 = (d2, e2)" by fastforce
    show ?thesis
    proof (cases e2)
      case (Some op)
      with ro have "d2 = d1" by (auto split: if_splits option.splits)
      with dl g Inr ro Some have "r = Inl (GaveUp (FileFailed op))" "d' = d1" "s' = s1"
        by (simp_all add: Let_def del: run_ops.simps)
      with g1 show ?thesis by blast
    next
      case None
      with dl g Inr ro have rec: "download_files fails get now cfg chunk exts (d2, s1) = (r, d', s')"
        by (simp add: Let_def del: run_ops.simps)
      from download_files_step [OF laws refl g [unfolded Inr] ro [unfolded None] np] rec show ?thesis by blast
    qed
  qed
qed

lemma exists_same: "\<not> reader_partial n \<Longrightarrow> finals_kept d d' \<Longrightarrow> exists_in d' n = exists_in d n"
  by (simp add: finals_kept_def exists_in_def)

lemma dir_complete_kept: "finals_kept d d' \<Longrightarrow> dir_complete d \<Longrightarrow> dir_complete d'"
  by (simp add: dir_complete_def exists_same)

lemma dir_complete_set:
  assumes d: "dir_complete d"
    and m: "\<forall>n. \<not> reader_partial n \<longrightarrow> map_of d1 n = (if n = chunk_file a e x then Some f else map_of d n)"
    and x: "x = ''meta.json'' \<Longrightarrow> exists_in d (chunk_file a e ''zst'') \<and> exists_in d (chunk_file a e ''idx'')"
  shows "dir_complete d1"
proof -
  have ex: "exists_in d1 n \<longleftrightarrow> n = chunk_file a e x \<or> exists_in d n" if "\<not> reader_partial n" for n
    using m that by (simp add: exists_in_def)
  show ?thesis using d x by (auto simp: dir_complete_def ex)
qed

lemma download_chunk_spec:
  assumes laws: "get_laws get obj" and d: "dir_complete d"
    and dl: "download_chunk fails get now cfg chunk (d, s) = (r, d', s')"
  shows "dir_complete d' \<and> obj s' = obj s \<and>
    (r = Inr () \<longrightarrow> (\<forall>x \<in> {''zst'', ''idx'', ''meta.json''}. \<exists>b.
       obj s (object_key (rc_stream chunk) (rc_start_slot chunk) (rc_end_slot chunk) x) = Some b \<and>
       map_of d' (chunk_file (rc_start_slot chunk) (rc_end_slot chunk) x) = Some \<lparr>content = b, mtime = now\<rparr>))"
proof -
  let ?f = "chunk_file (rc_start_slot chunk) (rc_end_slot chunk)"
  let ?k = "object_key (rc_stream chunk) (rc_start_slot chunk) (rc_end_slot chunk)"
  from download_files_Cons [OF laws dl [unfolded download_chunk_def] final_not_partial(2)]
  consider (err) "\<exists>bad. r = Inl bad" "finals_kept d d'" "obj s' = obj s"
    | (step) b d1 s1 where "obj s (?k ''zst'') = Some b" "obj s1 = obj s"
      "download_files fails get now cfg chunk [''idx'', ''meta.json''] (d1, s1) = (r, d', s')"
      "\<forall>n. \<not> reader_partial n \<longrightarrow> map_of d1 n = (if n = ?f ''zst'' then Some \<lparr>content = b, mtime = now\<rparr> else map_of d n)"
    by blast
  then show ?thesis
  proof cases
    case err
    with d dir_complete_kept show ?thesis by auto
  next
    case (step b d1 s1)
    have c1: "dir_complete d1" by (rule dir_complete_set [OF d step(4)]) simp
    from download_files_Cons [OF laws step(3) final_not_partial(3)]
    consider (err) "\<exists>bad. r = Inl bad" "finals_kept d1 d'" "obj s' = obj s1"
      | (step2) b2 d2 s2 where "obj s1 (?k ''idx'') = Some b2" "obj s2 = obj s1"
        "download_files fails get now cfg chunk [''meta.json''] (d2, s2) = (r, d', s')"
        "\<forall>n. \<not> reader_partial n \<longrightarrow> map_of d2 n = (if n = ?f ''idx'' then Some \<lparr>content = b2, mtime = now\<rparr> else map_of d1 n)"
      by blast
    then show ?thesis
    proof cases
      case err
      with c1 step(2) dir_complete_kept show ?thesis by auto
    next
      case (step2 b2 d2 s2)
      have c2: "dir_complete d2" by (rule dir_complete_set [OF c1 step2(4)]) simp
      have here: "map_of d2 (?f ''zst'') = Some \<lparr>content = b, mtime = now\<rparr>" "map_of d2 (?f ''idx'') = Some \<lparr>content = b2, mtime = now\<rparr>"
        using step(4) step2(4) by simp_all
      from download_files_Cons [OF laws step2(3) final_not_partial(1)]
      consider (err) "\<exists>bad. r = Inl bad" "finals_kept d2 d'" "obj s' = obj s2"
        | (step3) b3 d3 s3 where "obj s2 (?k ''meta.json'') = Some b3" "obj s3 = obj s2"
          "download_files fails get now cfg chunk [] (d3, s3) = (r, d', s')"
          "\<forall>n. \<not> reader_partial n \<longrightarrow> map_of d3 n = (if n = ?f ''meta.json'' then Some \<lparr>content = b3, mtime = now\<rparr> else map_of d2 n)"
        by blast
      then show ?thesis
      proof cases
        case err
        with c2 step(2) step2(2) dir_complete_kept show ?thesis by auto
      next
        case (step3 b3 d3 s3)
        have "dir_complete d3" by (rule dir_complete_set [OF c2 step3(4)]) (simp add: exists_in_def here)
        moreover have "d' = d3" "s' = s3" using step3(3) by simp_all
        moreover have "map_of d3 (?f ''zst'') = Some \<lparr>content = b, mtime = now\<rparr>"
          "map_of d3 (?f ''idx'') = Some \<lparr>content = b2, mtime = now\<rparr>"
          "map_of d3 (?f ''meta.json'') = Some \<lparr>content = b3, mtime = now\<rparr>" using here step3(4) by simp_all
        ultimately show ?thesis using step(1,2) step2(1,2) step3(1,2) by simp
      qed
    qed
  qed
qed

section \<open>Properties\<close>




text \<open>C11: A download, successful or not and wherever it stops, leaves a complete directory complete and
  the bucket as it was; one that succeeds leaves under the three final names what the bucket holds
  under the chunk's three keys.\<close>

theorem download_is_atomic:
  assumes "get_laws get obj" and "dir_complete d"
    and "download_chunk fails get now cfg chunk (d, s) = (r, d', s')"
  shows "dir_complete d' \<and> obj s' = obj s \<and>
    (r = Inr () \<longrightarrow> (\<forall>x \<in> {''zst'', ''idx'', ''meta.json''}. \<exists>b.
       obj s (object_key (rc_stream chunk) (rc_start_slot chunk) (rc_end_slot chunk) x) = Some b \<and>
       map_of d' (chunk_file (rc_start_slot chunk) (rc_end_slot chunk) x) = Some \<lparr>content = b, mtime = now\<rparr>))"
  using assms by (rule download_chunk_spec)

definition example_reader :: reader_config where
  "example_reader = default_reader\<lparr>r_retry_attempts := 2\<rparr>"

definition example_remote :: r2_chunk where
  "example_remote = \<lparr>rc_stream = Tx, rc_start_slot = 10, rc_end_slot = 20, key_prefix = ''chunks/tx/'' @ stem 10 20\<rparr>"

definition example_bucket :: list_bucket where
  "example_bucket = (map (\<lambda>x. (object_key Tx 10 20 x, [7])) [''zst'', ''idx'', ''meta.json''], [Some False])"

lemma download_is_atomic_witness:
  "\<exists>d' s'. download_chunk (\<lambda>_. False) list_get 5 example_reader example_remote ([], example_bucket) = (Inr (), d', s') \<and>
     dir_complete d' \<and> map_of d' (chunk_file 10 20 ''idx'') = Some \<lparr>content = [7], mtime = 5\<rparr>"
proof -
  obtain r d' s' where dl: "download_chunk (\<lambda>_. False) list_get 5 example_reader example_remote ([], example_bucket) = (r, d', s')"
    by (metis surj_pair)
  have d0: "dir_complete []" by (simp add: dir_complete_def exists_in_def)
  have r: "r = Inr ()"
    using dl by (simp add: download_chunk_def example_reader_def example_remote_def example_bucket_def Let_def
        get_with_retry_def retry.simps get_file_def rename_file_def create_file_def update_conv' backoff_def
        chunk_file_ext)
  from download_is_atomic [OF list_get_laws d0 dl] r have "dir_complete d'"
    and "\<exists>b. list_obj example_bucket (object_key Tx 10 20 ''idx'') = Some b \<and>
       map_of d' (chunk_file 10 20 ''idx'') = Some \<lparr>content = b, mtime = 5\<rparr>"
    by (auto simp: example_remote_def)
  moreover have "list_obj example_bucket (object_key Tx 10 20 ''idx'') = Some [7]"
    by (simp add: list_obj_def example_bucket_def)
  ultimately show ?thesis using dl r by auto
qed

text \<open>The catalog the reader serves from is never stale: when it is the scan of the disk before a
  cycle of the syncer it is after the cycle, although the cycle republishes it only when it counted
  a download or an eviction. Failed downloads leave nothing a scan would show.\<close>

theorem catalog_stays_fresh:
  assumes "snapshot (sy_catalog y) = scan parse_meta (sy_store y)"
    and "\<forall>list_r2 get remote s. r2 = Some (list_r2, get) \<longrightarrow> list_r2 (sy_net y) = (Inr remote, s) \<longrightarrow> length remote < 2 ^ 32"
    and "length (local_chunks (sy_store y)) < 2 ^ 32"
  shows "snapshot (sy_catalog (syncer_cycle parse_meta fails r2 now cfg y)) =
    scan parse_meta (sy_store (syncer_cycle parse_meta fails r2 now cfg y))"
  using cycle_fresh [of parse_meta y r2 fails now cfg] assms by (simp add: fresh_def)

lemma catalog_stays_fresh_witness:
  "let y = \<lparr>sy_store = (\<lambda>_. None), sy_net = example_bucket, sy_catalog = \<lparr>current = (\<lambda>_. None)\<rparr>\<rparr>;
       y' = syncer_cycle (\<lambda>_. None) (\<lambda>_. False) (Some (\<lambda>s. (Inr [example_remote], s), list_get)) 5 example_reader y
   in snapshot (sy_catalog y') = scan (\<lambda>_. None) (sy_store y')"
proof -
  let ?y = "\<lparr>sy_store = (\<lambda>_. None), sy_net = example_bucket, sy_catalog = \<lparr>current = (\<lambda>_. None)\<rparr>\<rparr>"
  have f: "snapshot (sy_catalog ?y) = scan (\<lambda>_. None) (sy_store ?y)"
    by (simp add: snapshot_def scan_def fun_eq_iff)
  have "length (local_chunks (sy_store ?y)) < 2 ^ 32"
    by (simp add: local_chunks_def all_streams_def)
  with catalog_stays_fresh [OF f] show ?thesis by (auto simp: Let_def)
qed

end
