(* ===== verification/ReaderIndex.thy ===== *)
theory ReaderIndex
  imports WriterIndex Lru
begin

text \<open>
  The reader's side of the \<open>.idx\<close> format (\<open>sillage-reader/src/index.rs\<close>): parsing the file,
  the lookup table, reading one bitmap on demand, and the cache of parsed indexes, which is
  the cache of theory \<open>Lru\<close>. The last section proves that the reader finds in a serialized
  index exactly the postings the writer's builder held.
\<close>

section \<open>Parsing\<close>

datatype parse_error =
    ReadFailed
  | TooShort nat
  | WrongMagic bytes
  | WrongVersion u8
  | HeaderPastEnd nat nat
  | HeaderDecodeFailed

datatype bitmap_error =
    SlicePastBody u64 u64 nat
  | SlicePanic
  | BitmapDecodeFailed

record chunk_index =
  ci_raw :: bytes
  ci_header :: idx_header
  lookup :: "(string \<times> (dim_value \<times> (u64 \<times> u64)) list) list"
  body_start :: nat

definition value_map :: "dim_entry_header list \<Rightarrow> (dim_value \<times> (u64 \<times> u64)) list" where
  "value_map entries =
     foldl (\<lambda>m e. AList.update (de_value e) (de_offset e, de_length e) m) [] entries"

definition build_lookup :: "dimension_header list \<Rightarrow> (string \<times> (dim_value \<times> (u64 \<times> u64)) list) list" where
  "build_lookup ds = foldl (\<lambda>l d. AList.update (dh_name d) (value_map (dh_entries d)) l) [] ds"

text \<open>\<open>parse_chunk_index\<close> on the file's bytes; \<open>unrmp\<close> is \<open>rmp_serde::from_slice\<close>.\<close>

definition parse_chunk_index :: "(bytes \<Rightarrow> idx_header option) \<Rightarrow> bytes option
    \<Rightarrow> parse_error + chunk_index" where
  "parse_chunk_index unrmp file =
     (case file of
        None \<Rightarrow> Inl ReadFailed
      | Some data \<Rightarrow>
          if length data < 9 then Inl (TooShort (length data))
          else if take 4 data \<noteq> IDX_MAGIC then Inl (WrongMagic (take 4 data))
          else if data ! 4 \<noteq> IDX_VERSION then Inl (WrongVersion (data ! 4))
          else
            let header_len = unat (u32_from_le (data ! 5) (data ! 6) (data ! 7) (data ! 8))
            in if length data < 9 + header_len then Inl (HeaderPastEnd header_len (length data))
               else (case unrmp (take header_len (drop 9 data)) of
                       None \<Rightarrow> Inl HeaderDecodeFailed
                     | Some header \<Rightarrow>
                         Inr \<lparr>ci_raw = data, ci_header = header,
                              lookup = build_lookup (ih_dimensions header),
                              body_start = 9 + header_len\<rparr>))"

definition ci_message_count :: "chunk_index \<Rightarrow> u64" where
  "ci_message_count idx = ih_message_count (ci_header idx)"

definition ci_stream :: "chunk_index \<Rightarrow> string" where
  "ci_stream idx = ih_stream (ci_header idx)"

definition dimensions :: "chunk_index \<Rightarrow> string list" where
  "dimensions idx = map dh_name (ih_dimensions (ci_header idx))"

definition dim_values :: "chunk_index \<Rightarrow> string \<Rightarrow> dim_value list option" where
  "dim_values idx d = map_option (map fst) (map_of (lookup idx) d)"

text \<open>
  \<open>bitmap_for\<close>. The sum of the two header fields wraps as \<open>usize\<close>; a wrapped end that lies
  below the start makes the slice panic.
\<close>

definition bitmap_for :: "'bm roaring \<Rightarrow> chunk_index \<Rightarrow> string \<Rightarrow> dim_value
    \<Rightarrow> bitmap_error + 'bm option" where
  "bitmap_for R idx d v =
     (case map_of (lookup idx) d of
        None \<Rightarrow> Inr None
      | Some dim_map \<Rightarrow>
          (case map_of dim_map v of
             None \<Rightarrow> Inr None
           | Some (start, len) \<Rightarrow>
               let body = drop (body_start idx) (ci_raw idx);
                   end_pos = start + len
               in if unat end_pos > length body then Inl (SlicePastBody start end_pos (length body))
                  else if end_pos < start then Inl SlicePanic
                  else (case rb_deserialize R (take (unat end_pos - unat start) (drop (unat start) body)) of
                          None \<Rightarrow> Inl BitmapDecodeFailed
                        | Some bm \<Rightarrow> Inr (Some bm))))"

section \<open>Index cache\<close>

record index_cache_key =
  ik_stream :: stream
  ik_start_slot :: u64

type_synonym index_cache = "(index_cache_key, chunk_index) cache_inner"

text \<open>
  The size of a parsed index counts the capacity of its hash maps, which the standard
  library does not specify: it is the parameter \<open>heap_bytes\<close>.
\<close>

definition get_or_parse :: "(bytes \<Rightarrow> idx_header option) \<Rightarrow> (chunk_index \<Rightarrow> nat) \<Rightarrow> u64
    \<Rightarrow> index_cache_key \<Rightarrow> bytes option \<Rightarrow> index_cache
    \<Rightarrow> (parse_error + chunk_index) \<times> index_cache" where
  "get_or_parse unrmp heap_bytes budget key idx_file c =
     get_or_load heap_bytes budget key (parse_chunk_index unrmp idx_file) c"

interpretation index_cache: loading_cache "get_or_parse unrmp heap_bytes budget" "parse_chunk_index unrmp"
    "\<lambda>files. coherent (parse_chunk_index unrmp \<circ> files)" for unrmp heap_bytes budget
  by unfold_locales
    (simp_all add: get_or_parse_def get_or_load_coherent
      [where load = "parse_chunk_index unrmp \<circ> files" for files, simplified comp_apply])

section \<open>The lookup table\<close>

lemma map_of_foldl_update:
  "map_of (foldl (\<lambda>m x. AList.update (f x) (g x) m) m0 xs) k =
    (case map_of (rev (map (\<lambda>x. (f x, g x)) xs)) k of None \<Rightarrow> map_of m0 k | Some v \<Rightarrow> Some v)"
  by (induction xs arbitrary: m0)
    (auto simp: update_conv' map_of_append map_add_def split: option.splits)

lemma map_of_foldl_update_distinct:
  assumes "distinct (map f xs)"
  shows "map_of (foldl (\<lambda>m x. AList.update (f x) (g x) m) [] xs) = map_of (map (\<lambda>x. (f x, g x)) xs)"
proof
  fix k
  have "map_of (rev (map (\<lambda>x. (f x, g x)) xs)) = map_of (map (\<lambda>x. (f x, g x)) xs)"
    using assms by (intro map_of_inject_set [THEN iffD2]) (auto simp: o_def rev_map [symmetric])
  then show "map_of (foldl (\<lambda>m x. AList.update (f x) (g x) m) [] xs) k =
      map_of (map (\<lambda>x. (f x, g x)) xs) k"
    by (simp add: map_of_foldl_update split: option.splits)
qed

lemma map_of_list_all2:
  assumes "list_all2 P xs ys" and "\<And>x y. P x y \<Longrightarrow> f y = fst x"
  shows "(case map_of xs k of
            None \<Rightarrow> map_of (map (\<lambda>y. (f y, g y)) ys) k = None
          | Some v \<Rightarrow> \<exists>y. P (k, v) y \<and> map_of (map (\<lambda>y. (f y, g y)) ys) k = Some (g y))"
  using assms(1)
proof (induction xs ys rule: list_all2_induct)
  case (Cons x xs y ys)
  from assms(2) [OF Cons.hyps(1)] Cons show ?case
    by (cases x) (auto split: option.splits)
qed simp

section \<open>Reading what the writer wrote\<close>

text \<open>
  The documented behaviour of the MessagePack package the round trip relies on: decoding an
  encoded header gives it back.
\<close>

definition rmp_ok :: "(idx_header \<Rightarrow> bytes option) \<Rightarrow> (bytes \<Rightarrow> idx_header option) \<Rightarrow> bool" where
  "rmp_ok rmp unrmp \<longleftrightarrow> (\<forall>h hb. rmp h = Some hb \<longrightarrow> unrmp hb = Some h)"

text \<open>A header below 4 GiB, so that its 32-bit length is exact.\<close>

definition header_fits :: "(idx_header \<Rightarrow> bytes option) \<Rightarrow> idx_header \<Rightarrow> bool" where
  "header_fits rmp h \<longleftrightarrow> (case rmp h of None \<Rightarrow> False | Some hb \<Rightarrow> length hb < 2 ^ 32)"

lemma nth_append_at: "length xs = n \<Longrightarrow> (xs @ y # ys) ! n = y"
  by (simp add: nth_append)

lemma nth_middle: "i < length ys \<Longrightarrow> length xs = n \<Longrightarrow> (xs @ ys @ zs) ! (n + i) = ys ! i"
  by (simp add: nth_append)

lemma layout_read:
  assumes raw: "raw = IDX_MAGIC @ [IDX_VERSION] @ u32_to_le w @ rest"
  shows "length raw = 9 + length rest" "take 4 raw = IDX_MAGIC" "raw ! 4 = IDX_VERSION"
    "u32_from_le (raw ! 5) (raw ! 6) (raw ! 7) (raw ! 8) = w" "drop 9 raw = rest"
proof -
  have magic: "length IDX_MAGIC = 4" by (simp add: IDX_MAGIC_def)
  show "length raw = 9 + length rest" and "take 4 raw = IDX_MAGIC"
    by (simp_all add: raw magic)
  show "raw ! 4 = IDX_VERSION"
    using nth_middle [of 0 "[IDX_VERSION]" IDX_MAGIC 4] by (simp add: raw magic)
  have "raw ! (5 + i) = u32_to_le w ! i" if "i < 4" for i
    using nth_middle [of i "u32_to_le w" "IDX_MAGIC @ [IDX_VERSION]" 5 rest] that by (simp add: raw magic)
  from this [of 0] this [of 1] this [of 2] this [of 3]
  have "raw ! 5 = ucast w" "raw ! 6 = ucast (drop_bit 8 w)" "raw ! 7 = ucast (drop_bit 16 w)"
      "raw ! 8 = ucast (drop_bit 24 w)"
    by (simp_all add: u32_to_le_def)
  then show "u32_from_le (raw ! 5) (raw ! 6) (raw ! 7) (raw ! 8) = w"
    by (simp only: u32_from_to_le)
  have "raw = (IDX_MAGIC @ [IDX_VERSION] @ u32_to_le w) @ rest" by (simp add: raw)
  moreover have "length (IDX_MAGIC @ [IDX_VERSION] @ u32_to_le w) = 9" by (simp add: magic)
  ultimately show "drop 9 raw = rest" by (metis append_eq_conv_conj)
qed

lemma parse_layout:
  assumes raw: "raw = IDX_MAGIC @ [IDX_VERSION] @ u32_to_le (of_nat (length hb)) @ hb @ body"
    and small: "length hb < 2 ^ 32" and dec: "unrmp hb = Some h"
  shows "parse_chunk_index unrmp (Some raw) =
    Inr \<lparr>ci_raw = raw, ci_header = h, lookup = build_lookup (ih_dimensions h), body_start = 9 + length hb\<rparr>"
    and "drop (9 + length hb) raw = body"
proof -
  note read = layout_read [OF raw]
  have len: "unat (u32_from_le (raw ! 5) (raw ! 6) (raw ! 7) (raw ! 8)) = length hb"
    using small by (simp add: read(4) unat_of_nat take_bit_nat_eq_self)
  have "take (length hb) (drop 9 raw) = hb" by (simp add: read(5))
  with dec read(1-3) show "parse_chunk_index unrmp (Some raw) =
      Inr \<lparr>ci_raw = raw, ci_header = h, lookup = build_lookup (ih_dimensions h), body_start = 9 + length hb\<rparr>"
    unfolding parse_chunk_index_def Let_def len option.case by simp
  have "drop (9 + length hb) raw = drop (length hb) (drop 9 raw)" by (simp add: add.commute)
  then show "drop (9 + length hb) raw = body" by (simp add: read(5))
qed

lemma lookup_serialized:
  assumes ok: "builder_ok st b" and layout: "list_all2 (dim_in R b body) (order b) hs"
  shows "(case map_of (dims b) d of
            None \<Rightarrow> map_of (build_lookup hs) d = None
          | Some m \<Rightarrow> \<exists>es. list_all2 (entry_in R body) m es \<and> map_of (build_lookup hs) d = Some (value_map es))"
proof -
  have names: "map dh_name hs = order b"
    using layout by (induction rule: list_all2_induct) (auto simp: dim_in_def)
  have keys: "map fst (dims b) = order b" using ok by (simp add: builder_ok_def)
  have "distinct (order b)"
    using ok distinct_stream_dims by (simp add: builder_ok_def)
  with names have bl: "map_of (build_lookup hs) d = map_of (map (\<lambda>h. (dh_name h, value_map (dh_entries h))) hs) d"
    by (simp add: build_lookup_def map_of_foldl_update_distinct)
  show ?thesis
  proof (cases "map_of (dims b) d")
    case None
    then have "d \<notin> set (order b)"
      by (simp only: map_of_eq_None_iff list.set_map [symmetric] keys not_False_eq_True)
    then have "d \<notin> dh_name ` set hs" using names by (metis list.set_map)
    then have "map_of (build_lookup hs) d = None" by (simp add: bl map_of_eq_None_iff image_image)
    with None show ?thesis by (simp only: option.case)
  next
    case (Some m)
    then have "d \<in> set (map fst (dims b))" by (metis domI dom_map_of_conv_image_fst list.set_map)
    then have "d \<in> set (order b)" by (simp only: keys)
    then obtain i where i: "i < length (order b)" "order b ! i = d" by (auto simp: in_set_conv_nth)
    with layout have hi: "i < length hs" "dim_in R b body d (hs ! i)" by (auto simp: list_all2_conv_all_nth)
    have "distinct (map fst (map (\<lambda>h. (dh_name h, value_map (dh_entries h))) hs))"
      using names \<open>distinct (order b)\<close> by (simp add: o_def)
    moreover have "(d, value_map (dh_entries (hs ! i))) \<in> set (map (\<lambda>h. (dh_name h, value_map (dh_entries h))) hs)"
      using hi by (auto simp: dim_in_def)
    ultimately have "map_of (map (\<lambda>h. (dh_name h, value_map (dh_entries h))) hs) d = Some (value_map (dh_entries (hs ! i)))"
      by (rule map_of_is_SomeI)
    with hi Some show ?thesis by (auto simp: bl dim_in_def)
  qed
qed

lemma value_map_entries:
  assumes "list_all2 (entry_in R body) m es" and "bt_ok m"
  shows "(case map_of m v of
            None \<Rightarrow> map_of (value_map es) v = None
          | Some bm \<Rightarrow> \<exists>e. entry_in R body (v, bm) e \<and> map_of (value_map es) v = Some (de_offset e, de_length e))"
proof -
  have "map de_value es = map fst m"
    using assms(1) by (induction rule: list_all2_induct) (auto simp: entry_in_def)
  then have "map_of (value_map es) = map_of (map (\<lambda>e. (de_value e, de_offset e, de_length e)) es)"
    using bt_ok_distinct [OF assms(2)] by (simp add: value_map_def map_of_foldl_update_distinct)
  with map_of_list_all2 [OF assms(1), of de_value "\<lambda>e. (de_offset e, de_length e)" v]
  show ?thesis by (cases "map_of m v") (auto simp: entry_in_def)
qed

lemma bitmap_for_serialized:
  assumes R: "roaring_ok R" and ok: "builder_ok st b"
    and layout: "list_all2 (dim_in R b body) (order b) hs" and len: "length body < 2 ^ 64"
    and idx: "lookup idx = build_lookup hs" "drop (body_start idx) (ci_raw idx) = body"
  shows "\<exists>r. bitmap_for R idx d v = Inr r \<and>
    (\<forall>i. posting R b d v i \<longleftrightarrow> (case r of None \<Rightarrow> False | Some bm \<Rightarrow> i \<in> elems R bm))"
proof (cases "map_of (dims b) d")
  case None
  with lookup_serialized [OF ok layout, of d] show ?thesis
    by (simp add: bitmap_for_def idx posting_def)
next
  case (Some m)
  with lookup_serialized [OF ok layout, of d] obtain es where es: "list_all2 (entry_in R body) m es"
    and lk: "map_of (build_lookup hs) d = Some (value_map es)" by auto
  have "bt_ok m" using ok map_of_SomeD [OF Some] by (auto simp: builder_ok_def)
  note vm = value_map_entries [OF es this, of v]
  show ?thesis
  proof (cases "map_of m v")
    case None
    with vm lk Some show ?thesis by (simp add: bitmap_for_def idx posting_def)
  next
    case (Some bm)
    with vm obtain e where e: "entry_in R body (v, bm) e"
      and vme: "map_of (value_map es) v = Some (de_offset e, de_length e)" by auto
    have le: "unat (de_offset e) + unat (de_length e) \<le> length body"
      and slice: "take (unat (de_length e)) (drop (unat (de_offset e)) body) = rb_serialize R bm"
      using e by (auto simp: entry_in_def)
    have sum: "unat (de_offset e + de_length e) = unat (de_offset e) + unat (de_length e)"
      using le len by (simp add: unat_word_ariths)
    then have "\<not> de_offset e + de_length e < de_offset e" by (simp add: word_less_nat_alt)
    moreover obtain bm' where "rb_deserialize R (rb_serialize R bm) = Some bm'" "elems R bm' = elems R bm"
      using roaring_deserialize [OF R] by blast
    ultimately show ?thesis
      using le slice sum lk vme Some \<open>map_of (dims b) d = Some m\<close>
      by (simp add: bitmap_for_def idx posting_def Let_def)
  qed
qed

lemma index_roundtrip:
  assumes R: "roaring_ok R" and ok: "builder_ok st b" and rmp: "rmp_ok rmp unrmp"
    and fits: "header_fits rmp (idx_header_of R b s e n)"
    and ser: "serialize R rmp b s e n = Inr out" and len: "length out < 2 ^ 64"
  shows "\<exists>idx. parse_chunk_index unrmp (Some out) = Inr idx \<and> ci_message_count idx = n \<and>
    (\<forall>d v. \<exists>r. bitmap_for R idx d v = Inr r \<and>
       (\<forall>i. posting R b d v i \<longleftrightarrow> (case r of None \<Rightarrow> False | Some bm \<Rightarrow> i \<in> elems R bm)))"
proof -
  let ?h = "idx_header_of R b s e n"
  obtain body hs where dims: "serialize_dims R b [] (order b) = (body, hs)"
    by (cases "serialize_dims R b [] (order b)")
  obtain hb where hb: "rmp ?h = Some hb" and small: "length hb < 2 ^ 32"
    using fits by (auto simp: header_fits_def split: option.splits)
  have out: "out = IDX_MAGIC @ [IDX_VERSION] @ u32_to_le (of_nat (length hb)) @ hb @ body"
    using ser hb dims by (simp add: serialize_def)
  have "unrmp hb = Some ?h" using rmp hb by (simp add: rmp_ok_def)
  note parse = parse_layout [where unrmp = unrmp and hb = hb and body = body, OF out small this]
  have blen: "length body < 2 ^ 64" using len out by simp
  from serialize_dims_layout [OF dims blen] have layout: "list_all2 (dim_in R b body) (order b) hs" by blast
  define idx where "idx = \<lparr>ci_raw = out, ci_header = ?h, lookup = build_lookup (ih_dimensions ?h),
    body_start = 9 + length hb\<rparr>"
  have idx: "parse_chunk_index unrmp (Some out) = Inr idx" "ci_header idx = ?h"
      "lookup idx = build_lookup hs" "drop (body_start idx) (ci_raw idx) = body"
    using parse dims by (simp_all add: idx_def idx_header_of_def)
  then have "ci_message_count idx = n"
    by (simp add: ci_message_count_def idx_header_of_def split: prod.splits)
  with idx(1) bitmap_for_serialized [OF R ok layout blen idx(3,4)] show ?thesis
    by (intro exI [of _ idx]) (simp del: ex_simps)
qed

text \<open>The index of a chunk's messages, written and read back.\<close>

lemma chunk_index_roundtrip:
  assumes R: "roaring_ok R" and rmp: "rmp_ok rmp unrmp" and ms: "length ms \<le> 2 ^ 32"
    and fits: "header_fits rmp (idx_header_of R (observe_all R (for_stream st) 0 ms) s e n)"
    and ser: "serialize R rmp (observe_all R (for_stream st) 0 ms) s e n = Inr out"
    and len: "length out < 2 ^ 64"
  shows "\<exists>idx. parse_chunk_index unrmp (Some out) = Inr idx \<and> ci_message_count idx = n \<and>
    (\<forall>d v. \<exists>r. bitmap_for R idx d v = Inr r \<and>
       (\<forall>i. (case r of None \<Rightarrow> False | Some bm \<Rightarrow> i \<in> elems R bm) \<longleftrightarrow>
            unat i < length ms \<and> update_has st (ms ! unat i) d v))"
  using index_roundtrip [OF R builder_ok_observe_all [OF builder_ok_new] rmp fits ser len]
  unfolding index_contents [OF R ms] by (simp only: eq_commute)

text \<open>
  A toy encoder for witnesses: it knows one header.
\<close>

definition one_header :: "idx_header \<Rightarrow> idx_header \<Rightarrow> bytes option" where
  "one_header h0 h = (if h = h0 then Some [1] else None)"

definition one_unheader :: "idx_header \<Rightarrow> bytes \<Rightarrow> idx_header option" where
  "one_unheader h0 b = (if b = [1] then Some h0 else None)"

lemma one_header_ok [simp]: "rmp_ok (one_header h0) (one_unheader h0)"
  by (auto simp: rmp_ok_def one_header_def one_unheader_def)

lemma one_header_fits [simp]: "header_fits (one_header h) h"
  by (simp add: header_fits_def one_header_def)

text \<open>C23: The index file round trip. When the file of a chunk's index was written by the writer
  and is read by the reader, parsing succeeds with the message count that was written, and every
  lookup of a value of a dimension succeeds and returns the bitmap of exactly the messages that
  have the value, or nothing when none has it.\<close>

theorem index_file_roundtrip:
  assumes "roaring_ok R" and "rmp_ok rmp unrmp" and "length ms \<le> 2 ^ 32"
    and "header_fits rmp (idx_header_of R (observe_all R (for_stream st) 0 ms) s e n)"
    and "serialize R rmp (observe_all R (for_stream st) 0 ms) s e n = Inr out"
    and "length out < 2 ^ 64"
  shows "\<exists>idx. parse_chunk_index unrmp (Some out) = Inr idx \<and> ci_message_count idx = n \<and>
    (\<forall>d v. \<exists>r. bitmap_for R idx d v = Inr r \<and>
       (\<forall>i. (case r of None \<Rightarrow> False | Some bm \<Rightarrow> i \<in> elems R bm) \<longleftrightarrow>
            unat i < length ms \<and> update_has st (ms ! unat i) d v))"
  using assms by (rule chunk_index_roundtrip)

definition index_example :: "subscribe_update list" where
  "index_example = map (\<lambda>(s, p). \<lparr>filters = [], created_at = None, update_oneof =
     Some (UBlockMeta \<lparr>block_slot = s, parent_slot = p, blockhash = []\<rparr>)\<rparr>) [(9, 7), (10, 9)]"

lemma index_file_roundtrip_witness:
  "\<exists>out idx bm. serialize list_roaring (one_header
        (idx_header_of list_roaring (observe_all list_roaring (for_stream Block) 0 index_example) 9 11 2))
      (observe_all list_roaring (for_stream Block) 0 index_example) 9 11 2 = Inr out \<and>
    parse_chunk_index (one_unheader
        (idx_header_of list_roaring (observe_all list_roaring (for_stream Block) 0 index_example) 9 11 2))
      (Some out) = Inr idx \<and> ci_message_count idx = 2 \<and>
    bitmap_for list_roaring idx DIM_SLOT (DU64 10) = Inr (Some bm) \<and> set bm = {1}"
proof -
  let ?b = "observe_all list_roaring (for_stream Block) 0 index_example"
  let ?h = "idx_header_of list_roaring ?b 9 11 2"
  have ser: "serialize list_roaring (one_header ?h) ?b 9 11 2 =
      Inr (IDX_MAGIC @ [IDX_VERSION] @ u32_to_le 1 @ [1] @ fst (serialize_dims list_roaring ?b [] (order ?b)))"
    by (simp add: serialize_def one_header_def idx_header_of_def case_prod_unfold)
  have small: "length (fst (serialize_dims list_roaring ?b [] (order ?b))) < 100"
    by (simp add: index_example_def for_stream_def observe_def observe_block_def ib_insert_def Let_def
        list_roaring_def dim_defs insort_insert_key_def)
  have n: "length index_example = 2" by (simp add: index_example_def)
  let ?out = "IDX_MAGIC @ [IDX_VERSION] @ u32_to_le 1 @ [1] @ fst (serialize_dims list_roaring ?b [] (order ?b))"
  have "length ?out < 110" using small by (simp only: length_append length_u32_to_le) (simp add: IDX_MAGIC_def)
  then have len: "length ?out < 2 ^ 64" by (rule less_trans) simp
  have n32: "length index_example \<le> 2 ^ 32" by (simp add: n)
  from index_file_roundtrip [OF list_roaring_ok one_header_ok n32 one_header_fits ser len]
  obtain idx where idx: "parse_chunk_index (one_unheader ?h) (Some ?out) = Inr idx" "ci_message_count idx = 2"
    and look: "\<And>d v. \<exists>r. bitmap_for list_roaring idx d v = Inr r \<and>
      (\<forall>i. (case r of None \<Rightarrow> False | Some bm \<Rightarrow> i \<in> set bm) \<longleftrightarrow>
         unat i < 2 \<and> update_has Block (index_example ! unat i) d v)"
    unfolding n elems_list_roaring by blast
  obtain r where r: "bitmap_for list_roaring idx DIM_SLOT (DU64 10) = Inr r"
    "\<forall>i. (case r of None \<Rightarrow> False | Some bm \<Rightarrow> i \<in> set bm) \<longleftrightarrow>
       unat i < 2 \<and> update_has Block (index_example ! unat i) DIM_SLOT (DU64 10)"
    using look by blast
  have iff: "(case r of None \<Rightarrow> False | Some bm \<Rightarrow> i \<in> set bm) \<longleftrightarrow> i = 1" for i
  proof -
    have "\<not> update_has Block (index_example ! 0) DIM_SLOT (DU64 10)" "update_has Block (index_example ! 1) DIM_SLOT (DU64 10)"
      by (simp_all add: index_example_def update_has_def block_has_def dim_defs)
    moreover have "unat i < 2 \<longleftrightarrow> unat i = 0 \<or> unat i = 1" by auto
    moreover have "i = 1 \<longleftrightarrow> unat i = 1" by (simp add: word_unat_eq_iff)
    ultimately show ?thesis using r(2) by metis
  qed
  then obtain bm where "r = Some bm" using iff [of 1] by (cases r) auto
  with iff have "set bm = {1}" by auto
  with ser idx r(1) \<open>r = Some bm\<close> show ?thesis by blast
qed

end
