(* ===== verification/Filters.thy ===== *)
theory Filters
  imports ReaderIndex
begin

text \<open>
  The server-side filters (\<open>sillage-reader/src/filter.rs\<close>): from a chunk's index and one
  filter of a subscription to the bitmap of the ordinals that match. \<open>bs58\<close> is the decoder of
  the \<open>bs58\<close> package. A panic is the result \<open>None\<close>.

  The specification \<open>tx_matches\<close>/\<open>acct_matches\<close> decides a message by looking at the message
  itself; the theorems show that the bitmap computed from an index holds the ordinals of
  exactly those messages.
\<close>

section \<open>Filters of a subscription\<close>

record tx_filter =
  vote :: "bool option"
  failed :: "bool option"
  sig_filter :: "string option"
  account_include :: "string list"
  account_exclude :: "string list"
  account_required :: "string list"

text \<open>
  The kinds of the \<open>filters\<close> entries (memcmp, datasize and so on) are never looked at: only
  whether the list is empty.
\<close>

datatype acct_filter_kind = Memcmp | Datasize u64 | TokenAccountState | Lamports

record acct_filter =
  account_list :: "string list"
  owner_list :: "string list"
  acct_filters :: "acct_filter_kind list"
  nonempty_txn_signature :: "bool option"

section \<open>The code\<close>

definition match_all :: "'bm roaring \<Rightarrow> u64 \<Rightarrow> 'bm option" where
  "match_all R n = rb_from_sorted_iter R (map word_of_nat [0..<unat (ucast n :: u32)])"

definition decode_pubkey :: "(string \<Rightarrow> bytes option) \<Rightarrow> string \<Rightarrow> bytes option" where
  "decode_pubkey bs58 s =
     (case bs58 s of None \<Rightarrow> None | Some v \<Rightarrow> if length v = 32 then Some v else None)"

definition decode_signature :: "(string \<Rightarrow> bytes option) \<Rightarrow> string \<Rightarrow> bytes option" where
  "decode_signature bs58 s =
     (case bs58 s of None \<Rightarrow> None | Some v \<Rightarrow> if length v = 64 then Some v else None)"

text \<open>
  \<open>bitmap_for(..).unwrap_or_default().unwrap_or_default()\<close>; also what
  \<open>if let Ok(Some(bm))\<close> amounts to before a union or a difference with \<open>bm\<close>, since the
  empty bitmap changes neither. Only the slice of a wrapped range panics.
\<close>

definition bitmap_or_default :: "'bm roaring \<Rightarrow> chunk_index \<Rightarrow> string \<Rightarrow> dim_value \<Rightarrow> 'bm option" where
  "bitmap_or_default R idx d v =
     (case bitmap_for R idx d v of
        Inl SlicePanic \<Rightarrow> None
      | Inl _ \<Rightarrow> Some (rb_new R)
      | Inr None \<Rightarrow> Some (rb_new R)
      | Inr (Some bm) \<Rightarrow> Some bm)"

definition bitmap_if_ok :: "'bm roaring \<Rightarrow> chunk_index \<Rightarrow> string \<Rightarrow> dim_value \<Rightarrow> 'bm option option" where
  "bitmap_if_ok R idx d v =
     (case bitmap_for R idx d v of
        Inl SlicePanic \<Rightarrow> None
      | Inl _ \<Rightarrow> Some None
      | Inr r \<Rightarrow> Some r)"

text \<open>The \<open>vote\<close> and \<open>failed\<close> blocks: a flag is indexed only where it is set.\<close>

definition filter_flag :: "'bm roaring \<Rightarrow> chunk_index \<Rightarrow> string \<Rightarrow> bool option \<Rightarrow> 'bm \<Rightarrow> 'bm option" where
  "filter_flag R idx d flag result =
     (case flag of
        None \<Rightarrow> Some result
      | Some wanted \<Rightarrow>
          do { bm \<leftarrow> bitmap_or_default R idx d (DBool True);
               if wanted then Some (rb_and R result bm)
               else do { all_bm \<leftarrow> match_all R (ci_message_count idx);
                         Some (rb_and R result (rb_sub R all_bm bm)) } })"

text \<open>The loop over an OR-list: the union so far, and whether any entry decoded.\<close>

fun union_keys :: "'bm roaring \<Rightarrow> (string \<Rightarrow> bytes option) \<Rightarrow> chunk_index \<Rightarrow> string \<Rightarrow> string list
    \<Rightarrow> 'bm \<Rightarrow> bool \<Rightarrow> ('bm \<times> bool) option" where
  "union_keys R bs58 idx d [] matched any_valid = Some (matched, any_valid)"
| "union_keys R bs58 idx d (pk # pks) matched any_valid =
     (case decode_pubkey bs58 pk of
        None \<Rightarrow> union_keys R bs58 idx d pks matched any_valid
      | Some key \<Rightarrow>
          do { r \<leftarrow> bitmap_if_ok R idx d (DBytes key);
               union_keys R bs58 idx d pks
                 (case r of Some bm \<Rightarrow> rb_or R matched bm | None \<Rightarrow> matched) True })"

definition include_any :: "'bm roaring \<Rightarrow> (string \<Rightarrow> bytes option) \<Rightarrow> chunk_index \<Rightarrow> string \<Rightarrow> string list
    \<Rightarrow> 'bm \<Rightarrow> 'bm option" where
  "include_any R bs58 idx d pks result =
     (if pks = [] then Some result
      else do { (matched, any_valid) \<leftarrow> union_keys R bs58 idx d pks (rb_new R) False;
                Some (if any_valid then rb_and R result matched else result) })"

text \<open>The loop over \<open>account_required\<close>; \<open>Some None\<close> is its early return of an empty bitmap.\<close>

fun require_all :: "'bm roaring \<Rightarrow> (string \<Rightarrow> bytes option) \<Rightarrow> chunk_index \<Rightarrow> string list \<Rightarrow> 'bm
    \<Rightarrow> 'bm option option" where
  "require_all R bs58 idx [] result = Some (Some result)"
| "require_all R bs58 idx (pk # pks) result =
     (case decode_pubkey bs58 pk of
        None \<Rightarrow> Some None
      | Some key \<Rightarrow>
          do { bm \<leftarrow> bitmap_or_default R idx DIM_ACCOUNT_KEY (DBytes key);
               require_all R bs58 idx pks (rb_and R result bm) })"

fun exclude_all :: "'bm roaring \<Rightarrow> (string \<Rightarrow> bytes option) \<Rightarrow> chunk_index \<Rightarrow> string list \<Rightarrow> 'bm
    \<Rightarrow> 'bm option" where
  "exclude_all R bs58 idx [] result = Some result"
| "exclude_all R bs58 idx (pk # pks) result =
     (case decode_pubkey bs58 pk of
        None \<Rightarrow> exclude_all R bs58 idx pks result
      | Some key \<Rightarrow>
          do { r \<leftarrow> bitmap_if_ok R idx DIM_ACCOUNT_KEY (DBytes key);
               exclude_all R bs58 idx pks
                 (case r of Some bm \<Rightarrow> rb_sub R result bm | None \<Rightarrow> result) })"

text \<open>The \<open>signature\<close> block; \<open>Some None\<close> is its early return of an empty bitmap.\<close>

definition filter_signature :: "'bm roaring \<Rightarrow> (string \<Rightarrow> bytes option) \<Rightarrow> chunk_index \<Rightarrow> string option
    \<Rightarrow> 'bm \<Rightarrow> 'bm option option" where
  "filter_signature R bs58 idx sig result =
     (case sig of
        None \<Rightarrow> Some (Some result)
      | Some s \<Rightarrow>
          (case decode_signature bs58 s of
             None \<Rightarrow> Some None
           | Some sig_bytes \<Rightarrow>
               do { bm \<leftarrow> bitmap_or_default R idx DIM_SIGNATURE (DBytes sig_bytes);
                    Some (Some (rb_and R result bm)) }))"

definition filter_tx :: "'bm roaring \<Rightarrow> (string \<Rightarrow> bytes option) \<Rightarrow> chunk_index \<Rightarrow> tx_filter \<Rightarrow> 'bm option" where
  "filter_tx R bs58 idx f =
     do { result \<leftarrow> match_all R (ci_message_count idx);
          result \<leftarrow> filter_flag R idx DIM_VOTE_FLAG (vote f) result;
          result \<leftarrow> filter_flag R idx DIM_FAILED_FLAG (failed f) result;
          sig \<leftarrow> filter_signature R bs58 idx (sig_filter f) result;
          case sig of
            None \<Rightarrow> Some (rb_new R)
          | Some result \<Rightarrow>
              do { result \<leftarrow> include_any R bs58 idx DIM_ACCOUNT_KEY (account_include f) result;
                   req \<leftarrow> require_all R bs58 idx (account_required f) result;
                   case req of
                     None \<Rightarrow> Some (rb_new R)
                   | Some result \<Rightarrow> exclude_all R bs58 idx (account_exclude f) result } }"

definition filter_acct :: "'bm roaring \<Rightarrow> (string \<Rightarrow> bytes option) \<Rightarrow> chunk_index \<Rightarrow> acct_filter \<Rightarrow> 'bm option" where
  "filter_acct R bs58 idx f =
     do { result \<leftarrow> match_all R (ci_message_count idx);
          result \<leftarrow> include_any R bs58 idx DIM_ACCOUNT_PUBKEY (account_list f) result;
          include_any R bs58 idx DIM_OWNER_PROGRAM (owner_list f) result }"

definition filter_block :: "'bm roaring \<Rightarrow> chunk_index \<Rightarrow> 'bm option" where
  "filter_block R idx = match_all R (ci_message_count idx)"

section \<open>What a filter means\<close>

text \<open>The transaction or account of a message, and what the filters ask of it.\<close>

definition tx_of :: "subscribe_update \<Rightarrow> tx_info option" where
  "tx_of u = (case update_oneof u of Some (UTransaction t) \<Rightarrow> transaction t | _ \<Rightarrow> None)"

definition acct_of :: "subscribe_update \<Rightarrow> acct_info option" where
  "acct_of u = (case update_oneof u of Some (UAccount a) \<Rightarrow> account a | _ \<Rightarrow> None)"

definition is_vote_msg :: "subscribe_update \<Rightarrow> bool" where
  "is_vote_msg u = (case tx_of u of None \<Rightarrow> False | Some info \<Rightarrow> is_vote info)"

definition is_failed_msg :: "subscribe_update \<Rightarrow> bool" where
  "is_failed_msg u = (case tx_of u of None \<Rightarrow> False | Some info \<Rightarrow> Option.bind (meta info) err \<noteq> None)"

definition keys_of_msg :: "subscribe_update \<Rightarrow> bytes list" where
  "keys_of_msg u = (case tx_of u of None \<Rightarrow> [] | Some info \<Rightarrow> resolved_keys info)"

text \<open>The decodable entries of a list of base58 keys.\<close>

definition decodable :: "(string \<Rightarrow> bytes option) \<Rightarrow> string list \<Rightarrow> bytes list" where
  "decodable bs58 pks = List.map_filter (decode_pubkey bs58) pks"

definition tx_matches :: "(string \<Rightarrow> bytes option) \<Rightarrow> tx_filter \<Rightarrow> subscribe_update \<Rightarrow> bool" where
  "tx_matches bs58 f u \<longleftrightarrow>
     (case vote f of None \<Rightarrow> True | Some w \<Rightarrow> is_vote_msg u = w) \<and>
     (case failed f of None \<Rightarrow> True | Some w \<Rightarrow> is_failed_msg u = w) \<and>
     (case sig_filter f of
        None \<Rightarrow> True
      | Some s \<Rightarrow> (case decode_signature bs58 s of
                    None \<Rightarrow> False
                  | Some k \<Rightarrow> map_option signature (tx_of u) = Some k)) \<and>
     (decodable bs58 (account_include f) = [] \<or>
        (\<exists>k \<in> set (decodable bs58 (account_include f)). k \<in> set (keys_of_msg u))) \<and>
     (\<forall>pk \<in> set (account_required f).
        case decode_pubkey bs58 pk of None \<Rightarrow> False | Some k \<Rightarrow> k \<in> set (keys_of_msg u)) \<and>
     (\<forall>k \<in> set (decodable bs58 (account_exclude f)). k \<notin> set (keys_of_msg u))"

definition acct_matches :: "(string \<Rightarrow> bytes option) \<Rightarrow> acct_filter \<Rightarrow> subscribe_update \<Rightarrow> bool" where
  "acct_matches bs58 f u \<longleftrightarrow>
     (decodable bs58 (account_list f) = [] \<or>
        (\<exists>k \<in> set (decodable bs58 (account_list f)). map_option pubkey (acct_of u) = Some k)) \<and>
     (decodable bs58 (owner_list f) = [] \<or>
        (\<exists>k \<in> set (decodable bs58 (owner_list f)). map_option owner (acct_of u) = Some k))"

section \<open>Reading an index of given messages\<close>

text \<open>
  \<open>index_reads R st ms idx\<close>: the index \<open>idx\<close> counts the messages \<open>ms\<close>, and every lookup
  succeeds and finds the ordinals of the messages that have the value. The round trip of
  theory \<open>ReaderIndex\<close> establishes it for every index the writer serialized.
\<close>

definition hits :: "stream \<Rightarrow> subscribe_update list \<Rightarrow> string \<Rightarrow> dim_value \<Rightarrow> u32 set" where
  "hits st ms d v = {i. unat i < length ms \<and> update_has st (ms ! unat i) d v}"

definition index_reads :: "'bm roaring \<Rightarrow> stream \<Rightarrow> subscribe_update list \<Rightarrow> chunk_index \<Rightarrow> bool" where
  "index_reads R st ms idx \<longleftrightarrow>
     ci_message_count idx = of_nat (length ms) \<and>
     (\<forall>d v. \<exists>r. bitmap_for R idx d v = Inr r \<and>
        (case r of None \<Rightarrow> hits st ms d v = {} | Some bm \<Rightarrow> elems R bm = hits st ms d v))"

definition ordinals :: "subscribe_update list \<Rightarrow> (subscribe_update \<Rightarrow> bool) \<Rightarrow> u32 set" where
  "ordinals ms P = {i. unat i < length ms \<and> P (ms ! unat i)}"

lemma hits_ordinals: "hits st ms d v = ordinals ms (\<lambda>u. update_has st u d v)"
  by (simp add: hits_def ordinals_def)

named_theorems ordinals_simps \<open>the sets of ordinals under the bitmap operations\<close>

lemma ordinals_Int [ordinals_simps]: "ordinals ms P \<inter> ordinals ms Q = ordinals ms (\<lambda>u. P u \<and> Q u)"
  by (auto simp: ordinals_def)

lemma ordinals_Un [ordinals_simps]: "ordinals ms P \<union> ordinals ms Q = ordinals ms (\<lambda>u. P u \<or> Q u)"
  by (auto simp: ordinals_def)

lemma ordinals_Diff [ordinals_simps]: "ordinals ms P - ordinals ms Q = ordinals ms (\<lambda>u. P u \<and> \<not> Q u)"
  by (auto simp: ordinals_def)

lemma ordinals_False [ordinals_simps]: "ordinals ms (\<lambda>u. False) = {}"
  by (simp add: ordinals_def)

lemma index_reads_serialized:
  assumes R: "roaring_ok R" and rmp: "rmp_ok rmp unrmp" and ms: "length ms \<le> 2 ^ 32"
    and fits: "header_fits rmp (idx_header_of R (observe_all R (for_stream st) 0 ms) s e (of_nat (length ms)))"
    and ser: "serialize R rmp (observe_all R (for_stream st) 0 ms) s e (of_nat (length ms)) = Inr out"
    and len: "length out < 2 ^ 64"
  shows "\<exists>idx. parse_chunk_index unrmp (Some out) = Inr idx \<and> index_reads R st ms idx"
proof -
  obtain idx where idx: "parse_chunk_index unrmp (Some out) = Inr idx"
    and n: "ci_message_count idx = of_nat (length ms)"
    and look: "\<And>d v. \<exists>r. bitmap_for R idx d v = Inr r \<and>
      (\<forall>i. (case r of None \<Rightarrow> False | Some bm \<Rightarrow> i \<in> elems R bm) \<longleftrightarrow>
            unat i < length ms \<and> update_has st (ms ! unat i) d v)"
    using chunk_index_roundtrip [OF R rmp ms fits ser len] by blast
  have "\<exists>r. bitmap_for R idx d v = Inr r \<and>
      (case r of None \<Rightarrow> hits st ms d v = {} | Some bm \<Rightarrow> elems R bm = hits st ms d v)" for d v
  proof -
    obtain r where r: "bitmap_for R idx d v = Inr r" and
      h: "\<forall>i. (case r of None \<Rightarrow> False | Some bm \<Rightarrow> i \<in> elems R bm) \<longleftrightarrow> i \<in> hits st ms d v"
      using look [of d v] by (auto simp: hits_def)
    from h have "case r of None \<Rightarrow> hits st ms d v = {} | Some bm \<Rightarrow> elems R bm = hits st ms d v"
      by (cases r) auto
    with r show ?thesis by blast
  qed
  with idx n show ?thesis by (auto simp: index_reads_def)
qed

lemma elems_match_all:
  assumes R: "roaring_ok R" and n: "length ms < 2 ^ 32"
  shows "\<exists>bm. match_all R (of_nat (length ms)) = Some bm \<and> elems R bm = ordinals ms (\<lambda>u. True)"
proof -
  let ?xs = "map word_of_nat [0..<length ms] :: u32 list"
  have un: "unat (word_of_nat i :: u32) = i" if "i < length ms" for i
    using that n by (simp add: unat_of_nat take_bit_nat_eq_self)
  have len: "unat (ucast (of_nat (length ms) :: u64) :: u32) = length ms"
    using n by (simp add: unsigned_ucast_eq unat_of_nat take_bit_nat_eq_self)
  have "sorted_wrt (<) ?xs"
    unfolding sorted_wrt_map by (rule sorted_wrt_mono_rel [OF _ sorted_wrt_upt]) (auto simp: word_less_nat_alt un)
  with roaring_from_sorted [OF R] obtain bm where bm: "rb_from_sorted_iter R ?xs = Some bm"
    "elems R bm = set ?xs" by blast
  have "set ?xs = ordinals ms (\<lambda>u. True)"
  proof (intro equalityI subsetI)
    fix i assume "i \<in> ordinals ms (\<lambda>u. True)"
    then have "unat i \<in> {0..<length ms}" and "i = word_of_nat (unat i)" by (simp_all add: ordinals_def)
    then show "i \<in> set ?xs" by (metis image_eqI list.set_map set_upt)
  qed (auto simp: ordinals_def un)
  with bm show ?thesis by (simp add: match_all_def len)
qed

lemma bitmap_reads:
  assumes R: "roaring_ok R" and idx: "index_reads R st ms idx"
  shows "\<exists>bm. bitmap_or_default R idx d v = Some bm \<and> elems R bm = ordinals ms (\<lambda>u. update_has st u d v)"
    and "\<exists>r. bitmap_if_ok R idx d v = Some r \<and>
      (case r of None \<Rightarrow> ordinals ms (\<lambda>u. update_has st u d v) = {}
               | Some bm \<Rightarrow> elems R bm = ordinals ms (\<lambda>u. update_has st u d v))"
proof -
  obtain r where r: "bitmap_for R idx d v = Inr r"
    "case r of None \<Rightarrow> hits st ms d v = {} | Some bm \<Rightarrow> elems R bm = hits st ms d v"
    using idx by (auto simp: index_reads_def)
  then show "\<exists>bm. bitmap_or_default R idx d v = Some bm \<and> elems R bm = ordinals ms (\<lambda>u. update_has st u d v)"
    by (cases r) (auto simp: bitmap_or_default_def hits_ordinals elems_new [OF R])
  from r show "\<exists>r. bitmap_if_ok R idx d v = Some r \<and>
      (case r of None \<Rightarrow> ordinals ms (\<lambda>u. update_has st u d v) = {}
               | Some bm \<Rightarrow> elems R bm = ordinals ms (\<lambda>u. update_has st u d v))"
    by (cases r) (simp_all add: bitmap_if_ok_def hits_ordinals)
qed

section \<open>The filters on an index\<close>

text \<open>Each block of the code intersects the ordinals so far with one predicate.\<close>

lemma filter_flag_reads:
  assumes R: "roaring_ok R" and idx: "index_reads R st ms idx" and n: "length ms < 2 ^ 32"
    and res: "elems R result = ordinals ms P"
    and has: "\<And>u. update_has st u d (DBool True) \<longleftrightarrow> F u"
  shows "\<exists>bm. filter_flag R idx d flag result = Some bm \<and>
    elems R bm = ordinals ms (\<lambda>u. P u \<and> (case flag of None \<Rightarrow> True | Some w \<Rightarrow> F u = w))"
proof (cases flag)
  case (Some w)
  obtain bm where bm: "bitmap_or_default R idx d (DBool True) = Some bm" "elems R bm = ordinals ms F"
    using bitmap_reads(1) [OF R idx, of d "DBool True"] by (auto simp: has)
  obtain full where full: "match_all R (ci_message_count idx) = Some full" "elems R full = ordinals ms (\<lambda>u. True)"
    using elems_match_all [OF R n] idx by (auto simp: index_reads_def)
  show ?thesis
    by (cases w) (simp_all add: Some filter_flag_def bm full res elems_and [OF R] elems_sub [OF R] ordinals_simps)
qed (simp add: filter_flag_def res)

lemma union_keys_reads:
  assumes R: "roaring_ok R" and idx: "index_reads R st ms idx"
    and has: "\<And>u k. length k = 32 \<Longrightarrow> update_has st u d (DBytes k) \<longleftrightarrow> K u k"
    and res: "elems R acc = ordinals ms P"
  shows "\<exists>bm. union_keys R bs58 idx d pks acc any_valid = Some (bm, any_valid \<or> decodable bs58 pks \<noteq> []) \<and>
    elems R bm = ordinals ms (\<lambda>u. P u \<or> (\<exists>k \<in> set (decodable bs58 pks). K u k))"
  using res
proof (induction pks arbitrary: acc any_valid P)
  case Nil
  then show ?case by (simp add: decodable_def map_filter_simps)
next
  case (Cons pk pks)
  show ?case
  proof (cases "decode_pubkey bs58 pk")
    case None
    with Cons.IH [OF Cons.prems, of any_valid] show ?thesis
      by (simp add: decodable_def map_filter_simps)
  next
    case (Some k)
    then have "length k = 32" by (auto simp: decode_pubkey_def split: option.splits if_splits)
    then have eq: "ordinals ms (\<lambda>u. update_has st u d (DBytes k)) = ordinals ms (\<lambda>u. K u k)"
      by (simp add: has)
    from bitmap_reads(2) [OF R idx, of d "DBytes k", unfolded eq] obtain r where
      r: "bitmap_if_ok R idx d (DBytes k) = Some r"
        "case r of None \<Rightarrow> ordinals ms (\<lambda>u. K u k) = {} | Some bm \<Rightarrow> elems R bm = ordinals ms (\<lambda>u. K u k)"
      by blast
    let ?acc = "case r of Some bm \<Rightarrow> rb_or R acc bm | None \<Rightarrow> acc"
    have "elems R ?acc = ordinals ms P \<union> ordinals ms (\<lambda>u. K u k)"
      using r(2) Cons.prems by (cases r) (simp_all add: elems_or [OF R])
    then have "elems R ?acc = ordinals ms (\<lambda>u. P u \<or> K u k)" by (simp add: ordinals_simps)
    from Cons.IH [OF this, of True] show ?thesis
      using Some r(1) by (simp add: decodable_def map_filter_simps disj_assoc)
  qed
qed

lemma include_any_reads:
  assumes R: "roaring_ok R" and idx: "index_reads R st ms idx"
    and has: "\<And>u k. length k = 32 \<Longrightarrow> update_has st u d (DBytes k) \<longleftrightarrow> K u k"
    and res: "elems R result = ordinals ms P"
  shows "\<exists>bm. include_any R bs58 idx d pks result = Some bm \<and>
    elems R bm = ordinals ms (\<lambda>u. P u \<and>
      (decodable bs58 pks = [] \<or> (\<exists>k \<in> set (decodable bs58 pks). K u k)))"
proof (cases "pks = []")
  case True
  then show ?thesis by (simp add: include_any_def res decodable_def map_filter_simps)
next
  case False
  have "elems R (rb_new R) = ordinals ms (\<lambda>u. False)"
    by (simp add: elems_new [OF R] ordinals_simps)
  from union_keys_reads [OF R idx has this, of bs58 pks False] obtain bm where
    "union_keys R bs58 idx d pks (rb_new R) False = Some (bm, decodable bs58 pks \<noteq> [])"
    "elems R bm = ordinals ms (\<lambda>u. \<exists>k \<in> set (decodable bs58 pks). K u k)" by auto
  with False show ?thesis
    by (cases "decodable bs58 pks = []") (simp_all add: include_any_def res elems_and [OF R] ordinals_simps)
qed

lemma require_all_reads:
  assumes R: "roaring_ok R" and idx: "index_reads R st ms idx"
    and has: "\<And>u k. length k = 32 \<Longrightarrow> update_has st u DIM_ACCOUNT_KEY (DBytes k) \<longleftrightarrow> K u k"
    and res: "elems R result = ordinals ms P"
  shows "\<exists>r. require_all R bs58 idx pks result = Some r \<and>
    (let S = ordinals ms (\<lambda>u. P u \<and> (\<forall>pk \<in> set pks. case decode_pubkey bs58 pk of None \<Rightarrow> False | Some k \<Rightarrow> K u k))
     in case r of None \<Rightarrow> S = {} | Some bm \<Rightarrow> elems R bm = S)"
  using res
proof (induction pks arbitrary: result P)
  case (Cons pk pks)
  show ?case
  proof (cases "decode_pubkey bs58 pk")
    case None
    then show ?thesis by (simp add: ordinals_def)
  next
    case (Some k)
    then have "length k = 32" by (auto simp: decode_pubkey_def split: option.splits if_splits)
    with bitmap_reads(1) [OF R idx, of DIM_ACCOUNT_KEY "DBytes k"] obtain bm where
      bm: "bitmap_or_default R idx DIM_ACCOUNT_KEY (DBytes k) = Some bm" "elems R bm = ordinals ms (\<lambda>u. K u k)"
      by (auto simp: has)
    with Cons.prems have "elems R (rb_and R result bm) = ordinals ms (\<lambda>u. P u \<and> K u k)"
      by (simp add: elems_and [OF R] ordinals_simps)
    from Cons.IH [OF this] show ?thesis
      using Some bm(1) by (simp add: conj_assoc)
  qed
qed (simp add: ordinals_def)

lemma exclude_all_reads:
  assumes R: "roaring_ok R" and idx: "index_reads R st ms idx"
    and has: "\<And>u k. length k = 32 \<Longrightarrow> update_has st u DIM_ACCOUNT_KEY (DBytes k) \<longleftrightarrow> K u k"
    and res: "elems R result = ordinals ms P"
  shows "\<exists>bm. exclude_all R bs58 idx pks result = Some bm \<and>
    elems R bm = ordinals ms (\<lambda>u. P u \<and> (\<forall>k \<in> set (decodable bs58 pks). \<not> K u k))"
  using res
proof (induction pks arbitrary: result P)
  case (Cons pk pks)
  show ?case
  proof (cases "decode_pubkey bs58 pk")
    case None
    with Cons.IH [OF Cons.prems] show ?thesis by (simp add: decodable_def map_filter_simps)
  next
    case (Some k)
    then have "length k = 32" by (auto simp: decode_pubkey_def split: option.splits if_splits)
    then have eq: "ordinals ms (\<lambda>u. update_has st u DIM_ACCOUNT_KEY (DBytes k)) = ordinals ms (\<lambda>u. K u k)"
      by (simp add: has)
    from bitmap_reads(2) [OF R idx, of DIM_ACCOUNT_KEY "DBytes k", unfolded eq] obtain r where
      r: "bitmap_if_ok R idx DIM_ACCOUNT_KEY (DBytes k) = Some r"
        "case r of None \<Rightarrow> ordinals ms (\<lambda>u. K u k) = {} | Some bm \<Rightarrow> elems R bm = ordinals ms (\<lambda>u. K u k)"
      by blast
    let ?res = "case r of Some bm \<Rightarrow> rb_sub R result bm | None \<Rightarrow> result"
    have "elems R ?res = ordinals ms P - ordinals ms (\<lambda>u. K u k)"
      using r(2) Cons.prems by (cases r) (simp_all add: elems_sub [OF R])
    then have "elems R ?res = ordinals ms (\<lambda>u. P u \<and> \<not> K u k)" by (simp add: ordinals_simps)
    from Cons.IH [OF this] show ?thesis
      using Some r(1) by (simp add: decodable_def map_filter_simps conj_assoc)
  qed
qed (simp add: decodable_def map_filter_simps)

section \<open>Filtering is matching\<close>

lemma tx_has_values:
  "update_has Tx u DIM_VOTE_FLAG (DBool True) \<longleftrightarrow> is_vote_msg u"
  "update_has Tx u DIM_FAILED_FLAG (DBool True) \<longleftrightarrow> is_failed_msg u"
  "length k = 64 \<Longrightarrow> update_has Tx u DIM_SIGNATURE (DBytes k) \<longleftrightarrow> map_option signature (tx_of u) = Some k"
  "length k = 32 \<Longrightarrow> update_has Tx u DIM_ACCOUNT_KEY (DBytes k) \<longleftrightarrow> k \<in> set (keys_of_msg u)"
  by (cases "tx_of u"; auto simp: update_has_def tx_has_def tx_of_def is_vote_msg_def is_failed_msg_def
      keys_of_msg_def dim_defs split: option.splits update_oneof.splits)+

lemma acct_has_values:
  "length k = 32 \<Longrightarrow> update_has Acct u DIM_ACCOUNT_PUBKEY (DBytes k) \<longleftrightarrow> map_option pubkey (acct_of u) = Some k"
  "length k = 32 \<Longrightarrow> update_has Acct u DIM_OWNER_PROGRAM (DBytes k) \<longleftrightarrow> map_option owner (acct_of u) = Some k"
  by (auto simp: update_has_def acct_has_def acct_of_def dim_defs split: option.splits update_oneof.splits)

lemma filter_signature_reads:
  assumes R: "roaring_ok R" and idx: "index_reads R Tx ms idx"
    and res: "elems R result = ordinals ms P"
  shows "\<exists>r. filter_signature R bs58 idx sig result = Some r \<and>
    (let S = ordinals ms (\<lambda>u. P u \<and> (case sig of None \<Rightarrow> True | Some s \<Rightarrow>
       (case decode_signature bs58 s of None \<Rightarrow> False | Some k \<Rightarrow> map_option signature (tx_of u) = Some k)))
     in case r of None \<Rightarrow> S = {} | Some bm \<Rightarrow> elems R bm = S)"
proof (cases sig)
  case None
  then show ?thesis by (simp add: filter_signature_def res)
next
  case sig: (Some s)
  show ?thesis
  proof (cases "decode_signature bs58 s")
    case None
    then show ?thesis by (simp add: sig filter_signature_def ordinals_def)
  next
    case (Some k)
    then have "length k = 64" by (auto simp: decode_signature_def split: option.splits if_splits)
    with bitmap_reads(1) [OF R idx, of DIM_SIGNATURE "DBytes k"] obtain bm where
      "bitmap_or_default R idx DIM_SIGNATURE (DBytes k) = Some bm"
      "elems R bm = ordinals ms (\<lambda>u. map_option signature (tx_of u) = Some k)"
      by (auto simp: tx_has_values)
    with Some show ?thesis
      by (simp add: sig filter_signature_def res elems_and [OF R] ordinals_Int del: map_option_eq_Some)
  qed
qed

lemma filter_tx_matches:
  assumes R: "roaring_ok R" and idx: "index_reads R Tx ms idx" and n: "length ms < 2 ^ 32"
  shows "\<exists>bm. filter_tx R bs58 idx f = Some bm \<and> elems R bm = ordinals ms (tx_matches bs58 f)"
proof -
  obtain b0 where b0: "match_all R (ci_message_count idx) = Some b0" "elems R b0 = ordinals ms (\<lambda>u. True)"
    using elems_match_all [OF R n] idx by (auto simp: index_reads_def)
  define Pv where "Pv u \<longleftrightarrow> (case vote f of None \<Rightarrow> True | Some w \<Rightarrow> is_vote_msg u = w)" for u
  define Pf where "Pf u \<longleftrightarrow> (case failed f of None \<Rightarrow> True | Some w \<Rightarrow> is_failed_msg u = w)" for u
  define Ps where "Ps u \<longleftrightarrow> (case sig_filter f of None \<Rightarrow> True | Some s \<Rightarrow> (case decode_signature bs58 s of
      None \<Rightarrow> False | Some k \<Rightarrow> map_option signature (tx_of u) = Some k))" for u
  define Pi where "Pi u \<longleftrightarrow> decodable bs58 (account_include f) = [] \<or>
      (\<exists>k \<in> set (decodable bs58 (account_include f)). k \<in> set (keys_of_msg u))" for u
  define Pr where "Pr u \<longleftrightarrow> (\<forall>pk \<in> set (account_required f).
      case decode_pubkey bs58 pk of None \<Rightarrow> False | Some k \<Rightarrow> k \<in> set (keys_of_msg u))" for u
  define Px where "Px u \<longleftrightarrow> (\<forall>k \<in> set (decodable bs58 (account_exclude f)). k \<notin> set (keys_of_msg u))" for u
  note Ps = Pv_def Pf_def Ps_def Pi_def Pr_def Px_def
  have spec: "tx_matches bs58 f = (\<lambda>u. Pv u \<and> Pf u \<and> Ps u \<and> Pi u \<and> Pr u \<and> Px u)"
    by (simp add: tx_matches_def Ps fun_eq_iff)
  from filter_flag_reads [OF R idx n b0(2) tx_has_values(1), of "vote f"]
  obtain b1 where b1: "filter_flag R idx DIM_VOTE_FLAG (vote f) b0 = Some b1" "elems R b1 = ordinals ms Pv"
    by (auto simp: Ps [abs_def])
  from filter_flag_reads [OF R idx n b1(2) tx_has_values(2), of "failed f"]
  obtain b2 where b2: "filter_flag R idx DIM_FAILED_FLAG (failed f) b1 = Some b2"
      "elems R b2 = ordinals ms (\<lambda>u. Pv u \<and> Pf u)"
    by (auto simp: Ps [abs_def])
  from filter_signature_reads [OF R idx b2(2), of bs58 "sig_filter f"]
  obtain r3 where r3: "filter_signature R bs58 idx (sig_filter f) b2 = Some r3"
    and r3': "case r3 of None \<Rightarrow> ordinals ms (\<lambda>u. (Pv u \<and> Pf u) \<and> Ps u) = {}
                       | Some bm \<Rightarrow> elems R bm = ordinals ms (\<lambda>u. (Pv u \<and> Pf u) \<and> Ps u)"
    unfolding Ps_def [symmetric] Let_def by blast
  show ?thesis
  proof (cases r3)
    case None
    then have "ordinals ms (tx_matches bs58 f) = {}"
      using r3' unfolding spec by (auto simp: ordinals_def)
    then show ?thesis
      using b0(1) b1(1) b2(1) r3 None by (simp add: filter_tx_def elems_new [OF R])
  next
    case (Some b3)
    note b3 = r3' [unfolded Some option.case]
    from include_any_reads [OF R idx tx_has_values(4) b3, of bs58 "account_include f"]
    obtain b4 where b4: "include_any R bs58 idx DIM_ACCOUNT_KEY (account_include f) b3 = Some b4"
        "elems R b4 = ordinals ms (\<lambda>u. ((Pv u \<and> Pf u) \<and> Ps u) \<and> Pi u)"
      unfolding Pi_def [symmetric] by blast
    from require_all_reads [OF R idx tx_has_values(4) b4(2), of bs58 "account_required f"]
    obtain r5 where r5: "require_all R bs58 idx (account_required f) b4 = Some r5"
      and r5': "case r5 of None \<Rightarrow> ordinals ms (\<lambda>u. (((Pv u \<and> Pf u) \<and> Ps u) \<and> Pi u) \<and> Pr u) = {}
                         | Some bm \<Rightarrow> elems R bm = ordinals ms (\<lambda>u. (((Pv u \<and> Pf u) \<and> Ps u) \<and> Pi u) \<and> Pr u)"
      unfolding Pr_def [symmetric] Let_def by blast
    show ?thesis
    proof (cases r5)
      case None
      then have "ordinals ms (tx_matches bs58 f) = {}"
        using r5' unfolding spec by (auto simp: ordinals_def)
      then show ?thesis
        using b0(1) b1(1) b2(1) r3 Some b4(1) r5 None by (simp add: filter_tx_def elems_new [OF R])
    next
      case 5: (Some b5)
      note b5 = r5' [unfolded 5 option.case]
      from exclude_all_reads [OF R idx tx_has_values(4) b5, of bs58 "account_exclude f"]
      obtain b6 where "exclude_all R bs58 idx (account_exclude f) b5 = Some b6"
          "elems R b6 = ordinals ms (\<lambda>u. ((((Pv u \<and> Pf u) \<and> Ps u) \<and> Pi u) \<and> Pr u) \<and> Px u)"
        unfolding Px_def [symmetric] by blast
      then show ?thesis
        using b0(1) b1(1) b2(1) r3 Some b4(1) r5 5 by (simp add: filter_tx_def spec conj_assoc)
    qed
  qed
qed

lemma filter_acct_matches:
  assumes R: "roaring_ok R" and idx: "index_reads R Acct ms idx" and n: "length ms < 2 ^ 32"
  shows "\<exists>bm. filter_acct R bs58 idx f = Some bm \<and> elems R bm = ordinals ms (acct_matches bs58 f)"
proof -
  obtain b0 where b0: "match_all R (ci_message_count idx) = Some b0" "elems R b0 = ordinals ms (\<lambda>u. True)"
    using elems_match_all [OF R n] idx by (auto simp: index_reads_def)
  define Pa where "Pa u \<longleftrightarrow> decodable bs58 (account_list f) = [] \<or>
    (\<exists>k \<in> set (decodable bs58 (account_list f)). map_option pubkey (acct_of u) = Some k)" for u
  define Po where "Po u \<longleftrightarrow> decodable bs58 (owner_list f) = [] \<or>
    (\<exists>k \<in> set (decodable bs58 (owner_list f)). map_option owner (acct_of u) = Some k)" for u
  have spec: "acct_matches bs58 f = (\<lambda>u. Pa u \<and> Po u)"
    by (simp add: acct_matches_def Pa_def Po_def fun_eq_iff)
  from include_any_reads [OF R idx acct_has_values(1) b0(2), of bs58 "account_list f"]
  obtain b1 where b1: "include_any R bs58 idx DIM_ACCOUNT_PUBKEY (account_list f) b0 = Some b1"
      "elems R b1 = ordinals ms (\<lambda>u. True \<and> Pa u)"
    unfolding Pa_def [symmetric] by blast
  from include_any_reads [OF R idx acct_has_values(2) b1(2), of bs58 "owner_list f"]
  obtain b2 where "include_any R bs58 idx DIM_OWNER_PROGRAM (owner_list f) b1 = Some b2"
      "elems R b2 = ordinals ms (\<lambda>u. (True \<and> Pa u) \<and> Po u)"
    unfolding Po_def [symmetric] by blast
  then show ?thesis
    using b0(1) b1(1) by (simp add: filter_acct_def spec)
qed

lemma filter_block_matches:
  assumes R: "roaring_ok R" and idx: "index_reads R st ms idx" and n: "length ms < 2 ^ 32"
  shows "\<exists>bm. filter_block R idx = Some bm \<and> elems R bm = ordinals ms (\<lambda>u. True)"
  using elems_match_all [OF R n] idx by (simp add: filter_block_def index_reads_def)

section \<open>Properties\<close>

text \<open>C12: Evaluating a transaction filter on the index the writer stored for a chunk selects
  exactly the ordinals of the messages that match the filter when it is tested on the messages
  themselves: vote and failure flags, the signature, at least one included account (when an
  included account decodes), every required account, no excluded account.\<close>

theorem tx_filter_exact:
  assumes "roaring_ok R" and "rmp_ok rmp unrmp" and "length ms < 2 ^ 32"
    and "header_fits rmp (idx_header_of R (observe_all R (for_stream Tx) 0 ms) s e (of_nat (length ms)))"
    and "serialize R rmp (observe_all R (for_stream Tx) 0 ms) s e (of_nat (length ms)) = Inr out"
    and "length out < 2 ^ 64"
  shows "\<exists>idx bm. parse_chunk_index unrmp (Some out) = Inr idx \<and> filter_tx R bs58 idx f = Some bm \<and>
    elems R bm = {i. unat i < length ms \<and> tx_matches bs58 f (ms ! unat i)}"
  using index_reads_serialized [OF assms(1,2) less_imp_le [OF assms(3)] assms(4-6)]
    filter_tx_matches [OF assms(1) _ assms(3)] unfolding ordinals_def by blast

text \<open>C24: The same for the account filter: an account in the list and an owner in the list,
  each condition dropped when its list has no key that decodes.\<close>

theorem acct_filter_exact:
  assumes "roaring_ok R" and "rmp_ok rmp unrmp" and "length ms < 2 ^ 32"
    and "header_fits rmp (idx_header_of R (observe_all R (for_stream Acct) 0 ms) s e (of_nat (length ms)))"
    and "serialize R rmp (observe_all R (for_stream Acct) 0 ms) s e (of_nat (length ms)) = Inr out"
    and "length out < 2 ^ 64"
  shows "\<exists>idx bm. parse_chunk_index unrmp (Some out) = Inr idx \<and> filter_acct R bs58 idx f = Some bm \<and>
    elems R bm = {i. unat i < length ms \<and> acct_matches bs58 f (ms ! unat i)}"
  using index_reads_serialized [OF assms(1,2) less_imp_le [OF assms(3)] assms(4-6)]
    filter_acct_matches [OF assms(1) _ assms(3)] unfolding ordinals_def by blast

text \<open>
  Examples: a chunk of one vote, and a chunk of one account update, with a base58 decoder that
  knows one key.
\<close>

definition vote_msg :: "bool \<Rightarrow> subscribe_update" where
  "vote_msg v = \<lparr>filters = [], created_at = None, update_oneof = Some (UTransaction
     \<lparr>tx_slot = 9, transaction = Some \<lparr>signature = [], is_vote = v, tx_body = None, meta = None\<rparr>\<rparr>)\<rparr>"

definition acct_msg :: "bytes \<Rightarrow> subscribe_update" where
  "acct_msg k = \<lparr>filters = [], created_at = None, update_oneof = Some (UAccount
     \<lparr>acct_slot = 9, account = Some \<lparr>pubkey = k, owner = [], acct_data = []\<rparr>\<rparr>)\<rparr>"

definition example_header :: "stream \<Rightarrow> subscribe_update list \<Rightarrow> idx_header" where
  "example_header st ms = idx_header_of list_roaring (observe_all list_roaring (for_stream st) 0 ms) 9 10 (of_nat (length ms))"

lemma serialize_one_header:
  "serialize R (one_header (idx_header_of R b s e n)) b s e n =
     Inr (IDX_MAGIC @ [IDX_VERSION] @ u32_to_le 1 @ [1] @ fst (serialize_dims R b [] (order b)))"
  by (simp add: serialize_def one_header_def idx_header_of_def case_prod_unfold)

lemma tx_filter_exact_witness:
  "\<exists>idx bm. filter_tx list_roaring (\<lambda>_. None) idx
      \<lparr>vote = Some False, failed = None, sig_filter = None, account_include = [], account_exclude = [],
       account_required = []\<rparr> = Some bm \<and> set bm = {1}"
proof -
  let ?ms = "[vote_msg True, vote_msg False]"
  let ?f = "\<lparr>vote = Some False, failed = None, sig_filter = None, account_include = [], account_exclude = [],
       account_required = []\<rparr>"
  let ?b = "observe_all list_roaring (for_stream Tx) 0 ?ms"
  have small: "length (fst (serialize_dims list_roaring ?b [] (order ?b))) < 100"
    by (simp add: vote_msg_def for_stream_def observe_def observe_tx_def ib_insert_def Let_def
        list_roaring_def dim_defs insort_insert_key_def resolved_keys_def)
  let ?out = "IDX_MAGIC @ [IDX_VERSION] @ u32_to_le 1 @ [1] @ fst (serialize_dims list_roaring ?b [] (order ?b))"
  have "length ?out < 110" using small by (simp only: length_append length_u32_to_le) (simp add: IDX_MAGIC_def)
  then have len: "length ?out < 2 ^ 64" by (rule less_trans) simp
  have n: "length ?ms < 2 ^ 32" by simp
  from tx_filter_exact [OF list_roaring_ok one_header_ok n one_header_fits serialize_one_header len, where ?bs58.0 = "\<lambda>_. None" and f = ?f]
  obtain idx bm where bm: "filter_tx list_roaring (\<lambda>_. None) idx ?f = Some bm"
    "set bm = {i. unat i < length ?ms \<and> tx_matches (\<lambda>_. None) ?f (?ms ! unat i)}"
    unfolding elems_list_roaring by blast
  have "unat i < length ?ms \<and> tx_matches (\<lambda>_. None) ?f (?ms ! unat i) \<longleftrightarrow> i = 1" for i :: u32
  proof -
    have "unat i < 2 \<Longrightarrow> unat i = 0 \<or> unat i = 1" by auto
    then show ?thesis
      by (auto simp: tx_matches_def decodable_def List.map_filter_simps is_vote_msg_def tx_of_def vote_msg_def
          word_unat_eq_iff)
  qed
  with bm show ?thesis by auto
qed

lemma acct_filter_exact_witness:
  "\<exists>idx bm. filter_acct list_roaring (\<lambda>s. if s = ''k'' then Some (replicate 32 7) else None) idx
      \<lparr>account_list = [''k''], owner_list = [], acct_filters = [], nonempty_txn_signature = None\<rparr> = Some bm \<and>
    set bm = {1}"
proof -
  let ?ms = "[acct_msg [1], acct_msg (replicate 32 7)]"
  let ?bs = "\<lambda>s. if s = ''k'' then Some (replicate 32 7 :: bytes) else None"
  let ?f = "\<lparr>account_list = [''k''], owner_list = [], acct_filters = [], nonempty_txn_signature = None\<rparr>"
  let ?b = "observe_all list_roaring (for_stream Acct) 0 ?ms"
  have small: "length (fst (serialize_dims list_roaring ?b [] (order ?b))) < 100"
    by (simp add: acct_msg_def for_stream_def observe_def observe_acct_def ib_insert_def Let_def
        list_roaring_def dim_defs insort_insert_key_def numeral_eq_Suc)
  let ?out = "IDX_MAGIC @ [IDX_VERSION] @ u32_to_le 1 @ [1] @ fst (serialize_dims list_roaring ?b [] (order ?b))"
  have "length ?out < 110" using small by (simp only: length_append length_u32_to_le) (simp add: IDX_MAGIC_def)
  then have len: "length ?out < 2 ^ 64" by (rule less_trans) simp
  have n: "length ?ms < 2 ^ 32" by simp
  from acct_filter_exact [OF list_roaring_ok one_header_ok n one_header_fits serialize_one_header len, where ?bs58.0 = ?bs and f = ?f]
  obtain idx bm where bm: "filter_acct list_roaring ?bs idx ?f = Some bm"
    "set bm = {i. unat i < length ?ms \<and> acct_matches ?bs ?f (?ms ! unat i)}"
    unfolding elems_list_roaring by blast
  have "unat i < length ?ms \<and> acct_matches ?bs ?f (?ms ! unat i) \<longleftrightarrow> i = 1" for i :: u32
  proof -
    have "unat i < 2 \<Longrightarrow> unat i = 0 \<or> unat i = 1" by auto
    moreover have "decodable ?bs [''k''] = [replicate 32 7]" "decodable ?bs [] = []"
      by (simp_all add: decodable_def List.map_filter_simps decode_pubkey_def)
    moreover have "[1 :: u8] \<noteq> replicate 32 7" by (simp add: numeral_eq_Suc)
    ultimately show ?thesis
      by (auto simp: acct_matches_def acct_of_def acct_msg_def word_unat_eq_iff)
  qed
  with bm show ?thesis by auto
qed

end
