(* ===== verification/Subscription.thy ===== *)
theory Subscription
  imports Filters Config
begin

text \<open>
  Subscription requests: what the writer asks a validator for (\<open>sillage-writer/src/geyser.rs\<close>)
  and what the reader accepts from a client (\<open>sillage-reader/src/subscription.rs\<close>).

  A request is a message generated from the Yellowstone package. Its maps are lists of entries
  with distinct names in the order the map iterates them. Where only the presence of entries is
  read, an entry is its name.
\<close>

section \<open>Status codes and requests\<close>

datatype status_code =
    InvalidArgument | Unauthenticated | PermissionDenied | ResourceExhausted | DeadlineExceeded
  | Internal | NotFound | Unimplemented | OutOfRange | Unavailable | CancelledCode

datatype status = Status status_code string

fun code_of :: "status \<Rightarrow> status_code" where
  "code_of (Status c _) = c"

record subscribe_request =
  rq_accounts :: "(string \<times> acct_filter) list"
  rq_slots :: "string list"
  rq_transactions :: "(string \<times> tx_filter) list"
  rq_transactions_status :: "string list"
  rq_blocks :: "string list"
  rq_blocks_meta :: "string list"
  rq_entry :: "string list"
  rq_commitment :: "32 word option"
  rq_accounts_data_slice :: "(u64 \<times> u64) list"
  rq_ping :: "32 word option"
  rq_from_slot :: "u64 option"

text \<open>The \<open>Default\<close> values of the generated messages.\<close>

definition default_request :: subscribe_request where
  "default_request =
     \<lparr>rq_accounts = [], rq_slots = [], rq_transactions = [], rq_transactions_status = [], rq_blocks = [],
      rq_blocks_meta = [], rq_entry = [], rq_commitment = None, rq_accounts_data_slice = [],
      rq_ping = None, rq_from_slot = None\<rparr>"

definition default_tx_filter :: tx_filter where
  "default_tx_filter =
     \<lparr>vote = None, failed = None, sig_filter = None, account_include = [], account_exclude = [],
      account_required = []\<rparr>"

definition default_acct_filter :: acct_filter where
  "default_acct_filter =
     \<lparr>account_list = [], owner_list = [], acct_filters = [], nonempty_txn_signature = None\<rparr>"

section \<open>The writer's request\<close>

datatype commitment_level = LevelProcessed | LevelConfirmed | LevelFinalized

fun proto_commitment :: "commitment \<Rightarrow> commitment_level" where
  "proto_commitment Confirmed = LevelConfirmed"
| "proto_commitment Finalized = LevelFinalized"

text \<open>\<open>level_i32\<close> is the number the generated enumeration gives a level.\<close>

definition filter_for :: "(commitment_level \<Rightarrow> 32 word) \<Rightarrow> stream \<Rightarrow> commitment_level \<Rightarrow> u64 option
    \<Rightarrow> subscribe_request" where
  "filter_for level_i32 st level from_slot =
     (let req = (case st of
                   Tx \<Rightarrow> default_request\<lparr>rq_transactions := [(''all'', default_tx_filter)]\<rparr>
                 | Acct \<Rightarrow> default_request\<lparr>rq_accounts := [(''all'', default_acct_filter)]\<rparr>
                 | Block \<Rightarrow> default_request\<lparr>rq_blocks_meta := [''all'']\<rparr>)
      in req\<lparr>rq_commitment := Some (level_i32 level), rq_from_slot := from_slot\<rparr>)"

text \<open>What \<open>subscribe\<close> hands to the gRPC client before it connects.\<close>

record geyser_connection =
  gc_endpoint :: string
  gc_tls :: bool
  gc_x_token :: "string option"
  gc_max_message_size :: nat
  gc_request :: subscribe_request

definition geyser_subscribe :: "(commitment_level \<Rightarrow> 32 word) \<Rightarrow> geyser_config \<Rightarrow> stream \<Rightarrow> u64 option
    \<Rightarrow> geyser_connection" where
  "geyser_subscribe level_i32 cfg st from_slot =
     \<lparr>gc_endpoint = g_endpoint cfg,
      gc_tls = (strip_prefix ''https://'' (g_endpoint cfg) \<noteq> None),
      gc_x_token = (if x_token cfg = [] then None else Some (x_token cfg)),
      gc_max_message_size = max_message_size_bytes cfg,
      gc_request = filter_for level_i32 st (proto_commitment (geyser_commitment cfg)) from_slot\<rparr>"

section \<open>The reader's parser\<close>

record subscription_filters =
  sf_transactions :: "(string \<times> tx_filter) list"
  sf_accounts :: "(string \<times> acct_filter) list"
  sf_blocks_meta :: "string list"
  sf_from_slot :: "u64 option"

text \<open>The loop over the account filters; \<open>None\<close> is its end without an error.\<close>

fun check_accounts :: "(string \<times> acct_filter) list \<Rightarrow> status option" where
  "check_accounts [] = None"
| "check_accounts ((_, f) # fs) =
     (if acct_filters f \<noteq> []
      then Some (Status InvalidArgument ''account memcmp/datasize filters are not yet supported'')
      else if nonempty_txn_signature f \<noteq> None
      then Some (Status InvalidArgument ''nonempty_txn_signature filter is not yet supported'')
      else check_accounts fs)"

definition parse_subscribe_request :: "subscribe_request \<Rightarrow> status + subscription_filters" where
  "parse_subscribe_request req =
     (if rq_blocks req \<noteq> [] then Inl (Status InvalidArgument ''blocks subscription is not supported'')
      else if rq_entry req \<noteq> [] then Inl (Status InvalidArgument ''entry subscription is not supported'')
      else if rq_transactions_status req \<noteq> []
      then Inl (Status InvalidArgument ''transactions_status subscription is not supported'')
      else if rq_accounts_data_slice req \<noteq> []
      then Inl (Status InvalidArgument ''accounts_data_slice is not supported'')
      else if rq_transactions req = [] \<and> rq_accounts req = [] \<and> rq_blocks_meta req = []
      then Inl (Status InvalidArgument
        (''subscription must specify at least one of transactions, accounts, or blocks_meta '' @
         ''(slots and entry updates are not served)''))
      else (case check_accounts (rq_accounts req) of
              Some e \<Rightarrow> Inl e
            | None \<Rightarrow>
                Inr \<lparr>sf_transactions = rq_transactions req, sf_accounts = rq_accounts req,
                     sf_blocks_meta = rq_blocks_meta req, sf_from_slot = rq_from_slot req\<rparr>))"

definition filters_empty :: "subscription_filters \<Rightarrow> bool" where
  "filters_empty f \<longleftrightarrow> sf_transactions f = [] \<and> sf_accounts f = [] \<and> sf_blocks_meta f = []"

fun has_stream :: "subscription_filters \<Rightarrow> stream \<Rightarrow> bool" where
  "has_stream f Tx = (sf_transactions f \<noteq> [])"
| "has_stream f Acct = (sf_accounts f \<noteq> [])"
| "has_stream f Block = (sf_blocks_meta f \<noteq> [])"

definition show_option :: "u64 option \<Rightarrow> string" where
  "show_option x = (case x of None \<Rightarrow> ''None'' | Some n \<Rightarrow> ''Some('' @ dec (unat n) @ '')'')"

definition filters_summary :: "subscription_filters \<Rightarrow> string" where
  "filters_summary f =
     ''tx='' @ dec (length (sf_transactions f)) @ '' acct='' @ dec (length (sf_accounts f)) @
     '' block='' @ dec (length (sf_blocks_meta f)) @ '' from_slot='' @ show_option (sf_from_slot f)"

section \<open>What is accepted\<close>

definition plain_acct :: "acct_filter \<Rightarrow> bool" where
  "plain_acct f \<longleftrightarrow> acct_filters f = [] \<and> nonempty_txn_signature f = None"

definition supported :: "subscribe_request \<Rightarrow> bool" where
  "supported req \<longleftrightarrow>
     rq_blocks req = [] \<and> rq_entry req = [] \<and> rq_transactions_status req = [] \<and>
     rq_accounts_data_slice req = [] \<and>
     \<not> (rq_transactions req = [] \<and> rq_accounts req = [] \<and> rq_blocks_meta req = []) \<and>
     list_all (plain_acct \<circ> snd) (rq_accounts req)"

lemma check_accounts_None: "check_accounts fs = None \<longleftrightarrow> list_all (plain_acct \<circ> snd) fs"
  by (induction fs rule: check_accounts.induct) (auto simp: plain_acct_def)

lemma check_accounts_code: "check_accounts fs = Some e \<Longrightarrow> code_of e = InvalidArgument"
  by (induction fs rule: check_accounts.induct) (auto split: if_splits)

lemma parse_cases:
  "if supported req
   then parse_subscribe_request req = Inr \<lparr>sf_transactions = rq_transactions req, sf_accounts = rq_accounts req,
       sf_blocks_meta = rq_blocks_meta req, sf_from_slot = rq_from_slot req\<rparr>
   else \<exists>e. parse_subscribe_request req = Inl e \<and> code_of e = InvalidArgument"
proof (cases "check_accounts (rq_accounts req)")
  case None
  with check_accounts_None [of "rq_accounts req"] show ?thesis
    by (auto simp: parse_subscribe_request_def supported_def)
next
  case (Some e)
  with check_accounts_None [of "rq_accounts req"] check_accounts_code [OF Some] show ?thesis
    by (auto simp: parse_subscribe_request_def supported_def)
qed

lemma tx_matches_default: "tx_matches bs58 default_tx_filter u"
  by (simp add: tx_matches_def default_tx_filter_def decodable_def List.map_filter_simps)

lemma acct_matches_default: "acct_matches bs58 default_acct_filter u"
  by (simp add: acct_matches_def default_acct_filter_def decodable_def List.map_filter_simps)

section \<open>Properties\<close>


text \<open>The request the writer sends to a validator for a stream asks for that stream only, for all of
  it: it is one the reader's own parser accepts, with exactly that stream, the resume slot it was
  given, and filters that match every message.\<close>

theorem writer_request_is_whole_stream:
  "\<exists>f. parse_subscribe_request (gc_request (geyser_subscribe level_i32 cfg st from_slot)) = Inr f \<and>
     sf_from_slot f = from_slot \<and> (\<forall>st'. has_stream f st' \<longleftrightarrow> st' = st) \<and>
     list_all (\<lambda>(_, g). tx_matches bs58 g u) (sf_transactions f) \<and>
     list_all (\<lambda>(_, g). acct_matches bs58 g u) (sf_accounts f)"
proof -
  let ?req = "gc_request (geyser_subscribe level_i32 cfg st from_slot)"
  have "supported ?req"
    by (cases st) (simp_all add: supported_def geyser_subscribe_def filter_for_def default_request_def Let_def
        plain_acct_def default_acct_filter_def)
  with parse_cases [of ?req] have "parse_subscribe_request ?req =
      Inr \<lparr>sf_transactions = rq_transactions ?req, sf_accounts = rq_accounts ?req,
       sf_blocks_meta = rq_blocks_meta ?req, sf_from_slot = rq_from_slot ?req\<rparr>" by simp
  moreover have "has_stream \<lparr>sf_transactions = rq_transactions ?req, sf_accounts = rq_accounts ?req,
       sf_blocks_meta = rq_blocks_meta ?req, sf_from_slot = rq_from_slot ?req\<rparr> st' \<longleftrightarrow> st' = st" for st'
    by (cases st; cases st') (simp_all add: geyser_subscribe_def filter_for_def default_request_def Let_def)
  ultimately show ?thesis
    by (cases st) (auto simp: geyser_subscribe_def filter_for_def default_request_def Let_def
        tx_matches_default acct_matches_default)
qed

end
