(* ===== verification/Planning.thy ===== *)
theory Planning
  imports Storage Subscription
begin

text \<open>
  Planning a replay (the first half of \<open>sillage-reader/src/replay.rs\<close>): from the catalog and the
  filters of a subscription to the chunks to read of each stream, each with the bitmap of every
  filter and their union.

  \<open>reader_env\<close> collects what the reader relies on: the packages (\<open>roaring\<close>, \<open>bs58\<close>, MessagePack,
  zstd, protobuf), the cache sizes, and the files of the stream directories. A file that is read
  during one replay is read once and then cached, so a fixed assignment of contents to names
  covers files that come and go.
\<close>

section \<open>The plan\<close>

record 'bm reader_env =
  re_roaring :: "'bm roaring"
  re_bs58 :: "string \<Rightarrow> bytes option"
  re_unrmp :: "bytes \<Rightarrow> idx_header option"
  re_index_size :: "chunk_index \<Rightarrow> nat"
  re_index_budget :: u64
  re_unzstd :: "bytes \<Rightarrow> bytes option"
  re_decode :: "bytes \<Rightarrow> subscribe_update option"
  re_chunk_budget :: u64
  re_file :: "stream \<Rightarrow> string \<Rightarrow> bytes option"

record 'bm chunk_plan =
  cp_stream :: stream
  cp_entry :: chunk_entry
  named_bitmaps :: "(string \<times> 'bm) list"
  cp_union :: 'bm
  chunk_recv_ns_first :: "u64 option"

record 'bm replay_plan =
  rp_from_slot :: u64
  rp_to_slot_exclusive :: u64
  plans_per_stream :: "'bm chunk_plan list list"

text \<open>\<open>PlanPanic\<close> is a panic inside the evaluation of a filter.\<close>

datatype plan_error =
    FromSlotTooOld u64 u64
  | NoChunksAvailable
  | PlanOther parse_error
  | PlanPanic

definition named_filters :: "'bm reader_env \<Rightarrow> subscription_filters \<Rightarrow> stream \<Rightarrow> chunk_index
    \<Rightarrow> (string \<times> 'bm) list option" where
  "named_filters E parsed st idx =
     (case st of
        Tx \<Rightarrow> those (map (\<lambda>(name, f). map_option (Pair name) (filter_tx (re_roaring E) (re_bs58 E) idx f))
                (sf_transactions parsed))
      | Acct \<Rightarrow> those (map (\<lambda>(name, f). map_option (Pair name) (filter_acct (re_roaring E) (re_bs58 E) idx f))
                (sf_accounts parsed))
      | Block \<Rightarrow> those (map (\<lambda>name. map_option (Pair name) (filter_block (re_roaring E) idx))
                (sf_blocks_meta parsed)))"

definition union_all :: "'bm roaring \<Rightarrow> (string \<times> 'bm) list \<Rightarrow> 'bm" where
  "union_all R nbs = foldl (\<lambda>acc (_, b). rb_or R acc b) (rb_new R) nbs"

definition chunk_plan_of :: "'bm reader_env \<Rightarrow> stream \<Rightarrow> chunk_entry \<Rightarrow> (string \<times> 'bm) list
    \<Rightarrow> 'bm chunk_plan" where
  "chunk_plan_of E st entry nbs =
     \<lparr>cp_stream = st, cp_entry = entry, named_bitmaps = nbs, cp_union = union_all (re_roaring E) nbs,
      chunk_recv_ns_first = recv_ns_first (ce_meta entry)\<rparr>"

text \<open>The body of the loop over the entries of a stream, and the two loops.\<close>

definition plan_chunk :: "'bm reader_env \<Rightarrow> subscription_filters \<Rightarrow> stream \<Rightarrow> chunk_entry \<Rightarrow> index_cache
    \<Rightarrow> (plan_error + 'bm chunk_plan) \<times> index_cache" where
  "plan_chunk E parsed st entry ic =
     (case get_or_parse (re_unrmp E) (re_index_size E) (re_index_budget E)
             \<lparr>ik_stream = st, ik_start_slot = ce_start_slot entry\<rparr> (re_file E st (idx_path entry)) ic of
        (Inl e, ic') \<Rightarrow> (Inl (PlanOther e), ic')
      | (Inr idx, ic') \<Rightarrow>
          (case named_filters E parsed st idx of
             None \<Rightarrow> (Inl PlanPanic, ic')
           | Some nbs \<Rightarrow> (Inr (chunk_plan_of E st entry nbs), ic')))"

fun plan_entries :: "'bm reader_env \<Rightarrow> subscription_filters \<Rightarrow> stream \<Rightarrow> chunk_entry list \<Rightarrow> index_cache
    \<Rightarrow> (plan_error + 'bm chunk_plan list) \<times> index_cache" where
  "plan_entries E parsed st [] ic = (Inr [], ic)"
| "plan_entries E parsed st (e # es) ic =
     (case plan_chunk E parsed st e ic of
        (Inl x, ic') \<Rightarrow> (Inl x, ic')
      | (Inr p, ic') \<Rightarrow>
          (case plan_entries E parsed st es ic' of
             (Inl x, ic'') \<Rightarrow> (Inl x, ic'')
           | (Inr ps, ic'') \<Rightarrow> (Inr (p # ps), ic'')))"

fun plan_streams :: "'bm reader_env \<Rightarrow> chunk_catalog \<Rightarrow> subscription_filters \<Rightarrow> u64 \<Rightarrow> u64 \<Rightarrow> stream list
    \<Rightarrow> index_cache \<Rightarrow> (plan_error + 'bm chunk_plan list list) \<times> index_cache" where
  "plan_streams E cat parsed from_slot to_slot [] ic = (Inr [], ic)"
| "plan_streams E cat parsed from_slot to_slot (st # sts) ic =
     (case (if has_stream parsed st
            then plan_entries E parsed st (chunks_in_range cat st from_slot to_slot) ic
            else (Inr [], ic)) of
        (Inl x, ic') \<Rightarrow> (Inl x, ic')
      | (Inr ps, ic') \<Rightarrow>
          (case plan_streams E cat parsed from_slot to_slot sts ic' of
             (Inl x, ic'') \<Rightarrow> (Inl x, ic'')
           | (Inr pss, ic'') \<Rightarrow> (Inr (ps # pss), ic'')))"

text \<open>The oldest slot held for the streams that were asked for.\<close>

definition first_available :: "chunk_catalog \<Rightarrow> subscription_filters \<Rightarrow> u64 option" where
  "first_available cat parsed =
     min_opt (List.map_filter (\<lambda>(_, _, min_start, _). min_start)
       (filter (\<lambda>(st, _, _, _). has_stream parsed st) (summary cat)))"

definition plan_replay :: "'bm reader_env \<Rightarrow> chunk_catalog \<Rightarrow> subscription_filters \<Rightarrow> u64 option \<Rightarrow> index_cache
    \<Rightarrow> (plan_error + 'bm replay_plan) \<times> index_cache" where
  "plan_replay E cat parsed explicit_from_slot ic =
     (case first_available cat parsed of
        None \<Rightarrow> (Inl NoChunksAvailable, ic)
      | Some floor_slot \<Rightarrow>
          let to_slot = (case newest_end_slot cat of None \<Rightarrow> 0 | Some s \<Rightarrow> s);
              go = (\<lambda>from_slot.
                (case plan_streams E cat parsed from_slot to_slot all_streams ic of
                   (Inl x, ic') \<Rightarrow> (Inl x, ic')
                 | (Inr pss, ic') \<Rightarrow>
                     (Inr \<lparr>rp_from_slot = from_slot, rp_to_slot_exclusive = to_slot, plans_per_stream = pss\<rparr>, ic')))
          in (case explicit_from_slot of
                Some requested \<Rightarrow>
                  if requested < floor_slot then (Inl (FromSlotTooOld requested floor_slot), ic) else go requested
              | None \<Rightarrow> go floor_slot))"

section \<open>The cache does not matter\<close>

text \<open>What is planned when every index is parsed anew.\<close>

definition parsed_index :: "'bm reader_env \<Rightarrow> stream \<Rightarrow> chunk_entry \<Rightarrow> parse_error + chunk_index" where
  "parsed_index E st entry = parse_chunk_index (re_unrmp E) (re_file E st (idx_path entry))"

definition pure_chunk :: "'bm reader_env \<Rightarrow> subscription_filters \<Rightarrow> stream \<Rightarrow> chunk_entry \<Rightarrow> plan_error + 'bm chunk_plan" where
  "pure_chunk E parsed st entry =
     (case parsed_index E st entry of
        Inl e \<Rightarrow> Inl (PlanOther e)
      | Inr idx \<Rightarrow> (case named_filters E parsed st idx of
                      None \<Rightarrow> Inl PlanPanic
                    | Some nbs \<Rightarrow> Inr (chunk_plan_of E st entry nbs)))"

fun sequence :: "('e + 'a) list \<Rightarrow> 'e + 'a list" where
  "sequence [] = Inr []"
| "sequence (Inl e # xs) = Inl e"
| "sequence (Inr x # xs) = (case sequence xs of Inl e \<Rightarrow> Inl e | Inr ys \<Rightarrow> Inr (x # ys))"

text \<open>
  \<open>index_files E cat files\<close>: \<open>files\<close> gives for the cache key of every entry of the catalog the
  index file of that entry. An index cache is coherent when what it holds was parsed from them.
\<close>

definition index_files :: "'bm reader_env \<Rightarrow> chunk_catalog \<Rightarrow> (index_cache_key \<Rightarrow> bytes option) \<Rightarrow> bool" where
  "index_files E cat files \<longleftrightarrow>
     (\<forall>st s e. catalog_get cat st s = Some e \<longrightarrow>
        files \<lparr>ik_stream = st, ik_start_slot = s\<rparr> = re_file E st (idx_path e))"

definition index_cache_ok :: "'bm reader_env \<Rightarrow> (index_cache_key \<Rightarrow> bytes option) \<Rightarrow> index_cache \<Rightarrow> bool" where
  "index_cache_ok E files ic \<longleftrightarrow> coherent (parse_chunk_index (re_unrmp E) \<circ> files) ic"

lemma plan_chunk_pure:
  assumes "index_cache_ok E files ic"
    and "files \<lparr>ik_stream = st, ik_start_slot = ce_start_slot entry\<rparr> = re_file E st (idx_path entry)"
  shows "fst (plan_chunk E parsed st entry ic) = pure_chunk E parsed st entry \<and>
    index_cache_ok E files (snd (plan_chunk E parsed st entry ic))"
proof -
  obtain r ic' where g: "get_or_parse (re_unrmp E) (re_index_size E) (re_index_budget E)
      \<lparr>ik_stream = st, ik_start_slot = ce_start_slot entry\<rparr> (re_file E st (idx_path entry)) ic = (r, ic')"
    by fastforce
  with index_cache.get_pair [where unrmp = "re_unrmp E" and files = files and c = ic
      and k = "\<lparr>ik_stream = st, ik_start_slot = ce_start_slot entry\<rparr>"] assms
  have "r = parsed_index E st entry" "index_cache_ok E files ic'"
    by (auto simp: index_cache_ok_def parsed_index_def)
  with g show ?thesis by (auto simp: plan_chunk_def pure_chunk_def split: sum.splits option.splits)
qed

lemma plan_entries_pure:
  assumes "index_cache_ok E files ic"
    and "\<forall>e \<in> set es. files \<lparr>ik_stream = st, ik_start_slot = ce_start_slot e\<rparr> = re_file E st (idx_path e)"
  shows "fst (plan_entries E parsed st es ic) = sequence (map (pure_chunk E parsed st) es) \<and>
    index_cache_ok E files (snd (plan_entries E parsed st es ic))"
  using assms
proof (induction es arbitrary: ic)
  case (Cons e es)
  obtain r ic' where p: "plan_chunk E parsed st e ic = (r, ic')" by fastforce
  with plan_chunk_pure [OF Cons.prems(1), of st e parsed] Cons.prems(2)
  have r: "pure_chunk E parsed st e = r" "index_cache_ok E files ic'" by auto
  obtain rs ic'' where ps: "plan_entries E parsed st es ic' = (rs, ic'')" by fastforce
  with Cons.IH [OF r(2)] Cons.prems(2) have "sequence (map (pure_chunk E parsed st) es) = rs" "index_cache_ok E files ic''"
    by auto
  with p ps r show ?case by (cases r; cases rs) auto
qed simp

definition pure_stream :: "'bm reader_env \<Rightarrow> chunk_catalog \<Rightarrow> subscription_filters \<Rightarrow> u64 \<Rightarrow> u64 \<Rightarrow> stream
    \<Rightarrow> plan_error + 'bm chunk_plan list" where
  "pure_stream E cat parsed from_slot to_slot st =
     (if has_stream parsed st
      then sequence (map (pure_chunk E parsed st) (chunks_in_range cat st from_slot to_slot)) else Inr [])"

lemma chunks_in_range_get:
  assumes "catalog_ok cat" and "e \<in> set (chunks_in_range cat st a b)"
  shows "catalog_get cat st (ce_start_slot e) = Some e"
proof -
  from assms(2) chunks_in_range_set [OF assms(1)] obtain tree k where t: "cat st = Some tree" "(k, e) \<in> set tree"
    by fastforce
  with catalog_okD(2,3) [OF assms(1) t(1)] show ?thesis by (auto simp: catalog_get_def bt_in_set [symmetric])
qed

lemma plan_streams_pure:
  assumes "catalog_ok cat" and "index_files E cat files" and "index_cache_ok E files ic"
  shows "fst (plan_streams E cat parsed a b sts ic) = sequence (map (pure_stream E cat parsed a b) sts) \<and>
    index_cache_ok E files (snd (plan_streams E cat parsed a b sts ic))"
  using assms(3)
proof (induction sts arbitrary: ic)
  case (Cons st sts)
  let ?q = "if has_stream parsed st then plan_entries E parsed st (chunks_in_range cat st a b) ic else (Inr [], ic)"
  have "\<forall>e \<in> set (chunks_in_range cat st a b).
      files \<lparr>ik_stream = st, ik_start_slot = ce_start_slot e\<rparr> = re_file E st (idx_path e)"
    using chunks_in_range_get [OF assms(1)] assms(2) by (auto simp: index_files_def)
  note q = plan_entries_pure [OF Cons.prems this, of parsed]
  obtain r ic' where p: "?q = (r, ic')" by fastforce
  with q Cons.prems have r: "pure_stream E cat parsed a b st = r" "index_cache_ok E files ic'"
    by (auto simp: pure_stream_def split: if_splits)
  obtain rs ic'' where ps: "plan_streams E cat parsed a b sts ic' = (rs, ic'')" by fastforce
  with Cons.IH [OF r(2)] have "sequence (map (pure_stream E cat parsed a b) sts) = rs" "index_cache_ok E files ic''"
    by auto
  with p ps r show ?case by (cases r; cases rs) auto
qed simp

section \<open>The floor of the catalog\<close>

definition served_starts :: "chunk_catalog \<Rightarrow> subscription_filters \<Rightarrow> u64 set" where
  "served_starts cat parsed = {s. \<exists>st. has_stream parsed st \<and> catalog_get cat st s \<noteq> None}"

lemma catalog_get_keys: "catalog_get cat st s \<noteq> None \<longleftrightarrow> (\<exists>tree. cat st = Some tree \<and> s \<in> fst ` set tree)"
  by (cases "cat st") (simp_all add: catalog_get_def map_of_eq_None_iff)

lemma first_available_Min:
  assumes ok: "catalog_ok cat"
  shows "first_available cat parsed =
    (if served_starts cat parsed = {} then None else Some (Min (served_starts cat parsed)))"
proof -
  let ?heads = "{s. \<exists>st tree. has_stream parsed st \<and> cat st = Some tree \<and> s = fst (hd tree)}"
  let ?sum = "filter (\<lambda>(st, _, _, _). has_stream parsed st) (summary cat)"
  have "set (List.map_filter (\<lambda>(_, _, m, _). m) ?sum) = ?heads"
  proof (intro set_eqI iffI)
    fix s
    assume "s \<in> set (List.map_filter (\<lambda>(_, _, m, _). m) ?sum)"
    then obtain st n z where "(st, n, Some s, z) \<in> set (summary cat)" "has_stream parsed st"
      by (auto simp: set_map_filter)
    then obtain st' where "summary_of cat st' = Some (st, n, Some s, z)" "has_stream parsed st" by (auto simp: set_summary)
    moreover from this obtain tree where "cat st' = Some tree"
      by (cases "cat st'") (auto simp: summary_of_def)
    ultimately show "s \<in> ?heads" using summary_of_Some [OF ok, of st' tree] by auto
  next
    fix s
    assume "s \<in> ?heads"
    then obtain st tree where "has_stream parsed st" "cat st = Some tree" "s = fst (hd tree)" by auto
    with summary_of_Some [OF ok this(2)]
    have "(st, length tree, Some s, Some (ce_end_slot_exclusive (snd (last tree)))) \<in> set (summary cat)"
      by (auto simp: set_summary)
    with \<open>has_stream parsed st\<close> show "s \<in> set (List.map_filter (\<lambda>(_, _, m, _). m) ?sum)"
      by (force simp: set_map_filter)
  qed
  then have fa: "first_available cat parsed = (if ?heads = {} then None else Some (Min ?heads))"
    unfolding first_available_def min_opt_Min set_empty [symmetric] by (simp only:)
  have sub: "?heads \<subseteq> served_starts cat parsed"
  proof
    fix s
    assume "s \<in> ?heads"
    then obtain st tree where t: "has_stream parsed st" "cat st = Some tree" "s = fst (hd tree)" by auto
    with catalog_okD(1) [OF ok t(2)] have "s \<in> fst ` set tree" by simp
    with t(2) have "catalog_get cat st s \<noteq> None" unfolding catalog_get_keys by blast
    with t(1) show "s \<in> served_starts cat parsed" unfolding served_starts_def by blast
  qed
  have low: "\<exists>h \<in> ?heads. h \<le> s" if "s \<in> served_starts cat parsed" for s
  proof -
    from that obtain st tree where t: "has_stream parsed st" "cat st = Some tree" "s \<in> fst ` set tree"
      unfolding served_starts_def catalog_get_keys by blast
    from catalog_okD(1,2) [OF ok t(2)] t(3) have "fst (hd tree) \<le> s"
      by (cases tree) (auto simp: bt_ok_def)
    with t show ?thesis by blast
  qed
  have "Min ?heads = Min (served_starts cat parsed)" if "served_starts cat parsed \<noteq> {}"
  proof (rule Min_eqI [symmetric])
    have "?heads \<noteq> {}" using low that by blast
    then show "Min ?heads \<in> served_starts cat parsed" using sub Min_in [of ?heads] by auto
    show "Min ?heads \<le> s" if "s \<in> served_starts cat parsed" for s
    proof -
      from low [OF that] obtain h where "h \<in> ?heads" "h \<le> s" by blast
      then show ?thesis using Min_le [of ?heads h] by (metis (no_types, lifting) finite order_trans)
    qed
  qed simp
  moreover have "?heads = {} \<longleftrightarrow> served_starts cat parsed = {}" using sub low by blast
  ultimately show ?thesis using fa by auto
qed

lemma plan_replay_pure:
  assumes ok: "catalog_ok cat" and "index_files E cat files" and "index_cache_ok E files ic"
  shows "fst (plan_replay E cat parsed start ic) =
    (if served_starts cat parsed = {} then Inl NoChunksAvailable
     else if \<exists>r. start = Some r \<and> r < Min (served_starts cat parsed)
     then Inl (FromSlotTooOld (the start) (Min (served_starts cat parsed)))
     else
       let a = (case start of None \<Rightarrow> Min (served_starts cat parsed) | Some r \<Rightarrow> r);
           b = (case newest_end_slot cat of None \<Rightarrow> 0 | Some s \<Rightarrow> s)
       in (case sequence (map (pure_stream E cat parsed a b) all_streams) of
             Inl x \<Rightarrow> Inl x
           | Inr pss \<Rightarrow> Inr \<lparr>rp_from_slot = a, rp_to_slot_exclusive = b, plans_per_stream = pss\<rparr>))"
proof -
  note pure = plan_streams_pure [OF assms, of parsed, THEN conjunct1]
  have fst_case: "fst (case q of (Inl x, ic') \<Rightarrow> (Inl x, ic') | (Inr y, ic') \<Rightarrow> (Inr (f y), ic')) =
      (case fst q of Inl x \<Rightarrow> Inl x | Inr y \<Rightarrow> Inr (f y))"
    for q :: "(plan_error + 'a chunk_plan list list) \<times> index_cache" and f :: "_ \<Rightarrow> 'a replay_plan"
    by (cases q; cases "fst q") auto
  show ?thesis
    by (cases start) (simp_all add: plan_replay_def first_available_Min [OF ok] Let_def pure [symmetric] fst_case)
qed

section \<open>Properties\<close>


definition toy_env :: "u32 list reader_env" where
  "toy_env = \<lparr>re_roaring = list_roaring, re_bs58 = (\<lambda>_. None), re_unrmp = (\<lambda>_. None), re_index_size = (\<lambda>_. 0),
     re_index_budget = 0, re_unzstd = Some, re_decode = (\<lambda>_. None), re_chunk_budget = 0, re_file = (\<lambda>_ _. None)\<rparr>"

definition toy_meta :: chunk_meta where
  "toy_meta = \<lparr>schema_version = 1, cm_stream = ''tx'', start_slot = 5, end_slot_exclusive = 9,
     first_message_slot = None, last_message_slot = None, message_count = 0, uncompressed_bytes = 0,
     compressed_bytes = 0, recv_ns_first = None, recv_ns_last = None, sealed_reason = [], index_dimensions = []\<rparr>"

definition toy_store :: store where
  "toy_store st = (if st = Tx
     then Some (map (\<lambda>n. (n, \<lparr>content = [], mtime = 0\<rparr>)) [''5-9.meta.json'', ''5-9.zst'', ''5-9.idx'']) else None)"

definition all_txs :: subscription_filters where
  "all_txs = \<lparr>sf_transactions = [(''all'', default_tx_filter)], sf_accounts = [], sf_blocks_meta = [],
     sf_from_slot = None\<rparr>"

definition toy_entry :: chunk_entry where
  "toy_entry = \<lparr>ce_stream = Tx, ce_start_slot = 5, ce_end_slot_exclusive = 9, zst_path = ''5-9.zst'',
    idx_path = ''5-9.idx'', meta_path = ''5-9.meta.json'', zst_len = 0, ce_meta = toy_meta\<rparr>"

lemma toy_catalog: "scan (\<lambda>_. Some toy_meta) toy_store = (\<lambda>st. if st = Tx then Some [(5, toy_entry)] else None)"
  by (intro ext) (simp add: scan_def toy_store_def scan_stream_def scan_entry_def scan_candidate_def strip_suffix_def
      splitn2_def parse_u64_def digit_val_def toy_meta_def SCHEMA_VERSION_def toy_entry_def)

lemma toy_newest: "newest_end_slot (scan (\<lambda>_. Some toy_meta) toy_store) = Some 9"
  by (simp add: toy_catalog newest_end_slot_def summary_def summary_of_def all_streams_def max_opt_def toy_entry_def
      List.map_filter_simps)


end
