(* ===== verification/Merge.thy ===== *)
theory Merge
  imports Prelude "HOL-Library.Sublist" "HOL-Library.Multiset"
begin

text \<open>
  Merging several streams by slot. A stream is the list of items it still yields and the error it
  ends with, if it does. \<open>merge\<close> is the list version of the loop of the replay: look at the next
  item of every stream, fail if one of them fails, and take the one with the smallest slot, the
  first of several. \<open>slot_merge\<close> is the declarative version for streams without errors.
\<close>

type_synonym ('i, 'e) out = "'i list \<times> 'e option"

definition prepend :: "'i \<Rightarrow> ('i, 'e) out \<Rightarrow> ('i, 'e) out" where
  "prepend x out = (x # fst out, snd out)"

lemma prepend_sel [simp]: "fst (prepend x out) = x # fst out" "snd (prepend x out) = snd out"
  by (simp_all add: prepend_def)

definition drop_first :: "('i, 'e) out \<Rightarrow> ('i, 'e) out" where
  "drop_first out = (tl (fst out), snd out)"

text \<open>\<open>best\<close> holds an index and its slot.\<close>

definition better :: "(nat \<times> u64) option \<Rightarrow> nat \<Rightarrow> u64 \<Rightarrow> (nat \<times> u64) option" where
  "better best i slot =
     (case best of
        None \<Rightarrow> Some (i, slot)
      | Some (j, s) \<Rightarrow> if slot < s \<or> slot = s \<and> i < j then Some (i, slot) else best)"

fun pick :: "('i \<Rightarrow> u64) \<Rightarrow> nat \<Rightarrow> (nat \<times> u64) option \<Rightarrow> ('i, 'e) out list \<Rightarrow> 'e + (nat \<times> u64) option" where
  "pick key i best [] = Inr best"
| "pick key i best (([], None) # os) = pick key (Suc i) best os"
| "pick key i best (([], Some e) # os) = Inl e"
| "pick key i best ((x # xs, e) # os) = pick key (Suc i) (better best i (key x)) os"

text \<open>The next item of the least slot among the streams, the first one of several.\<close>

definition is_best :: "('i \<Rightarrow> u64) \<Rightarrow> ('i, 'e) out list \<Rightarrow> (nat \<times> u64) option \<Rightarrow> bool" where
  "is_best key os best \<longleftrightarrow>
     (case best of
        None \<Rightarrow> (\<forall>out \<in> set os. fst out = [])
      | Some (j, s) \<Rightarrow>
          j < length os \<and> fst (os ! j) \<noteq> [] \<and> key (hd (fst (os ! j))) = s \<and>
          (\<forall>i < length os. fst (os ! i) \<noteq> [] \<longrightarrow>
             s < key (hd (fst (os ! i))) \<or> s = key (hd (fst (os ! i))) \<and> j \<le> i))"

lemma is_best_skip: "is_best key os best \<Longrightarrow> is_best key (os @ [([], e)]) best"
  by (auto simp: is_best_def nth_append less_Suc_eq split: option.splits)

lemma is_best_better:
  assumes "is_best key os best"
  shows "is_best key (os @ [(x # xs, e)]) (better best (length os) (key x))"
proof (cases best)
  case None
  with assms show ?thesis by (auto simp: is_best_def better_def nth_append less_Suc_eq)
next
  case (Some js)
  obtain j s where js: "js = (j, s)" by fastforce
  with assms Some have b: "j < length os" "fst (os ! j) \<noteq> []" "key (hd (fst (os ! j))) = s"
    "\<forall>i < length os. fst (os ! i) \<noteq> [] \<longrightarrow>
       s < key (hd (fst (os ! i))) \<or> s = key (hd (fst (os ! i))) \<and> j \<le> i"
    by (auto simp: is_best_def)
  show ?thesis
  proof (cases "key x < s")
    case True
    then have "better best (length os) (key x) = Some (length os, key x)" by (simp add: better_def Some js)
    moreover have "key x < key (hd (fst (os ! i)))" if "i < length os" "fst (os ! i) \<noteq> []" for i
      using b(4) that True by (metis order.strict_trans)
    ultimately show ?thesis by (auto simp: is_best_def nth_append less_Suc_eq)
  next
    case False
    with b(1) have "better best (length os) (key x) = Some (j, s)" by (auto simp: better_def Some js)
    with b False show ?thesis by (auto simp: is_best_def nth_append less_Suc_eq not_less)
  qed
qed

lemma pick_is_best:
  "pick key (length pre) best os = Inr r \<Longrightarrow> is_best key pre best \<Longrightarrow> is_best key (pre @ os) r"
proof (induction os arbitrary: pre best)
  case (Cons out os)
  obtain xs e where out: "out = (xs, e)" by fastforce
  show ?case
  proof (cases xs)
    case Nil
    with Cons.prems out have "e = None" and p: "pick key (length (pre @ [out])) best os = Inr r" by (cases e; simp)+
    from Cons.IH [OF p] is_best_skip [OF Cons.prems(2)] Nil out show ?thesis by simp
  next
    case (Cons x ys)
    with Cons.prems out have p: "pick key (length (pre @ [out])) (better best (length pre) (key x)) os = Inr r" by simp
    from Cons.IH [OF p] is_best_better [OF Cons.prems(2)] Cons out show ?thesis by simp
  qed
qed simp

lemma pick_best: "pick key 0 None os = Inr r \<Longrightarrow> is_best key os r"
  using pick_is_best [of key "[]" None os r] by (simp add: is_best_def)

lemma pick_no_error: "\<forall>out \<in> set os. snd out = None \<Longrightarrow> \<exists>r. pick key k best os = Inr r"
  by (induction key k best os rule: pick.induct) auto

lemma pick_Inr_no_error: "pick key k best os = Inr r \<Longrightarrow> \<forall>out \<in> set os. fst out = [] \<longrightarrow> snd out = None"
  by (induction key k best os rule: pick.induct) auto

lemma sum_list_update_nat:
  "i < length xs \<Longrightarrow> sum_list (map f (xs[i := y])) + f (xs ! i) = sum_list (map f xs) + (f y :: nat)"
  by (induction xs arbitrary: i) (auto simp: nth_Cons split: nat.splits)

section \<open>Merging\<close>

function merge :: "('i \<Rightarrow> u64) \<Rightarrow> ('i, 'e) out list \<Rightarrow> ('i, 'e) out" where
  "merge key os =
     (case pick key 0 None os of
        Inl e \<Rightarrow> ([], Some e)
      | Inr None \<Rightarrow> ([], None)
      | Inr (Some (i, s)) \<Rightarrow> prepend (hd (fst (os ! i))) (merge key (os[i := drop_first (os ! i)])))"
  by pat_completeness auto
termination
proof (relation "measure (\<lambda>(key, os). sum_list (map (length \<circ> fst) os))")
  fix key :: "'i \<Rightarrow> u64" and os :: "('i, 'e) out list" and r js i s
  assume "pick key 0 None os = Inr r" "r = Some js" "(i, s) = js"
  then have i: "i < length os" "fst (os ! i) \<noteq> []" using pick_best [of key os r] by (auto simp: is_best_def)
  let ?f = "length \<circ> fst"
  have "sum_list (map ?f (os[i := drop_first (os ! i)])) + ?f (os ! i) =
      sum_list (map ?f os) + ?f (drop_first (os ! i))"
    by (rule sum_list_update_nat [OF i(1)])
  moreover have "?f (drop_first (os ! i)) < ?f (os ! i)" using i(2) by (simp add: drop_first_def)
  ultimately show "((key, os[i := drop_first (os ! i)]), (key, os)) \<in> measure (\<lambda>(key, os). sum_list (map (length \<circ> fst) os))"
    by simp
qed simp

declare merge.simps [simp del]

inductive slot_merge :: "('i \<Rightarrow> u64) \<Rightarrow> 'i list list \<Rightarrow> 'i list \<Rightarrow> bool" for key where
  slot_merge_done: "\<forall>xs \<in> set xss. xs = [] \<Longrightarrow> slot_merge key xss []"
| slot_merge_take: "i < length xss \<Longrightarrow> xss ! i = x # xs \<Longrightarrow>
    \<forall>j < length xss. xss ! j \<noteq> [] \<longrightarrow> key x < key (hd (xss ! j)) \<or> key x = key (hd (xss ! j)) \<and> i \<le> j \<Longrightarrow>
    slot_merge key (xss[i := xs]) zs \<Longrightarrow> slot_merge key xss (x # zs)"

lemma merge_slot_merge:
  assumes "\<forall>out \<in> set os. snd out = None"
  shows "snd (merge key os) = None \<and> slot_merge key (map fst os) (fst (merge key os))"
  using assms
proof (induction key os rule: merge.induct)
  case (1 key os)
  obtain r where r: "pick key 0 None os = Inr r" using pick_no_error [OF "1.prems"] by blast
  show ?case
  proof (cases r)
    case None
    with pick_best [OF r] r show ?thesis
      by (simp add: merge.simps [of key os] is_best_def slot_merge_done)
  next
    case (Some js)
    obtain i s where js: "js = (i, s)" by fastforce
    with pick_best [OF r] Some have i: "i < length os" "fst (os ! i) \<noteq> []" "key (hd (fst (os ! i))) = s"
      "\<forall>j < length os. fst (os ! j) \<noteq> [] \<longrightarrow> s < key (hd (fst (os ! j))) \<or> s = key (hd (fst (os ! j))) \<and> i \<le> j"
      by (auto simp: is_best_def)
    let ?os = "os[i := drop_first (os ! i)]"
    have "\<forall>out \<in> set ?os. snd out = None"
      using "1.prems" i(1) set_update_subset_insert [of os i "drop_first (os ! i)"] by (auto simp: drop_first_def)
    from "1.IH" [OF r Some js [symmetric] this] have ih: "snd (merge key ?os) = None"
      "slot_merge key ((map fst os)[i := tl (fst (os ! i))]) (fst (merge key ?os))"
      by (simp_all add: map_update drop_first_def)
    have "slot_merge key (map fst os) (hd (fst (os ! i)) # fst (merge key ?os))"
      by (rule slot_merge_take [OF _ _ _ ih(2)]) (use i in auto)
    with ih(1) show ?thesis by (simp add: merge.simps [of key os] r Some js)
  qed
qed

lemma merge_error: "snd (merge key os) = Some e \<Longrightarrow> \<exists>out \<in> set os. snd out = Some e"
proof (induction key os rule: merge.induct)
  case (1 key os)
  have pe: "pick key k best os' = Inl e \<Longrightarrow> \<exists>out \<in> set os'. snd out = Some e" for k best os'
    by (induction key k best os' rule: pick.induct) auto
  show ?case
  proof (cases "pick key 0 None os")
    case (Inl x)
    with "1.prems" pe [of 0 None os] show ?thesis by (simp add: merge.simps [of key os])
  next
    case (Inr b)
    show ?thesis
    proof (cases b)
      case None
      with "1.prems" Inr show ?thesis by (simp add: merge.simps [of key os])
    next
      case (Some w)
      obtain i s where w: "w = (i, s)" by fastforce
      with pick_best [OF Inr] Some have i: "i < length os" by (auto simp: is_best_def)
      from "1.prems" Inr Some w have "snd (merge key (os[i := drop_first (os ! i)])) = Some e"
        by (simp add: merge.simps [of key os])
      from "1.IH" [OF Inr Some w [symmetric] this] obtain out where
        out: "out \<in> set (os[i := drop_first (os ! i)])" "snd out = Some e" by blast
      then consider "out = drop_first (os ! i)" | "out \<in> set os"
        using set_update_subset_insert [of os i "drop_first (os ! i)"] by blast
      then show ?thesis
        by cases (use out(2) nth_mem [OF i] in \<open>auto simp: drop_first_def\<close>)
    qed
  qed
qed

section \<open>Facts about merged streams\<close>

lemma slot_merge_mset: "slot_merge key xss zs \<Longrightarrow> mset zs = mset (concat xss)"
proof (induction rule: slot_merge.induct)
  case (slot_merge_take i xss x xs zs)
  have "xss = take i xss @ (x # xs) # drop (Suc i) xss"
    using slot_merge_take.hyps by (metis id_take_nth_drop)
  then have "mset (concat xss) = mset (concat (take i xss)) + mset (x # xs) + mset (concat (drop (Suc i) xss))"
    by (metis concat.simps(2) concat_append mset_append add.assoc)
  moreover have "mset (concat (xss[i := xs])) = mset (concat (take i xss)) + mset xs + mset (concat (drop (Suc i) xss))"
    using slot_merge_take.hyps(1) by (simp add: upd_conv_take_nth_drop)
  ultimately show ?case using slot_merge_take.IH by simp
qed simp

lemma slot_merge_subseq: "slot_merge key xss zs \<Longrightarrow> j < length xss \<Longrightarrow> subseq (xss ! j) zs"
proof (induction rule: slot_merge.induct)
  case (slot_merge_take i xss x xs zs)
  then show ?case by (cases "i = j") (auto simp: subseq_Cons')
qed auto

lemma slot_merge_sorted:
  "slot_merge key xss zs \<Longrightarrow> \<forall>xs \<in> set xss. sorted (map key xs) \<Longrightarrow> sorted (map key zs)"
proof (induction rule: slot_merge.induct)
  case (slot_merge_take i xss x xs zs)
  have srt: "\<forall>ys \<in> set (xss[i := xs]). sorted (map key ys)"
  proof
    fix ys
    assume "ys \<in> set (xss[i := xs])"
    then consider "ys = xs" | "ys \<in> set xss" using set_update_subset_insert by fastforce
    then show "sorted (map key ys)"
    proof cases
      case 1
      have "x # xs \<in> set xss" using slot_merge_take.hyps(1,2) nth_mem by metis
      then have "sorted (map key (x # xs))" using slot_merge_take.prems by blast
      with 1 show ?thesis by simp
    qed (use slot_merge_take.prems in blast)
  qed
  have "key x \<le> key z" if "z \<in> set zs" for z
  proof -
    have "z \<in> set (concat (xss[i := xs]))"
      using that slot_merge_mset [OF slot_merge_take.hyps(4)] by (metis set_mset_mset)
    then obtain j where j: "j < length xss" "z \<in> set (xss[i := xs] ! j)"
      by (auto simp: in_set_conv_nth) (metis in_set_conv_nth)
    have "z \<in> set (xss ! j)" using j slot_merge_take.hyps(1,2) by (cases "i = j") auto
    then obtain y ys where y: "xss ! j = y # ys" by (cases "xss ! j") auto
    have "sorted (map key (y # ys))" using slot_merge_take.prems j(1) y nth_mem by metis
    with \<open>z \<in> set (xss ! j)\<close> y have "key y \<le> key z" by auto
    moreover have "key x \<le> key y" using slot_merge_take.hyps(3) j(1) y by fastforce
    ultimately show ?thesis by simp
  qed
  with slot_merge_take.IH [OF srt] show ?case by auto
qed simp

end
