(* ===== verification/Cursor.thy ===== *)
theory Cursor
  imports Planning Merge
begin

text \<open>
  The cursor over the planned chunks of one stream (\<open>StreamCursor\<close> and \<open>extract_recv_ns\<close> in
  \<open>sillage-reader/src/replay.rs\<close>). What a cursor still yields is the list \<open>cursor_out\<close>, with the
  error it ends with; \<open>peek_cases\<close> shows that \<open>peek\<close> reads it off, one item at a time.
\<close>

section \<open>Items\<close>

text \<open>Slot, message, names of the filters that match, source time.\<close>

type_synonym replay_item = "u64 \<times> subscribe_update \<times> string list \<times> u64 option"

datatype replay_error = ReplayDecode decode_error | CursorPanic

definition item_slot :: "replay_item \<Rightarrow> u64" where
  "item_slot it = fst it"

text \<open>The seconds are an \<open>i64\<close> and the nanoseconds an \<open>i32\<close>, read from their bits.\<close>

definition extract_recv_ns :: "subscribe_update \<Rightarrow> chunk_meta \<Rightarrow> u32 \<Rightarrow> u64 option" where
  "extract_recv_ns msg cm ord_in_chunk =
     (case (case created_at msg of
              None \<Rightarrow> None
            | Some ts \<Rightarrow>
                if 0 \<le> sint (seconds ts)
                then Some (seconds ts * 1000000000 + of_int (sint (nanos ts))) else None) of
        Some ns \<Rightarrow> Some ns
      | None \<Rightarrow>
          (case recv_ns_first cm of
             None \<Rightarrow> None
           | Some first \<Rightarrow>
               let last_ns = (case recv_ns_last cm of None \<Rightarrow> first | Some l \<Rightarrow> l);
                   count = message_count cm
               in if count \<le> 1 \<or> last_ns = first then Some first
                  else
                    let span = last_ns - first;
                        frac_nanos = unat ord_in_chunk * unat span div unat (count - 1)
                    in Some (first + of_nat frac_nanos)))"

text \<open>What \<open>peek\<close> does with one ordinal of the current chunk.\<close>

definition read_item :: "'bm reader_env \<Rightarrow> 'bm chunk_plan \<Rightarrow> decoded_chunk \<Rightarrow> u32 \<Rightarrow> decode_error + replay_item" where
  "read_item E plan d ord =
     (case decode_message (re_decode E) d ord of
        Inl e \<Rightarrow> Inl e
      | Inr msg \<Rightarrow>
          let slot = (case extract_slot msg of None \<Rightarrow> 0 | Some s \<Rightarrow> s);
              name_matches = map fst (filter (\<lambda>(_, b). rb_contains (re_roaring E) b ord) (named_bitmaps plan))
          in Inr (slot, msg, name_matches, extract_recv_ns msg (ce_meta (cp_entry plan)) ord))"

section \<open>The cursor\<close>

record 'bm stream_cursor =
  sc_plans :: "'bm chunk_plan list"
  plan_idx :: nat
  current_decoded :: "decoded_chunk option"
  current_ords :: "u32 list option"
  peeked :: "replay_item option"

definition cursor_new :: "'bm chunk_plan list \<Rightarrow> 'bm stream_cursor" where
  "cursor_new plans =
     \<lparr>sc_plans = plans, plan_idx = 0, current_decoded = None, current_ords = None, peeked = None\<rparr>"

text \<open>The inner loop of \<open>peek\<close>: \<open>Inr False\<close> when the plans are exhausted.\<close>

function next_plan :: "'bm reader_env \<Rightarrow> 'bm stream_cursor \<Rightarrow> chunk_cache
    \<Rightarrow> (decode_error + bool) \<times> 'bm stream_cursor \<times> chunk_cache" where
  "next_plan E c cache =
     (if length (sc_plans c) \<le> plan_idx c then (Inr False, c, cache)
      else
        let plan = sc_plans c ! plan_idx c;
            c = c\<lparr>plan_idx := Suc (plan_idx c)\<rparr>
        in if rb_is_empty (re_roaring E) (cp_union plan) then next_plan E c cache
           else
             (case get_or_decode (re_unzstd E) (re_chunk_budget E)
                     \<lparr>ck_stream = cp_stream plan, ck_start_slot = ce_start_slot (cp_entry plan)\<rparr>
                     (re_file E (cp_stream plan) (zst_path (cp_entry plan))) cache of
                (Inl e, cache') \<Rightarrow> (Inl e, c, cache')
              | (Inr d, cache') \<Rightarrow>
                  (Inr True, c\<lparr>current_decoded := Some d,
                               current_ords := Some (rb_into_iter (re_roaring E) (cp_union plan))\<rparr>, cache')))"
  by pat_completeness auto
termination by (relation "measure (\<lambda>(E, c, cache). length (sc_plans c) - plan_idx c)") auto

declare next_plan.simps [simp del]

lemma next_plan_cursor:
  "next_plan E c cache = (r, c', cache') \<Longrightarrow>
   sc_plans c' = sc_plans c \<and> peeked c' = peeked c \<and>
   (if r = Inr True then plan_idx c < plan_idx c' \<and> plan_idx c' \<le> length (sc_plans c)
    else current_ords c' = current_ords c \<and> plan_idx c \<le> plan_idx c')"
proof (induction E c cache rule: next_plan.induct)
  case (1 E c cache)
  show ?case
  proof (cases "length (sc_plans c) \<le> plan_idx c")
    case True
    with "1.prems" show ?thesis by (auto simp: next_plan.simps [of E c cache])
  next
    case False
    let ?c = "c\<lparr>plan_idx := Suc (plan_idx c)\<rparr>"
    let ?plan = "sc_plans c ! plan_idx c"
    show ?thesis
    proof (cases "rb_is_empty (re_roaring E) (cp_union ?plan)")
      case True
      with "1.prems" False have "next_plan E ?c cache = (r, c', cache')"
        by (simp add: next_plan.simps [of E c cache])
      with "1.IH" [OF False refl refl True this] show ?thesis by (auto split: if_splits)
    next
      case nonempty: False
      with "1.prems" False show ?thesis
        by (auto simp: next_plan.simps [of E c cache] Let_def split: prod.splits sum.splits)
    qed
  qed
qed

definition needs_new_plan :: "'bm stream_cursor \<Rightarrow> bool" where
  "needs_new_plan c \<longleftrightarrow> (case current_ords c of None \<Rightarrow> True | Some ords \<Rightarrow> ords = [])"

text \<open>The part of the loop of \<open>peek\<close> that makes a chunk current.\<close>

definition ensure_plan :: "'bm reader_env \<Rightarrow> 'bm stream_cursor \<Rightarrow> chunk_cache
    \<Rightarrow> (decode_error + bool) \<times> 'bm stream_cursor \<times> chunk_cache" where
  "ensure_plan E c cache = (if needs_new_plan c then next_plan E c cache else (Inr True, c, cache))"

text \<open>The rest of the loop body: the next ordinal of the current chunk.\<close>

definition read_next :: "'bm reader_env \<Rightarrow> 'bm stream_cursor
    \<Rightarrow> (replay_error + replay_item option) \<times> 'bm stream_cursor" where
  "read_next E c =
     (let ord = hd (the (current_ords c));
          c' = c\<lparr>current_ords := Some (tl (the (current_ords c)))\<rparr>
      in (case current_decoded c of
            None \<Rightarrow> (Inl CursorPanic, c')
          | Some d \<Rightarrow>
              (case read_item E (sc_plans c ! (plan_idx c - 1)) d ord of
                 Inl e \<Rightarrow> (Inl (ReplayDecode e), c')
               | Inr it \<Rightarrow> (Inr (Some it), c'\<lparr>peeked := Some it\<rparr>))))"

function peek :: "'bm reader_env \<Rightarrow> 'bm stream_cursor \<Rightarrow> chunk_cache
    \<Rightarrow> (replay_error + replay_item option) \<times> 'bm stream_cursor \<times> chunk_cache" where
  "peek E c cache =
     (case peeked c of
        Some p \<Rightarrow> (Inr (Some p), c, cache)
      | None \<Rightarrow>
          (case ensure_plan E c cache of
             (Inl e, c', cache') \<Rightarrow> (Inl (ReplayDecode e), c', cache')
           | (Inr False, c', cache') \<Rightarrow> (Inr None, c', cache')
           | (Inr True, c', cache') \<Rightarrow>
               (if needs_new_plan c' then peek E c' cache'
                else (case read_next E c' of (r, c'') \<Rightarrow> (r, c'', cache')))))"
  by pat_completeness auto
termination
  by (relation "measure (\<lambda>(E, c, cache). length (sc_plans c) - plan_idx c)")
    (auto simp: ensure_plan_def dest!: next_plan_cursor [OF sym] split: if_splits)

declare peek.simps [simp del]

definition take_peeked :: "'bm stream_cursor \<Rightarrow> replay_item option \<times> 'bm stream_cursor" where
  "take_peeked c = (peeked c, c\<lparr>peeked := None\<rparr>)"

section \<open>What a cursor yields\<close>

fun items_out :: "'bm reader_env \<Rightarrow> 'bm chunk_plan \<Rightarrow> decoded_chunk \<Rightarrow> u32 list
    \<Rightarrow> (replay_item, replay_error) out \<Rightarrow> (replay_item, replay_error) out" where
  "items_out E plan d [] k = k"
| "items_out E plan d (ord # ords) k =
     (case read_item E plan d ord of
        Inl e \<Rightarrow> ([], Some (ReplayDecode e))
      | Inr it \<Rightarrow> prepend it (items_out E plan d ords k))"

fun plans_out :: "'bm reader_env \<Rightarrow> 'bm chunk_plan list \<Rightarrow> (replay_item, replay_error) out" where
  "plans_out E [] = ([], None)"
| "plans_out E (plan # plans) =
     (if rb_is_empty (re_roaring E) (cp_union plan) then plans_out E plans
      else (case decode_chunk (re_unzstd E) (re_file E (cp_stream plan) (zst_path (cp_entry plan))) of
              Inl e \<Rightarrow> ([], Some (ReplayDecode e))
            | Inr d \<Rightarrow> items_out E plan d (rb_into_iter (re_roaring E) (cp_union plan)) (plans_out E plans)))"

definition unpeeked_out :: "'bm reader_env \<Rightarrow> 'bm stream_cursor \<Rightarrow> (replay_item, replay_error) out" where
  "unpeeked_out E c =
     (if needs_new_plan c then plans_out E (drop (plan_idx c) (sc_plans c))
      else (case current_decoded c of
              None \<Rightarrow> ([], Some CursorPanic)
            | Some d \<Rightarrow> items_out E (sc_plans c ! (plan_idx c - 1)) d (the (current_ords c))
                          (plans_out E (drop (plan_idx c) (sc_plans c)))))"

definition cursor_out :: "'bm reader_env \<Rightarrow> 'bm stream_cursor \<Rightarrow> (replay_item, replay_error) out" where
  "cursor_out E c =
     (case peeked c of None \<Rightarrow> unpeeked_out E c | Some p \<Rightarrow> prepend p (unpeeked_out E c))"

lemma cursor_out_new: "cursor_out E (cursor_new plans) = plans_out E plans"
  by (simp add: cursor_out_def unpeeked_out_def cursor_new_def needs_new_plan_def)

text \<open>The chunk files of the plans, by their cache keys, and caches that were filled from them.\<close>

definition plan_files :: "'bm reader_env \<Rightarrow> 'bm chunk_plan list \<Rightarrow> (cache_key \<Rightarrow> bytes option) \<Rightarrow> bool" where
  "plan_files E plans files \<longleftrightarrow>
     (\<forall>p \<in> set plans. files \<lparr>ck_stream = cp_stream p, ck_start_slot = ce_start_slot (cp_entry p)\<rparr> =
        re_file E (cp_stream p) (zst_path (cp_entry p)))"

definition chunk_cache_ok :: "'bm reader_env \<Rightarrow> (cache_key \<Rightarrow> bytes option) \<Rightarrow> chunk_cache \<Rightarrow> bool" where
  "chunk_cache_ok E files cache \<longleftrightarrow> coherent (decode_chunk (re_unzstd E) \<circ> files) cache"

lemma next_plan_out:
  assumes "next_plan E c cache = (r, c', cache')"
    and "plan_files E (sc_plans c) files" and "chunk_cache_ok E files cache"
  shows "chunk_cache_ok E files cache' \<and>
    (case r of
       Inl e \<Rightarrow> plans_out E (drop (plan_idx c) (sc_plans c)) = ([], Some (ReplayDecode e))
     | Inr False \<Rightarrow> plans_out E (drop (plan_idx c) (sc_plans c)) = ([], None) \<and>
         plans_out E (drop (plan_idx c') (sc_plans c)) = ([], None)
     | Inr True \<Rightarrow> (\<exists>d ords. current_decoded c' = Some d \<and> current_ords c' = Some ords \<and>
         plans_out E (drop (plan_idx c) (sc_plans c)) =
         items_out E (sc_plans c ! (plan_idx c' - 1)) d ords (plans_out E (drop (plan_idx c') (sc_plans c)))))"
  using assms
proof (induction E c cache rule: next_plan.induct)
  case (1 E c cache)
  show ?case
  proof (cases "length (sc_plans c) \<le> plan_idx c")
    case True
    with "1.prems" show ?thesis by (auto simp: next_plan.simps [of E c cache])
  next
    case False
    let ?c = "c\<lparr>plan_idx := Suc (plan_idx c)\<rparr>"
    let ?plan = "sc_plans c ! plan_idx c"
    have drp: "drop (plan_idx c) (sc_plans c) = ?plan # drop (Suc (plan_idx c)) (sc_plans c)"
      using False by (simp add: Cons_nth_drop_Suc)
    show ?thesis
    proof (cases "rb_is_empty (re_roaring E) (cp_union ?plan)")
      case True
      with "1.prems"(1) False have "next_plan E ?c cache = (r, c', cache')"
        by (simp add: next_plan.simps [of E c cache])
      with "1.IH" [OF False refl refl True this] "1.prems"(2,3) True show ?thesis by (auto simp: drp split: sum.splits bool.splits)
    next
      case nonempty: False
      let ?key = "\<lparr>ck_stream = cp_stream ?plan, ck_start_slot = ce_start_slot (cp_entry ?plan)\<rparr>"
      have f: "re_file E (cp_stream ?plan) (zst_path (cp_entry ?plan)) = files ?key"
        using "1.prems"(2) False by (simp add: plan_files_def)
      obtain q cache'' where g: "get_or_decode (re_unzstd E) (re_chunk_budget E) ?key (files ?key) cache = (q, cache'')"
        by fastforce
      with chunk_cache.get_pair [where unzstd = "re_unzstd E" and files = files and c = cache and k = ?key] "1.prems"(3)
      have q: "q = decode_chunk (re_unzstd E) (files ?key)" "chunk_cache_ok E files cache''"
        by (auto simp: chunk_cache_ok_def)
      show ?thesis
      proof (cases q)
        case (Inl e)
        with "1.prems"(1) False nonempty g f have "r = Inl e" "cache' = cache''"
          by (simp_all add: next_plan.simps [of E c cache])
        with Inl q nonempty f show ?thesis by (simp add: drp)
      next
        case (Inr d)
        with "1.prems"(1) False nonempty g f have "r = Inr True" "cache' = cache''"
          "c' = ?c\<lparr>current_decoded := Some d, current_ords := Some (rb_into_iter (re_roaring E) (cp_union ?plan))\<rparr>"
          by (simp_all add: next_plan.simps [of E c cache])
        with Inr q nonempty f show ?thesis by (simp add: drp)
      qed
    qed
  qed
qed

lemma ensure_plan_out:
  assumes "ensure_plan E c cache = (q, c1, cache1)" and "peeked c = None"
    and "plan_files E (sc_plans c) files" and "chunk_cache_ok E files cache"
  shows "chunk_cache_ok E files cache1 \<and> sc_plans c1 = sc_plans c \<and> peeked c1 = None \<and>
    (case q of
       Inl e \<Rightarrow> unpeeked_out E c = ([], Some (ReplayDecode e))
     | Inr False \<Rightarrow> unpeeked_out E c = ([], None) \<and> unpeeked_out E c1 = ([], None)
     | Inr True \<Rightarrow> unpeeked_out E c = unpeeked_out E c1)"
proof (cases "needs_new_plan c")
  case True
  with assms(1) have np: "next_plan E c cache = (q, c1, cache1)" by (simp add: ensure_plan_def)
  note spec = next_plan_out [OF np assms(3,4)] next_plan_cursor [OF np]
  have same: "needs_new_plan c1" if "q \<noteq> Inr True"
    using spec(2) that True by (auto simp: needs_new_plan_def)
  show ?thesis
  proof (cases q)
    case (Inl e)
    with spec True assms(2) show ?thesis by (auto simp: unpeeked_out_def)
  next
    case (Inr b)
    show ?thesis
    proof (cases b)
      case True
      with spec(1) Inr obtain d ords where "current_decoded c1 = Some d" "current_ords c1 = Some ords"
        "plans_out E (drop (plan_idx c) (sc_plans c)) =
          items_out E (sc_plans c ! (plan_idx c1 - 1)) d ords (plans_out E (drop (plan_idx c1) (sc_plans c)))"
        by auto
      with Inr True \<open>needs_new_plan c\<close> spec assms(2) show ?thesis
        by (auto simp: unpeeked_out_def needs_new_plan_def)
    next
      case False
      with spec Inr \<open>needs_new_plan c\<close> same assms(2) show ?thesis by (auto simp: unpeeked_out_def)
    qed
  qed
next
  case False
  with assms show ?thesis by (auto simp: ensure_plan_def)
qed

lemma current_ords_Cons:
  assumes "\<not> needs_new_plan c"
  obtains ord ords where "current_ords c = Some (ord # ords)"
  using assms by (cases "current_ords c"; cases "the (current_ords c)") (auto simp: needs_new_plan_def)

lemma read_next_out:
  assumes "read_next E c = (r, c')" and "\<not> needs_new_plan c" and "peeked c = None"
  shows "sc_plans c' = sc_plans c \<and>
    (case r of
       Inl e \<Rightarrow> cursor_out E c = ([], Some e)
     | Inr None \<Rightarrow> False
     | Inr (Some it) \<Rightarrow> cursor_out E c' = cursor_out E c \<and> peeked c' = Some it)"
proof -
  obtain ord ords where o: "current_ords c = Some (ord # ords)" using current_ords_Cons [OF assms(2)] .
  show ?thesis
  proof (cases "current_decoded c")
    case None
    with assms o show ?thesis by (auto simp: read_next_def cursor_out_def unpeeked_out_def)
  next
    case (Some d)
    with assms o show ?thesis
      by (cases "read_item E (sc_plans c ! (plan_idx c - 1)) d ord")
        (auto simp: read_next_def cursor_out_def unpeeked_out_def needs_new_plan_def)
  qed
qed

lemma peek_cases:
  assumes "peek E c cache = (r, c', cache')"
    and "plan_files E (sc_plans c) files" and "chunk_cache_ok E files cache"
  shows "chunk_cache_ok E files cache' \<and> sc_plans c' = sc_plans c \<and>
    (case r of
       Inl e \<Rightarrow> cursor_out E c = ([], Some e)
     | Inr None \<Rightarrow> cursor_out E c = ([], None) \<and> cursor_out E c' = ([], None)
     | Inr (Some it) \<Rightarrow> cursor_out E c' = cursor_out E c \<and> peeked c' = Some it)"
  using assms
proof (induction E c cache rule: peek.induct)
  case (1 E c cache)
  show ?case
  proof (cases "peeked c")
    case (Some p)
    with "1.prems" show ?thesis by (auto simp: peek.simps [of E c cache])
  next
    case None
    then have co: "cursor_out E c = unpeeked_out E c" by (simp add: cursor_out_def)
    obtain q c1 cache1 where q: "ensure_plan E c cache = (q, c1, cache1)" by (metis prod_cases3)
    from ensure_plan_out [OF q None "1.prems"(2,3)]
    have c1: "chunk_cache_ok E files cache1" "sc_plans c1 = sc_plans c" "peeked c1 = None"
      and out: "case q of Inl e \<Rightarrow> unpeeked_out E c = ([], Some (ReplayDecode e))
        | Inr False \<Rightarrow> unpeeked_out E c = ([], None) \<and> unpeeked_out E c1 = ([], None)
        | Inr True \<Rightarrow> unpeeked_out E c = unpeeked_out E c1" by blast+
    have pf: "plan_files E (sc_plans c1) files" using "1.prems"(2) c1(2) by simp
    show ?thesis
    proof (cases q)
      case (Inl e)
      with "1.prems"(1) None q have "r = Inl (ReplayDecode e)" "c' = c1" "cache' = cache1"
        by (simp_all add: peek.simps [of E c cache])
      with Inl out c1 co show ?thesis by simp
    next
      case (Inr b)
      show ?thesis
      proof (cases b)
        case False
        with Inr "1.prems"(1) None q have "r = Inr None" "c' = c1" "cache' = cache1"
          by (simp_all add: peek.simps [of E c cache])
        with Inr False out c1 co show ?thesis by (simp add: cursor_out_def)
      next
        case True
        note b = Inr True
        then have b1: "q = Inr True" by simp
        have co1: "cursor_out E c = cursor_out E c1" using out b c1(3) co by (simp add: cursor_out_def)
        show ?thesis
        proof (cases "needs_new_plan c1")
          case True
          with b "1.prems"(1) None q have p1: "peek E c1 cache1 = (r, c', cache')"
            by (simp add: peek.simps [of E c cache])
          from "1.IH" [OF None q [symmetric] b1 refl refl True p1 pf c1(1)] c1(2) show ?thesis unfolding co1 by simp
        next
          case False
          obtain r1 c2 where rn: "read_next E c1 = (r1, c2)" by fastforce
          with b "1.prems"(1) None q False have "r = r1" "c' = c2" "cache' = cache1"
            by (simp_all add: peek.simps [of E c cache])
          with read_next_out [OF rn False c1(3)] c1 show ?thesis unfolding co1 by (auto split: sum.splits option.splits)
        qed
      qed
    qed
  qed
qed

section \<open>The number of items left\<close>

definition plan_items :: "'bm reader_env \<Rightarrow> 'bm chunk_plan list \<Rightarrow> nat" where
  "plan_items E plans = sum_list (map (\<lambda>p. length (rb_into_iter (re_roaring E) (cp_union p))) plans)"

definition ords_left :: "'bm stream_cursor \<Rightarrow> nat" where
  "ords_left c = (case current_ords c of None \<Rightarrow> 0 | Some ords \<Rightarrow> length ords)"

definition cursor_size :: "'bm reader_env \<Rightarrow> 'bm stream_cursor \<Rightarrow> nat" where
  "cursor_size E c = ords_left c + plan_items E (drop (plan_idx c) (sc_plans c)) + (if peeked c = None then 0 else 1)"

lemma next_plan_size:
  "next_plan E c cache = (r, c', cache') \<Longrightarrow>
   (if r = Inr True then ords_left c' else 0) + plan_items E (drop (plan_idx c') (sc_plans c))
     \<le> plan_items E (drop (plan_idx c) (sc_plans c))"
proof (induction E c cache rule: next_plan.induct)
  case (1 E c cache)
  show ?case
  proof (cases "length (sc_plans c) \<le> plan_idx c")
    case True
    with "1.prems" show ?thesis by (auto simp: next_plan.simps [of E c cache])
  next
    case False
    let ?c = "c\<lparr>plan_idx := Suc (plan_idx c)\<rparr>" and ?plan = "sc_plans c ! plan_idx c"
    have drp: "plan_items E (drop (plan_idx c) (sc_plans c)) =
      length (rb_into_iter (re_roaring E) (cp_union ?plan)) + plan_items E (drop (Suc (plan_idx c)) (sc_plans c))"
      using False by (simp add: plan_items_def Cons_nth_drop_Suc [symmetric])
    show ?thesis
    proof (cases "rb_is_empty (re_roaring E) (cp_union ?plan)")
      case True
      with "1.prems" False have "next_plan E ?c cache = (r, c', cache')"
        by (simp add: next_plan.simps [of E c cache])
      with "1.IH" [OF False refl refl True this] drp show ?thesis by simp
    next
      case nonempty: False
      with "1.prems" False drp show ?thesis
        by (auto simp: next_plan.simps [of E c cache] Let_def ords_left_def split: prod.splits sum.splits)
    qed
  qed
qed

lemma ensure_plan_size:
  assumes "ensure_plan E c cache = (r, c', cache')" and "peeked c = None"
  shows "cursor_size E c' \<le> cursor_size E c"
proof (cases "needs_new_plan c")
  case True
  with assms(1) have np: "next_plan E c cache = (r, c', cache')" by (simp add: ensure_plan_def)
  have "ords_left c = 0" using True by (auto simp: needs_new_plan_def ords_left_def split: option.splits)
  moreover have "r \<noteq> Inr True \<Longrightarrow> ords_left c' = ords_left c"
    using next_plan_cursor [OF np] by (auto simp: ords_left_def)
  ultimately show ?thesis
    using next_plan_size [OF np] next_plan_cursor [OF np] assms(2)
    by (cases "r = Inr True") (simp_all add: cursor_size_def)
next
  case False
  with assms(1) show ?thesis by (simp add: ensure_plan_def)
qed

lemma read_next_size:
  assumes "read_next E c = (r, c')" and "\<not> needs_new_plan c" and "peeked c = None"
  shows "cursor_size E c' \<le> cursor_size E c \<and> (case r of Inr (Some it) \<Rightarrow> peeked c' = Some it | _ \<Rightarrow> True)"
proof -
  obtain ord ords where o: "current_ords c = Some (ord # ords)" using current_ords_Cons [OF assms(2)] .
  show ?thesis
  proof (cases "current_decoded c")
    case None
    with assms o show ?thesis by (auto simp: read_next_def cursor_size_def ords_left_def)
  next
    case (Some d)
    with assms o show ?thesis
      by (cases "read_item E (sc_plans c ! (plan_idx c - 1)) d ord")
        (auto simp: read_next_def cursor_size_def ords_left_def)
  qed
qed

lemma peek_size:
  "peek E c cache = (r, c', cache') \<Longrightarrow>
   cursor_size E c' \<le> cursor_size E c \<and> (case r of Inr (Some it) \<Rightarrow> peeked c' = Some it | _ \<Rightarrow> True)"
proof (induction E c cache rule: peek.induct)
  case (1 E c cache)
  show ?case
  proof (cases "peeked c")
    case (Some p)
    with "1.prems" show ?thesis by (auto simp: peek.simps [of E c cache])
  next
    case None
    obtain q c1 cache1 where q: "ensure_plan E c cache = (q, c1, cache1)" by (metis prod_cases3)
    note size = ensure_plan_size [OF q None]
    show ?thesis
    proof (cases "q = Inr True \<and> needs_new_plan c1")
      case True
      then have b: "q = Inr True" and n: "needs_new_plan c1" by auto
      with "1.prems" None q have p1: "peek E c1 cache1 = (r, c', cache')" by (simp add: peek.simps [of E c cache])
      from "1.IH" [OF None q [symmetric] b refl refl n p1] size show ?thesis by (auto split: sum.splits option.splits)
    next
      case False
      have pk: "peeked c1 = None"
        using q next_plan_cursor [of E c cache q c1 cache1] None by (auto simp: ensure_plan_def split: if_splits)
      show ?thesis
      proof (cases "q = Inr True")
        case True
        obtain r1 c2 where rn: "read_next E c1 = (r1, c2)" by fastforce
        with True False "1.prems" None q have "r = r1" "c' = c2" by (auto simp: peek.simps [of E c cache])
        with read_next_size [OF rn _ pk] True False size show ?thesis by auto
      next
        case ended: False
        with "1.prems" None q size show ?thesis
          by (auto simp: peek.simps [of E c cache] split: sum.splits bool.splits)
      qed
    qed
  qed
qed

end
