(* ===== verification/Pacing.thy ===== *)
theory Pacing
  imports Config
begin

text \<open>
  Pacing of a replay (\<open>sillage-reader/src/pacing.rs\<close>): when a message is to be sent and what
  happens when sending falls behind. An instant and a duration are numbers of nanoseconds; every
  reading of the clock is an argument.
\<close>

section \<open>The pacer\<close>

record pacer =
  pc_enabled :: bool
  pc_speed :: f64
  pc_lag_warn :: nat
  pc_lag_drop :: nat
  pc_anchor :: "(u64 \<times> nat) option"
  pc_last_warn :: "nat option"

datatype lag_action = LagOk | LagWarn nat | LagDrop nat

definition from_millis :: "u64 \<Rightarrow> nat" where
  "from_millis ms = unat ms * 1000000"

definition pacer_from_config :: "pacing_config \<Rightarrow> pacer" where
  "pacer_from_config cfg =
     \<lparr>pc_enabled = pacing_enabled cfg, pc_speed = speed_multiplier cfg,
      pc_lag_warn = from_millis (lag_warn_ms cfg), pc_lag_drop = from_millis (lag_drop_ms cfg),
      pc_anchor = None, pc_last_warn = None\<rparr>"

definition saturating_sub :: "u64 \<Rightarrow> u64 \<Rightarrow> u64" where
  "saturating_sub a b = (if b \<le> a then a - b else 0)"

definition pacer_target :: "nat \<Rightarrow> u64 option \<Rightarrow> pacer \<Rightarrow> nat \<times> pacer" where
  "pacer_target now source_ns p =
     (if \<not> pc_enabled p then (now, p)
      else (case source_ns of
              None \<Rightarrow> (now, p)
            | Some ts \<Rightarrow>
                (case pc_anchor p of
                   None \<Rightarrow> (now, p\<lparr>pc_anchor := Some (ts, now)\<rparr>)
                 | Some (anchor_ts, anchor_real) \<Rightarrow>
                     (anchor_real + unat (scale_u64 (saturating_sub ts anchor_ts) (pc_speed p)), p))))"

definition lag_drop :: "pacer \<Rightarrow> nat" where
  "lag_drop p = pc_lag_drop p"

definition WARN_GAP :: nat where
  "WARN_GAP = 10000000000"

text \<open>\<open>duration_since\<close> is zero for an instant that lies in the future.\<close>

definition observe_emit :: "nat \<Rightarrow> nat \<Rightarrow> pacer \<Rightarrow> lag_action \<times> pacer" where
  "observe_emit now target p =
     (if \<not> pc_enabled p then (LagOk, p)
      else if now \<le> target then (LagOk, p)
      else
        let lag = now - target
        in if pc_lag_drop p \<le> lag then (LagDrop lag, p)
           else if pc_lag_warn p \<le> lag
             \<and> (case pc_last_warn p of None \<Rightarrow> True | Some t \<Rightarrow> WARN_GAP < now - t)
           then (LagWarn lag, p\<lparr>pc_last_warn := Some now\<rparr>)
           else (LagOk, p))"

section \<open>Runs\<close>

fun run_targets :: "(nat \<times> u64 option) list \<Rightarrow> pacer \<Rightarrow> nat list" where
  "run_targets [] p = []"
| "run_targets ((now, ts) # calls) p =
     (case pacer_target now ts p of (t, p') \<Rightarrow> t # run_targets calls p')"

fun run_observes :: "(nat \<times> nat) list \<Rightarrow> pacer \<Rightarrow> (nat \<times> lag_action) list" where
  "run_observes [] p = []"
| "run_observes ((now, target) # calls) p =
     (case observe_emit now target p of (a, p') \<Rightarrow> (now, a) # run_observes calls p')"

definition is_warn :: "lag_action \<Rightarrow> bool" where
  "is_warn a = (case a of LagWarn _ \<Rightarrow> True | _ \<Rightarrow> False)"

text \<open>The instant of a timestamp once the anchor is fixed.\<close>

definition paced_at :: "f64 \<Rightarrow> u64 \<times> nat \<Rightarrow> u64 \<Rightarrow> nat" where
  "paced_at speed anchor ts = snd anchor + unat (scale_u64 (saturating_sub ts (fst anchor)) speed)"

lemma saturating_sub_mono: "a \<le> b \<Longrightarrow> saturating_sub a c \<le> saturating_sub b c"
  by (auto simp: saturating_sub_def word_le_nat_alt unat_sub)

lemma saturating_sub_self [simp]: "saturating_sub a a = 0"
  by (simp add: saturating_sub_def)

lemma scale_zero: "0 < s \<Longrightarrow> scale_u64 0 (Finite s) = 0"
  by (simp add: scale_u64_def f64_of_u64_def round_f64_def round_pos_def)

lemma paced_at_mono:
  "0 < s \<Longrightarrow> a \<le> b \<Longrightarrow> paced_at (Finite s) anchor a \<le> paced_at (Finite s) anchor b"
  using scale_mono [OF _ saturating_sub_mono] by (simp add: paced_at_def word_le_nat_alt)

lemma run_targets_anchored:
  assumes "pc_enabled p" and "pc_anchor p = Some anchor"
  shows "run_targets calls p =
    map (\<lambda>(now, ts). case ts of None \<Rightarrow> now | Some ts \<Rightarrow> paced_at (pc_speed p) anchor ts) calls"
  using assms
  by (induction calls p rule: run_targets.induct)
    (auto simp: pacer_target_def paced_at_def split: option.splits prod.splits)

text \<open>The first timestamp and the instant it is met, if there is one.\<close>

fun first_anchor :: "(nat \<times> u64 option) list \<Rightarrow> (u64 \<times> nat) option" where
  "first_anchor [] = None"
| "first_anchor ((now, Some ts) # calls) = Some (ts, now)"
| "first_anchor ((now, None) # calls) = first_anchor calls"

lemma run_targets_fresh:
  assumes "pc_enabled p" and "pc_anchor p = None" and "pc_speed p = Finite s" and "0 < s"
  shows "run_targets calls p =
    map (\<lambda>(now, ts). case ts of None \<Rightarrow> now
        | Some ts \<Rightarrow> paced_at (pc_speed p) (the (first_anchor calls)) ts) calls"
  using assms
proof (induction calls rule: first_anchor.induct)
  case (2 now ts calls)
  have "pc_anchor (p\<lparr>pc_anchor := Some (ts, now)\<rparr>) = Some (ts, now)" "pc_enabled (p\<lparr>pc_anchor := Some (ts, now)\<rparr>)"
    using 2 by simp_all
  from run_targets_anchored [OF this(2,1)] 2 show ?case
    by (simp add: pacer_target_def paced_at_def scale_zero)
next
  case (3 now calls)
  then show ?case by (simp add: pacer_target_def)
qed simp

lemma observe_emit_speed [simp]:
  "pc_enabled (snd (observe_emit now target p)) = pc_enabled p"
  "pc_lag_warn (snd (observe_emit now target p)) = pc_lag_warn p"
  "pc_lag_drop (snd (observe_emit now target p)) = pc_lag_drop p"
  by (simp_all add: observe_emit_def Let_def)

text \<open>What is done about a lag, given whether a warning was issued lately.\<close>

definition lag_policy :: "pacer \<Rightarrow> nat \<Rightarrow> nat \<Rightarrow> bool \<Rightarrow> lag_action" where
  "lag_policy p now target recent =
     (if \<not> pc_enabled p \<or> now \<le> target then LagOk
      else if pc_lag_drop p \<le> now - target then LagDrop (now - target)
      else if now - target < pc_lag_warn p \<or> recent then LagOk
      else LagWarn (now - target))"

definition warned :: "pacer \<Rightarrow> nat \<Rightarrow> bool" where
  "warned p now \<longleftrightarrow> (case pc_last_warn p of None \<Rightarrow> False | Some t \<Rightarrow> now \<le> t + WARN_GAP)"

lemma observe_emit_policy:
  "fst (observe_emit now target p) = lag_policy p now target (warned p now)"
  "pc_last_warn (snd (observe_emit now target p)) =
     (if is_warn (lag_policy p now target (warned p now)) then Some now else pc_last_warn p)"
  by (auto simp: observe_emit_def lag_policy_def warned_def Let_def is_warn_def split: option.splits)

lemma run_observes_policy:
  assumes "sorted (map fst calls)" and "k < length calls"
    and "\<forall>t. pc_last_warn p = Some t \<longrightarrow> (\<forall>c \<in> set calls. t \<le> fst c)"
  shows "run_observes calls p ! k = (fst (calls ! k), lag_policy p (fst (calls ! k)) (snd (calls ! k))
    (warned p (fst (calls ! k)) \<or>
      (\<exists>i < k. is_warn (snd (run_observes calls p ! i)) \<and> fst (calls ! k) \<le> fst (calls ! i) + WARN_GAP)))"
  using assms
proof (induction calls p arbitrary: k rule: run_observes.induct)
  case (2 n target calls p)
  obtain b p' where ob: "observe_emit n target p = (b, p')" by fastforce
  have b: "b = lag_policy p n target (warned p n)"
    and lw: "pc_last_warn p' = (if is_warn b then Some n else pc_last_warn p)"
    and same: "pc_enabled p' = pc_enabled p" "pc_lag_warn p' = pc_lag_warn p" "pc_lag_drop p' = pc_lag_drop p"
    using observe_emit_policy [of n target p] observe_emit_speed [of n target p] ob by auto
  have pol: "lag_policy p' = lag_policy p" by (intro ext) (simp add: lag_policy_def same)
  show ?case
  proof (cases k)
    case 0
    then show ?thesis by (simp add: ob b)
  next
    case (Suc m)
    let ?now = "fst (calls ! m)"
    have m: "m < length calls" using "2.prems"(2) Suc by simp
    then have le: "n \<le> ?now" using "2.prems"(1) by simp
    have pre: "\<forall>t. pc_last_warn p' = Some t \<longrightarrow> (\<forall>c \<in> set calls. t \<le> fst c)"
      using "2.prems"(1,3) by (auto simp: lw split: if_splits)
    have ih: "run_observes calls p' ! m = (?now, lag_policy p ?now (snd (calls ! m)) (warned p' ?now \<or>
      (\<exists>i < m. is_warn (snd (run_observes calls p' ! i)) \<and> ?now \<le> fst (calls ! i) + WARN_GAP)))"
      using "2.IH" [OF ob [symmetric] _ m pre] "2.prems"(1) by (simp add: pol)
    have "t \<le> n" if "pc_last_warn p = Some t" for t using that "2.prems"(3) by simp
    then have "warned p' ?now \<longleftrightarrow> warned p ?now \<or> (is_warn b \<and> ?now \<le> n + WARN_GAP)"
      by (auto simp: warned_def lw split: option.splits)
    with ih show ?thesis by (simp add: Suc ob Ex_less_Suc2 disj_assoc)
  qed
qed simp

section \<open>Properties\<close>

lemma accepted_speed:
  assumes "validate is_addr st = Inr ()"
  shows "\<exists>s. speed_multiplier (r_pacing (s_reader st)) = Finite s \<and> 0 < s"
  using assms
  by (cases "speed_multiplier (r_pacing (s_reader st))") (auto simp: validate_def Let_def split: if_splits)


definition example_settings :: settings where
  "example_settings =
     \<lparr>s_server = default_server,
      s_r2 = \<lparr>r2_bucket = ''b'', r2_region = ''auto'', r2_endpoint_url = ''e'', access_key_id = ''k'',
              secret_access_key = ''s''\<rparr>,
      s_storage = default_storage, s_log = default_log, s_geyser = None, s_writer = default_writer,
      s_uploader = default_uploader, s_reader = default_reader\<rparr>"


text \<open>Behind schedule the pacer does one of three things, fixed by the lag: at the drop threshold or
  beyond it drops the client, below the warning threshold it is content, and between them it warns
  unless it warned within the last ten seconds. So two warnings are always more than ten seconds
  apart, and no warning is left out otherwise.\<close>

theorem lag_policy_exact:
  assumes "sorted (map fst calls)"
    and "k < length calls" and "calls ! k = (now, target)"
    and "recent \<longleftrightarrow> (\<exists>i < k. is_warn (snd (run_observes calls (pacer_from_config cfg) ! i)) \<and>
      now \<le> fst (calls ! i) + 10000000000)"
  shows "run_observes calls (pacer_from_config cfg) ! k =
    (now, if \<not> pacing_enabled cfg \<or> now \<le> target then LagOk
          else if unat (lag_drop_ms cfg) * 1000000 \<le> now - target then LagDrop (now - target)
          else if now - target < unat (lag_warn_ms cfg) * 1000000 \<or> recent then LagOk
          else LagWarn (now - target))"
  using run_observes_policy [OF assms(1,2), of "pacer_from_config cfg"] assms(3,4)
  by (simp add: pacer_from_config_def warned_def lag_policy_def from_millis_def WARN_GAP_def)

lemma lag_policy_exact_witness:
  "run_observes [(0, 0), (6000000000, 0), (7000000000, 500)] (pacer_from_config default_pacing) ! 2 =
     (7000000000, LagOk)"
proof -
  let ?calls = "[(0, 0), (6000000000, 0), (7000000000, 500)] :: (nat \<times> nat) list"
  have "\<exists>i < 2. is_warn (snd (run_observes ?calls (pacer_from_config default_pacing) ! i)) \<and>
      7000000000 \<le> fst (?calls ! i) + 10000000000"
    by (intro exI [of _ 1])
      (simp add: observe_emit_def pacer_from_config_def default_pacing_def from_millis_def is_warn_def Let_def)
  with lag_policy_exact [where calls = ?calls and k = 2 and now = 7000000000 and target = 500 and recent = True
      and cfg = default_pacing]
  show ?thesis by (simp add: default_pacing_def)
qed

end
