(* ===== verification/Replay.thy ===== *)
theory Replay
  imports Cursor Pacing
begin

text \<open>
  Driving a replay (\<open>drive_replay\<close> in \<open>sillage-reader/src/replay.rs\<close>): the cursors of the three
  streams are merged by slot, messages below the requested start are dropped, and the rest are
  paced and sent to the client over a bounded channel.

  What the loop meets from outside is one \<open>drive_event\<close> for every message that reaches the pacer:
  the readings of the clock, whether the replay is cancelled while it waits, what becomes of the
  send, and of a status sent after it. The send of a status has no time limit, so it may wait for
  ever. \<open>drive_merge\<close> shows that the loop is \<open>emit_all\<close> over the merged streams.
\<close>

section \<open>The outside\<close>

datatype send_result = SendOk | SendTimeout | SendClosed

datatype status_result = StatusSent | StatusClosed | StatusWaits

record drive_event =
  dv_target_now :: nat
  dv_cancelled :: bool
  dv_send :: send_result
  dv_status :: status_result
  dv_emit_now :: nat

record drive_env =
  de_event :: "nat \<Rightarrow> drive_event"
  de_encoded_len :: "subscribe_update \<Rightarrow> u64"
  de_describe :: "decode_error \<Rightarrow> string"

datatype outbound = OutMsg subscribe_update | OutStatus status

section \<open>Sending one message\<close>

record replay_stats =
  rs_sent :: u64
  rs_bytes :: u64
  rs_lag_max_ms :: f64
  rs_last_slot :: "u64 option"
  rs_drained :: bool

record driver =
  dr_pacer :: pacer
  dr_emitted :: u64
  dr_bytes :: u64
  dr_last_slot :: "u64 option"
  dr_lag_max :: nat
  dr_lag_sum :: nat
  dr_out :: "outbound list"
  dr_step :: nat

text \<open>\<open>Waiting\<close>: the task waits for a channel that is never read again.\<close>

datatype drive_result = Finished replay_stats | Failed decode_error | Waiting | Panicked

definition set_filters :: "subscribe_update \<Rightarrow> string list \<Rightarrow> subscribe_update" where
  "set_filters update names = update\<lparr>filters := names\<rparr>"

definition make_stats :: "driver \<Rightarrow> bool \<Rightarrow> replay_stats" where
  "make_stats dr drained =
     \<lparr>rs_sent = dr_emitted dr, rs_bytes = dr_bytes dr,
      rs_lag_max_ms = f64_mul (as_secs_f64 (dr_lag_max dr)) (Finite 1000),
      rs_last_slot = dr_last_slot dr, rs_drained = drained\<rparr>"

definition driver_new :: "pacer \<Rightarrow> driver" where
  "driver_new p =
     \<lparr>dr_pacer = p, dr_emitted = 0, dr_bytes = 0, dr_last_slot = None, dr_lag_max = 0, dr_lag_sum = 0,
      dr_out = [], dr_step = 0\<rparr>"

definition send_status :: "drive_event \<Rightarrow> status \<Rightarrow> drive_result \<Rightarrow> driver \<Rightarrow> drive_result \<times> driver" where
  "send_status ev s result dr =
     (case dv_status ev of
        StatusSent \<Rightarrow> (result, dr\<lparr>dr_out := dr_out dr @ [OutStatus s]\<rparr>)
      | StatusClosed \<Rightarrow> (result, dr)
      | StatusWaits \<Rightarrow> (Waiting, dr))"

text \<open>
  The body of the loop from the comparison with the requested start to its end; \<open>None\<close> is the
  next iteration.
\<close>

definition emit :: "drive_env \<Rightarrow> u64 \<Rightarrow> replay_item \<Rightarrow> driver \<Rightarrow> drive_result option \<times> driver" where
  "emit env from_slot it dr =
     (case it of (winner_slot, update, names, recv_ns) \<Rightarrow>
        if winner_slot < from_slot then (None, dr)
        else
          let filtered = set_filters update names;
              ev = de_event env (dr_step dr)
          in (case pacer_target (dv_target_now ev) recv_ns (dr_pacer dr) of (target, p) \<Rightarrow>
                let dr = dr\<lparr>dr_pacer := p, dr_step := Suc (dr_step dr)\<rparr>
                in if dv_cancelled ev then (Some (Finished (make_stats dr False)), dr)
                   else
                     (case dv_send ev of
                        SendTimeout \<Rightarrow>
                          apfst Some (send_status ev (Status ResourceExhausted ''replay send timed out'')
                            (Finished (make_stats dr False)) dr)
                      | SendClosed \<Rightarrow> (Some (Finished (make_stats dr False)), dr)
                      | SendOk \<Rightarrow>
                          let dr = dr\<lparr>dr_out := dr_out dr @ [OutMsg filtered],
                                      dr_bytes := dr_bytes dr + de_encoded_len env filtered,
                                      dr_last_slot := Some winner_slot\<rparr>
                          in (case observe_emit (dv_emit_now ev) target (dr_pacer dr) of
                                (LagDrop lag, p) \<Rightarrow>
                                  apfst Some (send_status ev
                                    (Status ResourceExhausted ''replay fell too far behind wall-clock'')
                                    (Finished (make_stats dr False)) (dr\<lparr>dr_pacer := p\<rparr>))
                              | (LagWarn lag, p) \<Rightarrow>
                                  (None, dr\<lparr>dr_pacer := p, dr_lag_max := max (dr_lag_max dr) lag,
                                            dr_lag_sum := dr_lag_sum dr + lag, dr_emitted := dr_emitted dr + 1\<rparr>)
                              | (LagOk, p) \<Rightarrow> (None, dr\<lparr>dr_pacer := p, dr_emitted := dr_emitted dr + 1\<rparr>)))))"

text \<open>The end of the loop when a cursor fails.\<close>

definition fail_replay :: "drive_env \<Rightarrow> replay_error \<Rightarrow> driver \<Rightarrow> drive_result \<times> driver" where
  "fail_replay env e dr =
     (case e of
        CursorPanic \<Rightarrow> (Panicked, dr)
      | ReplayDecode d \<Rightarrow>
          send_status (de_event env (dr_step dr)) (Status Internal (de_describe env d)) (Failed d) dr)"

section \<open>The loop\<close>

fun peek_all :: "'bm reader_env \<Rightarrow> nat \<Rightarrow> (nat \<times> u64) option \<Rightarrow> 'bm stream_cursor option list \<Rightarrow> chunk_cache
    \<Rightarrow> (replay_error + (nat \<times> u64) option) \<times> 'bm stream_cursor option list \<times> chunk_cache" where
  "peek_all E i best [] cache = (Inr best, [], cache)"
| "peek_all E i best (None # cs) cache =
     (case peek_all E (Suc i) best cs cache of (r, cs', cache') \<Rightarrow> (r, None # cs', cache'))"
| "peek_all E i best (Some c # cs) cache =
     (case peek E c cache of
        (Inl e, c', cache') \<Rightarrow> (Inl e, Some c' # cs, cache')
      | (Inr p, c', cache') \<Rightarrow>
          (case peek_all E (Suc i) (case p of None \<Rightarrow> best | Some it \<Rightarrow> better best i (item_slot it)) cs cache' of
             (r, cs', cache'') \<Rightarrow> (r, Some c' # cs', cache'')))"

definition option_size :: "'bm reader_env \<Rightarrow> 'bm stream_cursor option \<Rightarrow> nat" where
  "option_size E co = (case co of None \<Rightarrow> 0 | Some c \<Rightarrow> cursor_size E c)"

lemma peek_all_size:
  "peek_all E i best cs cache = (r, cs', cache') \<Longrightarrow>
   sum_list (map (option_size E) cs') \<le> sum_list (map (option_size E) cs)"
proof (induction E i best cs cache arbitrary: r cs' cache' rule: peek_all.induct)
  case (3 E i best c cs cache)
  obtain q c1 cache1 where pk: "peek E c cache = (q, c1, cache1)" by (metis prod_cases3)
  note size = peek_size [OF pk, THEN conjunct1]
  show ?case
  proof (cases q)
    case (Inl e)
    with "3.prems" pk size show ?thesis by (auto simp: option_size_def)
  next
    case (Inr p)
    obtain r2 cs2 cache2 where rest: "peek_all E (Suc i)
        (case p of None \<Rightarrow> best | Some it \<Rightarrow> better best i (item_slot it)) cs cache1 = (r2, cs2, cache2)"
      by (metis prod_cases3)
    with "3.prems" pk Inr have "cs' = Some c1 # cs2" by simp
    with "3.IH" [OF pk [symmetric] Inr refl rest] size show ?thesis by (simp add: option_size_def)
  qed
qed (auto simp: option_size_def split: prod.splits)

lemma take_peeked_size:
  assumes "i < length cs" and "cs ! i = Some c" and "peeked c = Some it"
  shows "sum_list (map (option_size E) (cs[i := Some (snd (take_peeked c))])) < sum_list (map (option_size E) cs)"
proof -
  have "option_size E (Some (snd (take_peeked c))) < option_size E (cs ! i)"
    using assms(2,3) by (simp add: option_size_def cursor_size_def take_peeked_def ords_left_def)
  with sum_list_update_nat [OF assms(1), of "option_size E" "Some (snd (take_peeked c))"] show ?thesis by linarith
qed

text \<open>\<open>Panicked\<close> stands for the two \<open>expect\<close> calls on the winner.\<close>

function drive :: "'bm reader_env \<Rightarrow> drive_env \<Rightarrow> u64 \<Rightarrow> 'bm stream_cursor option list \<Rightarrow> chunk_cache \<Rightarrow> driver
    \<Rightarrow> drive_result \<times> driver \<times> chunk_cache" where
  "drive E env from_slot cursors cache dr =
     (case peek_all E 0 None cursors cache of
        (Inl e, cursors', cache') \<Rightarrow> (case fail_replay env e dr of (r, dr') \<Rightarrow> (r, dr', cache'))
      | (Inr None, cursors', cache') \<Rightarrow> (Finished (make_stats dr True), dr, cache')
      | (Inr (Some (winner_idx, winner_slot)), cursors', cache') \<Rightarrow>
          if length cursors' \<le> winner_idx then (Panicked, dr, cache')
          else (case cursors' ! winner_idx of
                  None \<Rightarrow> (Panicked, dr, cache')
                | Some c \<Rightarrow>
                    (case peeked c of
                       None \<Rightarrow> (Panicked, dr, cache')
                     | Some it \<Rightarrow>
                         (case emit env from_slot it dr of
                            (Some r, dr') \<Rightarrow> (r, dr', cache')
                          | (None, dr') \<Rightarrow>
                              drive E env from_slot (cursors'[winner_idx := Some (snd (take_peeked c))]) cache' dr'))))"
  by pat_completeness auto
termination
  by (relation "measure (\<lambda>(E, env, from_slot, cursors, cache, dr). sum_list (map (option_size E) cursors))")
    (auto simp: not_le dest!: peek_all_size [OF sym] intro: less_le_trans [OF take_peeked_size])

declare drive.simps [simp del]

definition drive_replay :: "'bm reader_env \<Rightarrow> drive_env \<Rightarrow> 'bm replay_plan \<Rightarrow> chunk_cache \<Rightarrow> pacer
    \<Rightarrow> drive_result \<times> driver \<times> chunk_cache" where
  "drive_replay E env plan cache p =
     drive E env (rp_from_slot plan)
       (map (\<lambda>ps. if ps = [] then None else Some (cursor_new ps)) (plans_per_stream plan)) cache (driver_new p)"

section \<open>The loop emits the merged streams\<close>

fun emit_all :: "drive_env \<Rightarrow> u64 \<Rightarrow> replay_item list \<Rightarrow> replay_error option \<Rightarrow> driver \<Rightarrow> drive_result \<times> driver" where
  "emit_all env from_slot [] e dr =
     (case e of None \<Rightarrow> (Finished (make_stats dr True), dr) | Some x \<Rightarrow> fail_replay env x dr)"
| "emit_all env from_slot (it # its) e dr =
     (case emit env from_slot it dr of
        (Some r, dr') \<Rightarrow> (r, dr')
      | (None, dr') \<Rightarrow> emit_all env from_slot its e dr')"

definition option_out :: "'bm reader_env \<Rightarrow> 'bm stream_cursor option \<Rightarrow> (replay_item, replay_error) out" where
  "option_out E co = (case co of None \<Rightarrow> ([], None) | Some c \<Rightarrow> cursor_out E c)"

lemma option_out_simps [simp]: "option_out E None = ([], None)" "option_out E (Some c) = cursor_out E c"
  by (simp_all add: option_out_def)

definition cursors_ok :: "'bm reader_env \<Rightarrow> (cache_key \<Rightarrow> bytes option) \<Rightarrow> 'bm stream_cursor option list \<Rightarrow> bool" where
  "cursors_ok E files cs \<longleftrightarrow> (\<forall>c. Some c \<in> set cs \<longrightarrow> plan_files E (sc_plans c) files)"

text \<open>After a round of peeks every cursor that has an item holds it.\<close>

definition all_peeked :: "'bm reader_env \<Rightarrow> 'bm stream_cursor option list \<Rightarrow> bool" where
  "all_peeked E cs \<longleftrightarrow>
     (\<forall>c. Some c \<in> set cs \<longrightarrow> fst (cursor_out E c) \<noteq> [] \<longrightarrow> peeked c = Some (hd (fst (cursor_out E c))))"

lemma cursor_out_peeked: "peeked c = Some it \<Longrightarrow> cursor_out E c = prepend it (unpeeked_out E c)"
  by (simp add: cursor_out_def)

lemma unpeeked_out_peeked [simp]: "unpeeked_out E (c\<lparr>peeked := x\<rparr>) = unpeeked_out E c"
  by (simp add: unpeeked_out_def needs_new_plan_def cong: option.case_cong)

lemma cursor_out_taken: "peeked c = Some it \<Longrightarrow> cursor_out E (snd (take_peeked c)) = drop_first (cursor_out E c)"
  by (simp add: cursor_out_def take_peeked_def drop_first_def prepend_def)

lemma peek_all_pick:
  assumes "peek_all E i best cs cache = (r, cs', cache')"
    and "cursors_ok E files cs" and "chunk_cache_ok E files cache"
  shows "chunk_cache_ok E files cache' \<and> cursors_ok E files cs' \<and>
    pick item_slot i best (map (option_out E) cs) = r \<and>
    (\<forall>b. r = Inr b \<longrightarrow> map (option_out E) cs' = map (option_out E) cs \<and> all_peeked E cs')"
  using assms
proof (induction E i best cs cache arbitrary: r cs' cache' rule: peek_all.induct)
  case (1 E i best cache)
  then show ?case by (auto simp: all_peeked_def cursors_ok_def)
next
  case (2 E i best cs cache)
  obtain r2 cs2 cache2 where rest: "peek_all E (Suc i) best cs cache = (r2, cs2, cache2)" by (metis prod_cases3)
  with "2.prems"(1) have eqs: "r = r2" "cs' = None # cs2" "cache' = cache2" by auto
  have "cursors_ok E files cs" using "2.prems"(2) by (simp add: cursors_ok_def)
  from "2.IH" [OF rest this "2.prems"(3)] show ?case
    unfolding eqs by (auto simp: cursors_ok_def all_peeked_def)
next
  case (3 E i best c cs cache)
  obtain q c1 cache1 where pk: "peek E c cache = (q, c1, cache1)" by (metis prod_cases3)
  have oks: "plan_files E (sc_plans c) files" "cursors_ok E files cs"
    using "3.prems"(2) by (simp_all add: cursors_ok_def)
  note peek_out = peek_cases [OF pk oks(1) "3.prems"(3)]
  show ?case
  proof (cases q)
    case (Inl e)
    with "3.prems"(1) pk have "r = Inl e" "cs' = Some c1 # cs" "cache' = cache1" by auto
    with Inl peek_out oks show ?thesis by (auto simp: cursors_ok_def)
  next
    case (Inr p)
    let ?best = "case p of None \<Rightarrow> best | Some it \<Rightarrow> better best i (item_slot it)"
    obtain r2 cs2 cache2 where rest: "peek_all E (Suc i) ?best cs cache1 = (r2, cs2, cache2)"
      by (metis prod_cases3)
    with "3.prems"(1) pk Inr have eqs: "r = r2" "cs' = Some c1 # cs2" "cache' = cache2" by auto
    have ok1: "chunk_cache_ok E files cache1" "sc_plans c1 = sc_plans c" using peek_out by auto
    note ih = "3.IH" [OF pk [symmetric] Inr refl rest oks(2) ok1(1)]
    have c1: "cursor_out E c1 = cursor_out E c \<and>
        (fst (cursor_out E c) \<noteq> [] \<longrightarrow> peeked c1 = Some (hd (fst (cursor_out E c)))) \<and>
        pick item_slot i best (cursor_out E c # map (option_out E) cs) =
        pick item_slot (Suc i) ?best (map (option_out E) cs)"
    proof (cases p)
      case None
      with Inr peek_out show ?thesis by simp
    next
      case (Some it)
      with Inr peek_out have "cursor_out E c1 = cursor_out E c" "peeked c1 = Some it" by auto
      with cursor_out_peeked [of c1 it E] Some show ?thesis by (simp add: prepend_def)
    qed
    with ih oks ok1 show ?thesis
      unfolding eqs by (auto simp: cursors_ok_def all_peeked_def)
  qed
qed

text \<open>The cursor that wins a round, and what is left when its item is taken.\<close>

lemma peek_all_winner:
  assumes pa: "peek_all E 0 None cs cache = (Inr (Some (i, s)), cs1, cache1)"
    and "cursors_ok E files cs" and "chunk_cache_ok E files cache" and os: "os = map (option_out E) cs"
  obtains c where "\<not> length cs1 \<le> i" "cs1 ! i = Some c" "peeked c = Some (hd (fst (os ! i)))"
    "map (option_out E) (cs1[i := Some (snd (take_peeked c))]) = os[i := drop_first (os ! i)]"
    "cursors_ok E files (cs1[i := Some (snd (take_peeked c))])" "chunk_cache_ok E files cache1"
    "pick item_slot 0 None os = Inr (Some (i, s))"
proof -
  note pick = peek_all_pick [OF assms(1-3), folded os]
  then have outs: "map (option_out E) cs1 = os" "all_peeked E cs1" by auto
  have best: "i < length cs1" "fst (os ! i) \<noteq> []"
    using pick_best [of item_slot os "Some (i, s)"] pick outs(1) by (auto simp: is_best_def)
  have oi: "option_out E (cs1 ! i) = os ! i" using outs(1) best(1) by (metis nth_map)
  with best(2) obtain c where c: "cs1 ! i = Some c" by (metis option_out_simps(1) fst_conv not_None_eq)
  then have co: "cursor_out E c = os ! i" using oi by simp
  have mem: "Some c \<in> set cs1" using c best(1) nth_mem by metis
  with outs(2) best(2) co have it: "peeked c = Some (hd (fst (os ! i)))" by (auto simp: all_peeked_def)
  show thesis
  proof (rule that [of c])
    show "map (option_out E) (cs1[i := Some (snd (take_peeked c))]) = os[i := drop_first (os ! i)]"
      using cursor_out_taken [OF it] co outs(1) by (simp add: map_update)
    show "cursors_ok E files (cs1[i := Some (snd (take_peeked c))])"
      using pick mem set_update_subset_insert [of cs1 i "Some (snd (take_peeked c))"]
      by (auto simp: cursors_ok_def take_peeked_def)
  qed (use best c it pick in auto)
qed

lemma drive_merge:
  assumes "drive E env from_slot cs cache dr = (r, dr', cache')"
    and "cursors_ok E files cs" and "chunk_cache_ok E files cache"
    and "merge item_slot (map (option_out E) cs) = (its, e)"
  shows "emit_all env from_slot its e dr = (r, dr') \<and> chunk_cache_ok E files cache'"
  using assms
proof (induction E env from_slot cs cache dr arbitrary: its rule: drive.induct)
  case (1 E env from_slot cs cache dr)
  obtain q cs1 cache1 where pa: "peek_all E 0 None cs cache = (q, cs1, cache1)" by (metis prod_cases3)
  note pick = peek_all_pick [OF pa "1.prems"(2,3)]
  note unfolds = drive.simps [of E env from_slot cs cache dr] merge.simps [of item_slot "map (option_out E) cs"]
  consider x where "q = Inl x" | "q = Inr None" | i s where "q = Inr (Some (i, s))"
    by (metis not_None_eq old.sum.exhaust surj_pair)
  then show ?case
  proof cases
    case (1 x)
    with "1.prems"(1,4) pa pick show ?thesis by (auto simp: unfolds split: prod.splits)
  next
    case 2
    with "1.prems"(1,4) pa pick show ?thesis by (auto simp: unfolds)
  next
    case (3 i s)
    let ?os = "map (option_out E) cs"
    obtain c where c: "\<not> length cs1 \<le> i" "cs1 ! i = Some c" "peeked c = Some (hd (fst (?os ! i)))"
      "map (option_out E) (cs1[i := Some (snd (take_peeked c))]) = ?os[i := drop_first (?os ! i)]"
      "cursors_ok E files (cs1[i := Some (snd (take_peeked c))])" "chunk_cache_ok E files cache1"
      "pick item_slot 0 None ?os = Inr (Some (i, s))"
      using peek_all_winner [OF pa [unfolded 3] "1.prems"(2,3) refl] .
    let ?it = "hd (fst (?os ! i))" and ?cs2 = "cs1[i := Some (snd (take_peeked c))]"
    obtain its2 e2 where m2: "merge item_slot (?os[i := drop_first (?os ! i)]) = (its2, e2)" by fastforce
    have its: "its = ?it # its2" "e = e2"
      using "1.prems"(4) c(7) m2 by (simp_all add: unfolds prepend_def)
    have m3: "merge item_slot (map (option_out E) ?cs2) = (its2, e)" using m2 c(4) its(2) by simp
    have unfold_drive: "drive E env from_slot cs cache dr =
        (case emit env from_slot ?it dr of
           (Some r, dr') \<Rightarrow> (r, dr', cache1) | (None, dr') \<Rightarrow> drive E env from_slot ?cs2 cache1 dr')"
      using pa 3 c(1-3) by (simp add: unfolds)
    obtain ro dr1 where em: "emit env from_slot ?it dr = (ro, dr1)" by fastforce
    show ?thesis
    proof (cases ro)
      case None
      with unfold_drive em "1.prems"(1) have d2: "drive E env from_slot ?cs2 cache1 dr1 = (r, dr', cache')" by simp
      from "1.IH" [OF pa [symmetric] 3 refl refl refl c(1-3) em [symmetric] None d2 c(5,6) m3] its em None
      show ?thesis by simp
    next
      case (Some res)
      with unfold_drive em "1.prems"(1) its c(6) show ?thesis by simp
    qed
  qed
qed

section \<open>What is sent\<close>

definition deliver :: "replay_item \<Rightarrow> subscribe_update" where
  "deliver it = set_filters (fst (snd it)) (fst (snd (snd it)))"

definition due :: "u64 \<Rightarrow> replay_item list \<Rightarrow> replay_item list" where
  "due from_slot its = filter (\<lambda>it. from_slot \<le> item_slot it) its"

lemma due_simps [simp]:
  "due f [] = []" "due f (it # its) = (if item_slot it < f then due f its else it # due f its)"
  by (auto simp: due_def not_less)

definition messages :: "outbound list \<Rightarrow> subscribe_update list" where
  "messages out = List.map_filter (\<lambda>x. case x of OutMsg m \<Rightarrow> Some m | OutStatus _ \<Rightarrow> None) out"

lemma messages_simps [simp]:
  "messages [] = []" "messages (OutMsg m # out) = m # messages out" "messages (OutStatus s # out) = messages out"
  "messages (xs @ ys) = messages xs @ messages ys"
  by (simp_all add: messages_def List.map_filter_simps map_filter_def)

text \<open>\<open>sends dr ys dr'\<close>: from \<open>dr\<close> to \<open>dr'\<close> the items \<open>ys\<close> were sent to the client.\<close>

definition sends :: "driver \<Rightarrow> replay_item list \<Rightarrow> driver \<Rightarrow> bool" where
  "sends dr ys dr' \<longleftrightarrow>
     messages (dr_out dr') = messages (dr_out dr) @ map deliver ys \<and>
     dr_last_slot dr' = (if ys = [] then dr_last_slot dr else Some (item_slot (last ys)))"

lemma sends_refl [simp]: "sends dr [] dr"
  by (simp add: sends_def)

lemma sends_trans: "sends dr xs dr' \<Longrightarrow> sends dr' ys dr'' \<Longrightarrow> sends dr (xs @ ys) dr''"
  by (auto simp: sends_def)

lemma send_status_sends:
  "send_status ev s r dr = (r', dr') \<Longrightarrow> sends dr [] dr' \<and> (r' = r \<or> r' = Waiting) \<and> dr_emitted dr' = dr_emitted dr"
  by (auto simp: send_status_def sends_def split: status_result.splits)

lemma emit_cases:
  assumes "emit env f it dr = (ro, dr')"
  shows "if item_slot it < f then ro = None \<and> dr' = dr
    else (sends dr [] dr' \<and> ro \<noteq> None \<or> sends dr [it] dr' \<and> (ro = None \<longrightarrow> dr_emitted dr' = dr_emitted dr + 1)) \<and>
      (case ro of None \<Rightarrow> True | Some (Finished st) \<Rightarrow> \<not> rs_drained st \<and> rs_last_slot st = dr_last_slot dr'
         | Some Waiting \<Rightarrow> True | _ \<Rightarrow> False)"
proof -
  obtain slot update names recv_ns where it: "it = (slot, update, names, recv_ns)" by (metis prod_cases4)
  show ?thesis
  proof (cases "slot < f")
    case True
    with assms it show ?thesis by (simp add: emit_def item_slot_def)
  next
    case False
    let ?ev = "de_event env (dr_step dr)"
    obtain target p where tp: "pacer_target (dv_target_now ?ev) recv_ns (dr_pacer dr) = (target, p)" by fastforce
    show ?thesis
    proof (cases "dv_cancelled ?ev \<or> dv_send ?ev \<noteq> SendOk")
      case True
      with assms it False tp show ?thesis
        by (cases "dv_send ?ev")
          (auto simp: emit_def item_slot_def Let_def sends_def make_stats_def send_status_def
            split: status_result.splits if_splits)
    next
      case sent: False
      obtain a p2 where oe: "observe_emit (dv_emit_now ?ev) target p = (a, p2)" by fastforce
      with assms it False tp sent show ?thesis
        by (cases a)
          (auto simp: emit_def item_slot_def Let_def sends_def make_stats_def send_status_def deliver_def
            split: status_result.splits if_splits)
    qed
  qed
qed

lemma fail_replay_cases:
  "fail_replay env x dr = (r, dr') \<Longrightarrow> sends dr [] dr' \<and>
     (r = Waiting \<or> (case x of CursorPanic \<Rightarrow> r = Panicked | ReplayDecode d \<Rightarrow> r = Failed d))"
  by (auto simp: fail_replay_def send_status_def sends_def split: replay_error.splits status_result.splits)

text \<open>The result of a run from \<open>dr\<close> to \<open>dr'\<close> that was to send the items \<open>xs\<close> and sent \<open>ys\<close>.\<close>

definition run_result :: "replay_error option \<Rightarrow> driver \<Rightarrow> replay_item list \<Rightarrow> replay_item list \<Rightarrow> drive_result \<Rightarrow> driver \<Rightarrow> bool" where
  "run_result e dr xs ys r dr' \<longleftrightarrow>
     (case r of
        Finished st \<Rightarrow> rs_last_slot st = dr_last_slot dr' \<and>
          (rs_drained st \<longrightarrow> e = None \<and> ys = xs \<and> rs_sent st = dr_emitted dr + of_nat (length ys))
      | Failed d \<Rightarrow> e = Some (ReplayDecode d) \<and> ys = xs
      | Waiting \<Rightarrow> True
      | Panicked \<Rightarrow> e = Some CursorPanic \<and> ys = xs)"

lemma emit_all_sends:
  "emit_all env f its e dr = (r, dr') \<Longrightarrow>
   \<exists>ys. prefix ys (due f its) \<and> sends dr ys dr' \<and> run_result e dr (due f its) ys r dr'"
proof (induction its arbitrary: dr)
  case Nil
  then show ?case
    by (cases e) (auto simp: run_result_def make_stats_def dest!: fail_replay_cases
        split: replay_error.splits drive_result.splits)
next
  case (Cons it its)
  obtain ro dr1 where em: "emit env f it dr = (ro, dr1)" by fastforce
  note cases = emit_cases [OF em]
  show ?case
  proof (cases ro)
    case None
    with Cons.prems em have "emit_all env f its e dr1 = (r, dr')" by simp
    from Cons.IH [OF this] obtain ys where
      ys: "prefix ys (due f its)" "sends dr1 ys dr'" "run_result e dr1 (due f its) ys r dr'" by blast
    show ?thesis
    proof (cases "item_slot it < f")
      case True
      with cases ys show ?thesis by auto
    next
      case False
      with cases None have "sends dr [it] dr1" "dr_emitted dr1 = dr_emitted dr + 1" by auto
      with ys False show ?thesis
        by (intro exI [of _ "it # ys"])
          (auto simp: run_result_def dest: sends_trans split: drive_result.splits)
    qed
  next
    case (Some r1)
    with Cons.prems em have r: "r = r1" "dr' = dr1" by auto
    with cases Some have nf: "\<not> item_slot it < f" by auto
    with cases Some obtain ys where ys: "ys = [] \<or> ys = [it]" "sends dr ys dr1" by auto
    moreover have "run_result e dr (due f (it # its)) ys r1 dr1"
      using cases Some nf by (auto simp: run_result_def split: drive_result.splits)
    ultimately show ?thesis using nf r by (intro exI [of _ ys]) auto
  qed
qed

text \<open>Nothing stops a replay that is not cancelled, whose client keeps reading, without pacing.\<close>

definition calm :: "drive_env \<Rightarrow> bool" where
  "calm env \<longleftrightarrow> (\<forall>k. \<not> dv_cancelled (de_event env k) \<and> dv_send (de_event env k) = SendOk)"

lemma emit_calm:
  assumes "calm env" and "\<not> pc_enabled (dr_pacer dr)"
  shows "\<exists>dr'. emit env f it dr = (None, dr') \<and> \<not> pc_enabled (dr_pacer dr')"
proof -
  obtain slot update names recv_ns where it: "it = (slot, update, names, recv_ns)" by (metis prod_cases4)
  with assms show ?thesis
    by (simp add: emit_def calm_def pacer_target_def observe_emit_def Let_def)
qed

lemma emit_all_calm:
  "calm env \<Longrightarrow> \<not> pc_enabled (dr_pacer dr) \<Longrightarrow>
   \<exists>st dr'. emit_all env f its None dr = (Finished st, dr') \<and> rs_drained st"
proof (induction its arbitrary: dr)
  case Nil
  then show ?case by (simp add: make_stats_def)
next
  case (Cons it its)
  with emit_calm [OF Cons.prems(1,2), of f it] show ?case by auto
qed

section \<open>Streams of a plan\<close>

lemma items_out_panic: "snd k \<noteq> Some CursorPanic \<Longrightarrow> snd (items_out E plan d ords k) \<noteq> Some CursorPanic"
  by (induction ords) (auto split: sum.splits)

lemma plans_out_panic: "snd (plans_out E plans) \<noteq> Some CursorPanic"
  by (induction plans) (auto simp: items_out_panic split: sum.splits)

lemma drive_replay_emits:
  assumes "drive_replay E env plan cache p = (r, dr, cache')"
    and "\<forall>ps \<in> set (plans_per_stream plan). plan_files E ps files" and "chunk_cache_ok E files cache"
  shows "chunk_cache_ok E files cache' \<and>
    (\<exists>its e. merge item_slot (map (plans_out E) (plans_per_stream plan)) = (its, e) \<and>
       emit_all env (rp_from_slot plan) its e (driver_new p) = (r, dr))"
proof -
  let ?cs = "map (\<lambda>ps. if ps = [] then None else Some (cursor_new ps)) (plans_per_stream plan)"
  have outs: "map (option_out E) ?cs = map (plans_out E) (plans_per_stream plan)"
    by (auto simp: cursor_out_new)
  have "cursors_ok E files ?cs" using assms(2) by (auto simp: cursors_ok_def cursor_new_def)
  from drive_merge [OF assms(1) [unfolded drive_replay_def] this assms(3)]
  show ?thesis unfolding outs by (metis surj_pair)
qed

lemma drive_replay_sends:
  assumes "drive_replay E env plan cache p = (r, dr, cache')" and "chunk_cache_ok E files cache"
    and "\<forall>ps \<in> set (plans_per_stream plan). plan_files E ps files \<and> snd (plans_out E ps) = None"
  shows "\<exists>zs ys. slot_merge item_slot (map (fst \<circ> plans_out E) (plans_per_stream plan)) zs \<and>
    prefix ys (due (rp_from_slot plan) zs) \<and> messages (dr_out dr) = map deliver ys \<and>
    (case r of
       Finished st \<Rightarrow>
         rs_last_slot st = (if ys = [] then None else Some (item_slot (last ys))) \<and>
         (rs_drained st \<longrightarrow> ys = due (rp_from_slot plan) zs \<and> rs_sent st = of_nat (length ys))
     | Waiting \<Rightarrow> True
     | _ \<Rightarrow> False) \<and>
    (calm env \<and> \<not> pc_enabled p \<longrightarrow> (\<exists>st. r = Finished st \<and> rs_drained st))"
proof -
  let ?os = "map (plans_out E) (plans_per_stream plan)"
  have "\<forall>ps \<in> set (plans_per_stream plan). plan_files E ps files" using assms(3) by blast
  with drive_replay_emits [OF assms(1) _ assms(2)] obtain its e where
    m: "merge item_slot ?os = (its, e)" and em: "emit_all env (rp_from_slot plan) its e (driver_new p) = (r, dr)"
    by blast
  have "\<forall>out \<in> set ?os. snd out = None" using assms(3) by auto
  from merge_slot_merge [OF this, of item_slot] m
  have e: "e = None" and sm: "slot_merge item_slot (map (fst \<circ> plans_out E) (plans_per_stream plan)) its" by simp_all
  from emit_all_sends [OF em] obtain ys where
    ys: "prefix ys (due (rp_from_slot plan) its)" "sends (driver_new p) ys dr"
      "run_result e (driver_new p) (due (rp_from_slot plan) its) ys r dr" by blast
  have "\<exists>st. r = Finished st \<and> rs_drained st" if "calm env \<and> \<not> pc_enabled p"
    using emit_all_calm [of env "driver_new p" "rp_from_slot plan" its] that em e by (auto simp: driver_new_def)
  with sm ys e show ?thesis
    by (intro exI [of _ its] exI [of _ ys])
      (auto simp: run_result_def sends_def driver_new_def split: drive_result.splits)
qed

section \<open>Properties\<close>

text \<open>A replay sends the merge of its streams. When the chunks of the plan can be read, the messages the
  client was sent are, in order, a first part of the merge of the streams by slot (the next message
  is always the one of least slot among the heads of the streams, the first stream first), without the
  messages below the start slot, each with the names of its matching filters. The reported last slot is
  that of the last message sent; a replay reported as drained sent everything; and a replay that nothing
  stops is drained. The caches make no difference.\<close>

theorem replay_sends_merge:
  assumes "drive_replay E env plan cache p = (r, dr, cache')" and "chunk_cache_ok E files cache"
    and "\<forall>ps \<in> set (plans_per_stream plan). plan_files E ps files \<and> snd (plans_out E ps) = None"
  shows "\<exists>zs ys. slot_merge item_slot (map (fst \<circ> plans_out E) (plans_per_stream plan)) zs \<and>
    prefix ys (due (rp_from_slot plan) zs) \<and> messages (dr_out dr) = map deliver ys \<and>
    (case r of
       Finished st \<Rightarrow>
         rs_last_slot st = (if ys = [] then None else Some (item_slot (last ys))) \<and>
         (rs_drained st \<longrightarrow> ys = due (rp_from_slot plan) zs \<and> rs_sent st = of_nat (length ys))
     | Waiting \<Rightarrow> True
     | _ \<Rightarrow> False) \<and>
    (calm env \<and> \<not> pc_enabled p \<longrightarrow> (\<exists>st. r = Finished st \<and> rs_drained st))"
  by (rule drive_replay_sends [OF assms])


text \<open>Examples: one chunk with two transactions, of which a filter selects the second.\<close>

definition tx_msg :: "u64 \<Rightarrow> subscribe_update" where
  "tx_msg s = \<lparr>filters = [], created_at = None, update_oneof = Some (UTransaction
     \<lparr>tx_slot = s, transaction = None\<rparr>)\<rparr>"

definition replay_example_env :: "u32 list reader_env" where
  "replay_example_env = toy_env\<lparr>re_decode := (\<lambda>b. case b of [x] \<Rightarrow> Some (tx_msg (ucast x)) | _ \<Rightarrow> None),
     re_file := (\<lambda>st n. if n = ''good'' then Some (concat (map frame_bytes [[8], [9]])) else None)\<rparr>"

definition replay_example_entry :: "string \<Rightarrow> chunk_entry" where
  "replay_example_entry z = \<lparr>ce_stream = Tx, ce_start_slot = 5, ce_end_slot_exclusive = 10, zst_path = z,
     idx_path = [], meta_path = [], zst_len = 0, ce_meta = toy_meta\<rparr>"

definition replay_example_plan :: "string \<Rightarrow> u32 list replay_plan" where
  "replay_example_plan z = \<lparr>rp_from_slot = 6, rp_to_slot_exclusive = 10,
     plans_per_stream = [[chunk_plan_of replay_example_env Tx (replay_example_entry z) [(''all'', [1])]], [], []]\<rparr>"

definition calm_env :: drive_env where
  "calm_env = \<lparr>de_event = (\<lambda>_. \<lparr>dv_target_now = 0, dv_cancelled = False, dv_send = SendOk, dv_status = StatusSent,
     dv_emit_now = 0\<rparr>), de_encoded_len = (\<lambda>_. 1), de_describe = (\<lambda>_. [])\<rparr>"

lemma replay_example_good:
  "plans_out replay_example_env (hd (plans_per_stream (replay_example_plan ''good''))) =
     ([(9, tx_msg 9, [''all''], None)], None)"
proof -
  have "decode_chunk Some (Some (concat (map frame_bytes [[8], [9]]))) =
      Inr \<lparr>raw = concat (map frame_bytes [[8], [9]]), frames = ranges_from 0 [[8], [9]]\<rparr>"
    by (rule decode_chunk_frames) simp_all
  then show ?thesis
    by (simp add: replay_example_plan_def replay_example_env_def toy_env_def chunk_plan_of_def union_all_def
        list_roaring_def replay_example_entry_def read_item_def decode_message_def dc_frame_def frame_bytes_def
        u32_to_le_def extract_slot_def tx_msg_def extract_recv_ns_def toy_meta_def prepend_def Let_def)
qed

lemma replay_sends_merge_witness:
  "messages (dr_out (fst (snd (drive_replay replay_example_env calm_env (replay_example_plan ''good'') cache_new
      (pacer_from_config (default_pacing\<lparr>pacing_enabled := False\<rparr>)))))) =
    [(tx_msg 9)\<lparr>filters := [''all'']\<rparr>]"
proof -
  let ?plan = "replay_example_plan ''good''" and ?E = replay_example_env
  let ?p = "pacer_from_config (default_pacing\<lparr>pacing_enabled := False\<rparr>)"
  let ?files = "\<lambda>_. re_file ?E Tx ''good''"
  obtain r dr cache' where dr: "drive_replay ?E calm_env ?plan cache_new ?p = (r, dr, cache')" by (metis prod_cases3)
  have ok: "chunk_cache_ok ?E ?files cache_new" by (simp add: chunk_cache_ok_def coherent_def cache_new_def)
  obtain ps where ps: "plans_per_stream ?plan = [ps, [], []]" "plan_files ?E ps ?files"
    by (simp add: replay_example_plan_def plan_files_def chunk_plan_of_def replay_example_entry_def)
  have out: "plans_out ?E ps = ([(9, tx_msg 9, [''all''], None)], None)" using replay_example_good ps(1) by simp
  have calm: "calm calm_env \<and> \<not> pc_enabled ?p" by (simp add: calm_def calm_env_def pacer_from_config_def)
  have "\<forall>ps \<in> set (plans_per_stream ?plan). plan_files ?E ps ?files \<and> snd (plans_out ?E ps) = None"
    using ps out by (simp add: plan_files_def)
  from replay_sends_merge [OF dr ok this] calm obtain zs ys st where
    z: "slot_merge item_slot [[(9, tx_msg 9, [''all''], None)], [], []] zs" "messages (dr_out dr) = map deliver ys"
      "ys = due (rp_from_slot ?plan) zs"
    by (auto simp: ps(1) out)
  have "zs = [(9, tx_msg 9, [''all''], None)]" using slot_merge_mset [OF z(1)] by simp
  with z(2,3) dr show ?thesis
    by (simp add: replay_example_plan_def item_slot_def deliver_def set_filters_def)
qed


end
