(* ===== verification/Delivery.thy ===== *)
theory Delivery
  imports Replay
begin

text \<open>
  What a subscriber receives: the planner, the cursors and the driver together, over chunks that
  hold given messages. The specification \<open>chunk_items\<close> looks at the messages one by one and never
  at an index or a bitmap.
\<close>

section \<open>Chunks that hold messages\<close>

text \<open>
  \<open>holds E st entry ms\<close>: the chunk file of the entry decodes to the messages \<open>ms\<close> and its index
  reads as an index of them. Theory \<open>Spec2Isabelle\<close> shows it for every chunk the writer sealed.
\<close>

definition holds :: "'bm reader_env \<Rightarrow> stream \<Rightarrow> chunk_entry \<Rightarrow> subscribe_update list \<Rightarrow> bool" where
  "holds E st entry ms \<longleftrightarrow>
     length ms < 2 ^ 32 \<and>
     (\<exists>d idx. decode_chunk (re_unzstd E) (re_file E st (zst_path entry)) = Inr d \<and>
        (\<forall>i < length ms. decode_message (re_decode E) d (of_nat i) = Inr (ms ! i)) \<and>
        parsed_index E st entry = Inr idx \<and> index_reads (re_roaring E) st ms idx)"

definition matching :: "(string \<Rightarrow> bytes option) \<Rightarrow> subscription_filters \<Rightarrow> stream \<Rightarrow> subscribe_update \<Rightarrow> string list" where
  "matching bs58 parsed st u =
     (case st of
        Tx \<Rightarrow> map fst (filter (\<lambda>(_, f). tx_matches bs58 f u) (sf_transactions parsed))
      | Acct \<Rightarrow> map fst (filter (\<lambda>(_, f). acct_matches bs58 f u) (sf_accounts parsed))
      | Block \<Rightarrow> sf_blocks_meta parsed)"

definition slot_of :: "subscribe_update \<Rightarrow> u64" where
  "slot_of u = (case extract_slot u of None \<Rightarrow> 0 | Some s \<Rightarrow> s)"

definition chunk_items :: "(string \<Rightarrow> bytes option) \<Rightarrow> subscription_filters \<Rightarrow> stream \<Rightarrow> chunk_entry
    \<Rightarrow> subscribe_update list \<Rightarrow> replay_item list" where
  "chunk_items bs58 parsed st entry ms =
     map (\<lambda>(i, u). (slot_of u, u, matching bs58 parsed st u, extract_recv_ns u (ce_meta entry) (of_nat i)))
       (filter (\<lambda>(_, u). matching bs58 parsed st u \<noteq> []) (enumerate 0 ms))"

section \<open>The bitmaps of a chunk\<close>

text \<open>\<open>named R ms P nfs nbs\<close>: the bitmaps \<open>nbs\<close> carry the names of the filters \<open>nfs\<close> and select what they match.\<close>

definition named :: "'bm roaring \<Rightarrow> subscribe_update list \<Rightarrow> ('f \<Rightarrow> subscribe_update \<Rightarrow> bool) \<Rightarrow> (string \<times> 'f) list
    \<Rightarrow> (string \<times> 'bm) list \<Rightarrow> bool" where
  "named R ms P nfs nbs \<longleftrightarrow>
     list_all2 (\<lambda>(n, f) (m, b). m = n \<and> elems R b = ordinals ms (P f)) nfs nbs"

lemma named_contains:
  assumes "named R ms P nfs nbs" and "unat i < length ms"
  shows "map fst (filter (\<lambda>(_, b). rb_contains R b i) nbs) = map fst (filter (\<lambda>(_, f). P f (ms ! unat i)) nfs)"
  using assms(1)[unfolded named_def]
proof (induction rule: list_all2_induct)
  case (Cons x xs y ys)
  then show ?case using assms(2) by (auto simp: rb_contains_elems ordinals_def split: prod.splits)
qed simp

lemma elems_union_all:
  assumes "roaring_ok R"
  shows "elems R (union_all R nbs) = (\<Union>(_, b) \<in> set nbs. elems R b)"
proof -
  have "elems R (foldl (\<lambda>acc (_, b). rb_or R acc b) a nbs) = elems R a \<union> (\<Union>(_, b) \<in> set nbs. elems R b)" for a
    by (induction nbs arbitrary: a) (auto simp: elems_or [OF assms])
  then show ?thesis by (simp add: union_all_def elems_new [OF assms])
qed

lemma named_union:
  assumes "roaring_ok R" and "named R ms P nfs nbs"
  shows "elems R (union_all R nbs) = ordinals ms (\<lambda>u. filter (\<lambda>(_, f). P f u) nfs \<noteq> [])"
proof -
  have "(\<Union>(_, b) \<in> set nbs. elems R b) = ordinals ms (\<lambda>u. \<exists>(_, f) \<in> set nfs. P f u)"
    using assms(2) [unfolded named_def]
    by (induction rule: list_all2_induct) (auto simp: ordinals_def split: prod.splits)
  then show ?thesis by (simp add: elems_union_all [OF assms(1)] filter_empty_conv ordinals_def case_prod_unfold)
qed

text \<open>The three kinds of filters at once.\<close>

definition matched :: "'bm reader_env \<Rightarrow> subscription_filters \<Rightarrow> stream \<Rightarrow> subscribe_update list
    \<Rightarrow> (string \<times> 'bm) list \<Rightarrow> bool" where
  "matched E parsed st ms nbs \<longleftrightarrow>
     (\<forall>i. unat i < length ms \<longrightarrow>
        map fst (filter (\<lambda>(_, b). rb_contains (re_roaring E) b i) nbs) = matching (re_bs58 E) parsed st (ms ! unat i)) \<and>
     elems (re_roaring E) (union_all (re_roaring E) nbs) =
       ordinals ms (\<lambda>u. matching (re_bs58 E) parsed st u \<noteq> [])"

lemma those_named:
  assumes "\<And>f. \<exists>b. eval f = Some b \<and> elems R b = ordinals ms (P f)"
  shows "\<exists>nbs. those (map (\<lambda>(name, f). map_option (Pair name) (eval f)) nfs) = Some nbs \<and> named R ms P nfs nbs"
proof (induction nfs)
  case (Cons nf nfs)
  then obtain nbs where nbs: "those (map (\<lambda>(name, f). map_option (Pair name) (eval f)) nfs) = Some nbs"
    "named R ms P nfs nbs" by blast
  obtain b where "eval (snd nf) = Some b" "elems R b = ordinals ms (P (snd nf))" using assms by blast
  with nbs show ?case
    by (intro exI [of _ "(fst nf, b) # nbs"]) (simp add: named_def case_prod_unfold)
qed (simp add: named_def)

lemma named_matched:
  assumes "roaring_ok (re_roaring E)" and "named (re_roaring E) ms P nfs nbs"
    and "\<And>u. matching (re_bs58 E) parsed st u = map fst (filter (\<lambda>(_, f). P f u) nfs)"
  shows "matched E parsed st ms nbs"
  using named_contains [OF assms(2)] named_union [OF assms(1,2)] assms(3) by (simp add: matched_def ordinals_def)

lemma named_filters_matched:
  assumes R: "roaring_ok (re_roaring E)" and idx: "index_reads (re_roaring E) st ms idx" and n: "length ms < 2 ^ 32"
  shows "\<exists>nbs. named_filters E parsed st idx = Some nbs \<and> matched E parsed st ms nbs"
proof (cases st)
  case Tx
  from those_named [of "filter_tx (re_roaring E) (re_bs58 E) idx", OF filter_tx_matches [OF R idx [unfolded Tx] n]]
  obtain nbs where "named_filters E parsed Tx idx = Some nbs"
    "named (re_roaring E) ms (tx_matches (re_bs58 E)) (sf_transactions parsed) nbs"
    by (auto simp: named_filters_def)
  with named_matched [OF R this(2), of parsed Tx] Tx show ?thesis by (simp add: matching_def)
next
  case Acct
  from those_named [of "filter_acct (re_roaring E) (re_bs58 E) idx", OF filter_acct_matches [OF R idx [unfolded Acct] n]]
  obtain nbs where "named_filters E parsed Acct idx = Some nbs"
    "named (re_roaring E) ms (acct_matches (re_bs58 E)) (sf_accounts parsed) nbs"
    by (auto simp: named_filters_def)
  with named_matched [OF R this(2), of parsed Acct] Acct show ?thesis by (simp add: matching_def)
next
  case Block
  let ?nfs = "map (\<lambda>name. (name, ())) (sf_blocks_meta parsed)"
  from those_named [of "\<lambda>_. filter_block (re_roaring E) idx" "re_roaring E" ms "\<lambda>_ _. True" ?nfs]
    filter_block_matches [OF R idx n]
  obtain nbs where "named_filters E parsed Block idx = Some nbs" "named (re_roaring E) ms (\<lambda>_ _. True) ?nfs nbs"
    by (auto simp: named_filters_def o_def)
  with named_matched [OF R this(2), of parsed Block] Block show ?thesis by (simp add: matching_def o_def filter_True)
qed

section \<open>The items of a chunk\<close>

lemma chunk_plan_of_sel: "cp_stream (chunk_plan_of E st entry nbs) = st" "cp_entry (chunk_plan_of E st entry nbs) = entry"
  by (simp_all add: chunk_plan_of_def)

lemma into_iter_ordinals:
  assumes R: "roaring_ok R" and n: "length ms < 2 ^ 32" and e: "elems R b = ordinals ms P"
  shows "rb_into_iter R b = map of_nat (filter (\<lambda>i. P (ms ! i)) [0..<length ms])"
proof (rule sorted_distinct_set_unique)
  have small: "unat (of_nat i :: u32) = i" if "i < length ms" for i
    using that n by (simp add: unat_of_nat take_bit_nat_eq_self)
  let ?xs = "filter (\<lambda>i. P (ms ! i)) [0..<length ms]"
  show "sorted (rb_into_iter R b)" "distinct (rb_into_iter R b)"
    using into_iter_sorted [OF R, of b] by (simp_all add: strict_sorted_iff)
  have "sorted_wrt (\<lambda>i j. (of_nat i :: u32) < of_nat j) ?xs"
    by (rule sorted_wrt_mono_rel [where P = "(<)"])
      (auto simp: word_less_nat_alt small sorted_wrt_filter)
  then have "sorted_wrt (<) (map of_nat ?xs :: u32 list)" by (simp add: sorted_wrt_map)
  then show "sorted (map of_nat ?xs :: u32 list)" "distinct (map of_nat ?xs :: u32 list)"
    by (simp_all only: strict_sorted_iff)
  show "set (rb_into_iter R b) = set (map of_nat ?xs)"
  proof -
    have "i \<in> ordinals ms P \<longleftrightarrow> i \<in> of_nat ` set ?xs" for i :: u32
    proof
      assume "i \<in> ordinals ms P"
      then have "unat i \<in> set ?xs" by (simp add: ordinals_def)
      then show "i \<in> of_nat ` set ?xs" by (intro image_eqI [where x = "unat i"]) simp_all
    next
      assume "i \<in> of_nat ` set ?xs"
      then show "i \<in> ordinals ms P" by (auto simp: ordinals_def small)
    qed
    then show ?thesis using set_into_iter [OF R, of b] e by auto
  qed
qed

lemma items_out_map:
  "(\<And>ord. ord \<in> set ords \<Longrightarrow> read_item E plan d ord = Inr (f ord)) \<Longrightarrow>
   items_out E plan d ords k = (map f ords @ fst k, snd k)"
  by (induction ords) (simp_all add: prepend_def)

lemma holds_planned:
  assumes R: "roaring_ok (re_roaring E)" and h: "holds E st entry ms"
  shows "\<exists>p. pure_chunk E parsed st entry = Inr p \<and> cp_stream p = st \<and> cp_entry p = entry \<and>
    (\<forall>ps. plans_out E (p # ps) =
       (chunk_items (re_bs58 E) parsed st entry ms @ fst (plans_out E ps), snd (plans_out E ps)))"
proof -
  obtain d idx where n: "length ms < 2 ^ 32"
    and d: "decode_chunk (re_unzstd E) (re_file E st (zst_path entry)) = Inr d"
    and msg: "\<forall>i < length ms. decode_message (re_decode E) d (of_nat i) = Inr (ms ! i)"
    and idx: "parsed_index E st entry = Inr idx" "index_reads (re_roaring E) st ms idx"
    using h by (auto simp: holds_def)
  obtain nbs where nbs: "named_filters E parsed st idx = Some nbs" "matched E parsed st ms nbs"
    using named_filters_matched [OF R idx(2) n] by blast
  let ?p = "chunk_plan_of E st entry nbs" and ?m = "matching (re_bs58 E) parsed st"
  let ?xs = "filter (\<lambda>i. ?m (ms ! i) \<noteq> []) [0..<length ms]"
  let ?item = "\<lambda>i. (slot_of (ms ! i), ms ! i, ?m (ms ! i), extract_recv_ns (ms ! i) (ce_meta entry) (of_nat i))"
  have pc: "pure_chunk E parsed st entry = Inr ?p" by (simp add: pure_chunk_def idx nbs)
  have iter: "rb_into_iter (re_roaring E) (cp_union ?p) = map of_nat ?xs"
    using into_iter_ordinals [OF R n, of "union_all (re_roaring E) nbs"] nbs(2)
    by (simp add: matched_def chunk_plan_of_def)
  have empty: "rb_is_empty (re_roaring E) (cp_union ?p) \<longleftrightarrow> ?xs = []"
    using set_into_iter [OF R, of "cp_union ?p"] rb_is_empty_iff [OF R, of "cp_union ?p"]
    unfolding iter by (metis list.map_disc_iff set_empty)
  have read: "read_item E ?p d (of_nat i) = Inr (?item i)" if "i < length ms" for i
  proof -
    have "unat (of_nat i :: u32) = i" using that n by (simp add: unat_of_nat take_bit_nat_eq_self)
    with nbs(2) that msg show ?thesis
      by (auto simp: read_item_def matched_def chunk_plan_of_def slot_of_def Let_def)
  qed
  have items: "chunk_items (re_bs58 E) parsed st entry ms = map ?item ?xs"
  proof -
    have "enumerate 0 ms = map (\<lambda>i. (i, ms ! i)) [0..<length ms]"
      by (intro nth_equalityI) (simp_all add: nth_enumerate_eq)
    then show ?thesis by (simp add: chunk_items_def filter_map o_def)
  qed
  have "items_out E ?p d (map of_nat xs) k = (map ?item xs @ fst k, snd k)" if "\<forall>i \<in> set xs. i < length ms" for xs k
    using that by (induction xs) (simp_all add: read prepend_def)
  then have "items_out E ?p d (map of_nat ?xs) k = (map ?item ?xs @ fst k, snd k)" for k by simp
  with d empty have "plans_out E (?p # ps) =
      (chunk_items (re_bs58 E) parsed st entry ms @ fst (plans_out E ps), snd (plans_out E ps))" for ps
    by (cases "?xs = []") (simp_all add: iter items chunk_plan_of_sel)
  with pc show ?thesis by (intro exI [of _ ?p]) (simp add: chunk_plan_of_def)
qed

section \<open>The items of a stream\<close>

lemma stream_planned:
  assumes R: "roaring_ok (re_roaring E)" and "\<forall>e \<in> set es. holds E st e (f e)"
  shows "\<exists>ps. sequence (map (pure_chunk E parsed st) es) = Inr ps \<and>
    plans_out E ps = (concat (map (\<lambda>e. chunk_items (re_bs58 E) parsed st e (f e)) es), None) \<and>
    (\<forall>p \<in> set ps. cp_stream p = st \<and> cp_entry p \<in> set es)"
  using assms(2)
proof (induction es)
  case (Cons e es)
  then obtain ps where ps: "sequence (map (pure_chunk E parsed st) es) = Inr ps"
    "plans_out E ps = (concat (map (\<lambda>e. chunk_items (re_bs58 E) parsed st e (f e)) es), None)"
    "\<forall>p \<in> set ps. cp_stream p = st \<and> cp_entry p \<in> set es" by auto
  obtain p where p: "pure_chunk E parsed st e = Inr p" "cp_stream p = st" "cp_entry p = e"
    "\<forall>ps. plans_out E (p # ps) =
       (chunk_items (re_bs58 E) parsed st e (f e) @ fst (plans_out E ps), snd (plans_out E ps))"
    using holds_planned [OF R, of st e "f e" parsed] Cons.prems by auto
  from ps p show ?case by (intro exI [of _ "p # ps"] conjI) (auto simp del: plans_out.simps)
qed simp

definition stream_items :: "(string \<Rightarrow> bytes option) \<Rightarrow> subscription_filters \<Rightarrow> chunk_catalog
    \<Rightarrow> (stream \<Rightarrow> u64 \<Rightarrow> subscribe_update list) \<Rightarrow> u64 \<Rightarrow> u64 \<Rightarrow> stream \<Rightarrow> replay_item list" where
  "stream_items bs58 parsed cat msgs a b st =
     (if has_stream parsed st
      then concat (map (\<lambda>e. chunk_items bs58 parsed st e (msgs st (ce_start_slot e))) (chunks_in_range cat st a b))
      else [])"

definition chunk_files :: "'bm reader_env \<Rightarrow> chunk_catalog \<Rightarrow> (cache_key \<Rightarrow> bytes option) \<Rightarrow> bool" where
  "chunk_files E cat files \<longleftrightarrow>
     (\<forall>st s e. catalog_get cat st s = Some e \<longrightarrow>
        files \<lparr>ck_stream = st, ck_start_slot = s\<rparr> = re_file E st (zst_path e))"

lemma pure_stream_holds:
  assumes R: "roaring_ok (re_roaring E)" and ok: "catalog_ok cat" and cf: "chunk_files E cat files"
    and h: "\<forall>st s e. catalog_get cat st s = Some e \<longrightarrow> holds E st e (msgs st s)"
  shows "\<exists>ps. pure_stream E cat parsed a b st = Inr ps \<and> plan_files E ps files \<and>
    plans_out E ps = (stream_items (re_bs58 E) parsed cat msgs a b st, None)"
proof (cases "has_stream parsed st")
  case True
  let ?es = "chunks_in_range cat st a b"
  have get: "\<forall>e \<in> set ?es. catalog_get cat st (ce_start_slot e) = Some e"
    using chunks_in_range_get [OF ok] by blast
  then have "\<forall>e \<in> set ?es. holds E st e (msgs st (ce_start_slot e))" using h by blast
  from stream_planned [OF R this, of parsed] obtain ps where
    "sequence (map (pure_chunk E parsed st) ?es) = Inr ps"
    "plans_out E ps = (concat (map (\<lambda>e. chunk_items (re_bs58 E) parsed st e (msgs st (ce_start_slot e))) ?es), None)"
    "\<forall>p \<in> set ps. cp_stream p = st \<and> cp_entry p \<in> set ?es" by blast
  moreover from this(3) get cf have "plan_files E ps files" by (auto simp: plan_files_def chunk_files_def)
  ultimately show ?thesis using True by (simp add: pure_stream_def stream_items_def)
next
  case False
  then show ?thesis by (simp add: pure_stream_def stream_items_def plan_files_def)
qed

lemma sequence_map_Inr:
  assumes "\<forall>x \<in> set xs. \<exists>y. f x = Inr y \<and> P x y"
  shows "\<exists>ys. sequence (map f xs) = Inr ys \<and> list_all2 P xs ys"
  using assms
proof (induction xs)
  case (Cons x xs)
  then obtain y ys where "f x = Inr y" "P x y" "sequence (map f xs) = Inr ys" "list_all2 P xs ys" by auto
  then show ?case by (intro exI [of _ "y # ys"]) simp
qed simp

lemma plan_replay_holds:
  assumes R: "roaring_ok (re_roaring E)" and ok: "catalog_ok cat" and cf: "chunk_files E cat files"
    and h: "\<forall>st s e. catalog_get cat st s = Some e \<longrightarrow> holds E st e (msgs st s)"
    and ix: "index_files E cat ifiles" "index_cache_ok E ifiles ic"
    and plan: "plan_replay E cat parsed start ic = (Inr plan, ic')"
  shows "list_all2 (\<lambda>st ps. plan_files E ps files \<and>
      plans_out E ps = (stream_items (re_bs58 E) parsed cat msgs (rp_from_slot plan) (rp_to_slot_exclusive plan) st, None))
    all_streams (plans_per_stream plan)"
proof -
  let ?P = "\<lambda>a b st ps. plan_files E ps files \<and>
    plans_out E ps = (stream_items (re_bs58 E) parsed cat msgs a b st, None)"
  let ?a = "case start of None \<Rightarrow> Min (served_starts cat parsed) | Some r \<Rightarrow> r"
    and ?b = "case newest_end_slot cat of None \<Rightarrow> 0 | Some s \<Rightarrow> s"
  obtain pss where pss: "sequence (map (pure_stream E cat parsed ?a ?b) all_streams) = Inr pss"
      "list_all2 (?P ?a ?b) all_streams pss"
    using sequence_map_Inr [of all_streams "pure_stream E cat parsed ?a ?b" "?P ?a ?b"]
      pure_stream_holds [OF R ok cf h] by blast
  have "fst (plan_replay E cat parsed start ic) = Inr plan" using plan by simp
  then have "plan = \<lparr>rp_from_slot = ?a, rp_to_slot_exclusive = ?b, plans_per_stream = pss\<rparr>"
    unfolding plan_replay_pure [OF ok ix] Let_def pss(1) by (simp split: if_splits)
  with pss(2) show ?thesis by simp
qed

lemma plan_replay_total:
  assumes R: "roaring_ok (re_roaring E)" and ok: "catalog_ok cat" and cf: "chunk_files E cat files"
    and h: "\<forall>st s e. catalog_get cat st s = Some e \<longrightarrow> holds E st e (msgs st s)"
    and ix: "index_files E cat ifiles" "index_cache_ok E ifiles ic" and ne: "served_starts cat parsed \<noteq> {}"
  shows "\<exists>plan ic'. plan_replay E cat parsed None ic = (Inr plan, ic') \<and> rp_from_slot plan = Min (served_starts cat parsed)"
proof -
  let ?a = "Min (served_starts cat parsed)" and ?b = "case newest_end_slot cat of None \<Rightarrow> 0 | Some s \<Rightarrow> s"
  obtain pss where "sequence (map (pure_stream E cat parsed ?a ?b) all_streams) = Inr pss"
    using sequence_map_Inr [of all_streams "pure_stream E cat parsed ?a ?b" "\<lambda>_ _. True"]
      pure_stream_holds [OF R ok cf h] by blast
  then have "fst (plan_replay E cat parsed None ic) =
      Inr \<lparr>rp_from_slot = ?a, rp_to_slot_exclusive = ?b, plans_per_stream = pss\<rparr>"
    unfolding plan_replay_pure [OF ok ix] Let_def using ne by simp
  then show ?thesis by (cases "plan_replay E cat parsed None ic") auto
qed

section \<open>Properties\<close>

text \<open>C3: What a subscriber receives. Let every chunk of the catalog hold messages, as the writer
  left them. A replay that was planned for a subscription and driven sends, in order, a first part of
  the merge by slot of the subscribed streams, where a stream consists of exactly the messages of its
  chunks in the range that match at least one of the subscription's filters, tested on the messages
  themselves, each once and with the names of exactly the filters that match it; and nothing below the
  start slot. A drained replay sent all of it, and a replay that nothing stops is drained. Neither the
  indexes nor the caches show.\<close>

theorem subscriber_receives_exactly:
  assumes "roaring_ok (re_roaring E)" and "cat = scan parse_meta nvme"
    and "\<forall>st s e. catalog_get cat st s = Some e \<longrightarrow> holds E st e (msgs st s)"
    and "chunk_files E cat files" and "chunk_cache_ok E files cache"
    and "index_files E cat ifiles" and "index_cache_ok E ifiles ic"
    and "plan_replay E cat parsed start ic = (Inr plan, ic')"
    and "drive_replay E env plan cache p = (r, dr, cache')"
  shows "\<exists>zs ys.
    slot_merge item_slot
      (map (stream_items (re_bs58 E) parsed cat msgs (rp_from_slot plan) (rp_to_slot_exclusive plan))
        [Tx, Acct, Block]) zs \<and>
    prefix ys (due (rp_from_slot plan) zs) \<and> messages (dr_out dr) = map deliver ys \<and>
    (case r of
       Finished st \<Rightarrow>
         rs_last_slot st = (if ys = [] then None else Some (item_slot (last ys))) \<and>
         (rs_drained st \<longrightarrow> ys = due (rp_from_slot plan) zs \<and> rs_sent st = of_nat (length ys))
     | Waiting \<Rightarrow> True
     | _ \<Rightarrow> False) \<and>
    (calm env \<and> \<not> pc_enabled p \<longrightarrow> (\<exists>st. r = Finished st \<and> rs_drained st))"
proof -
  let ?items = "stream_items (re_bs58 E) parsed cat msgs (rp_from_slot plan) (rp_to_slot_exclusive plan)"
  have ok: "catalog_ok cat" unfolding assms(2) by (rule catalog_ok_scan)
  note planned = plan_replay_holds [OF assms(1) ok assms(4,3,6,7,8)]
  then have all: "\<forall>ps \<in> set (plans_per_stream plan). plan_files E ps files \<and> snd (plans_out E ps) = None"
    by (auto simp: list_all2_conv_all_nth in_set_conv_nth)
  have "map (fst \<circ> plans_out E) (plans_per_stream plan) = map ?items all_streams"
    using planned by (auto simp: list_all2_conv_all_nth intro!: nth_equalityI)
  then show ?thesis
    using drive_replay_sends [OF assms(9,5) all] by (simp only: all_streams_def)
qed

text \<open>An example: a chunk of a vote and another transaction, and a filter for the latter.\<close>

definition delivery_filters :: subscription_filters where
  "delivery_filters = \<lparr>sf_transactions = [(''f'', default_tx_filter\<lparr>vote := Some False\<rparr>)], sf_accounts = [],
     sf_blocks_meta = [], sf_from_slot = None\<rparr>"

definition delivery_msgs :: "subscribe_update list" where
  "delivery_msgs = [vote_msg True, vote_msg False]"

definition delivery_index :: bytes where
  "delivery_index = IDX_MAGIC @ [IDX_VERSION] @ u32_to_le 1 @ [1] @
     fst (serialize_dims list_roaring (observe_all list_roaring (for_stream Tx) 0 delivery_msgs) []
       (order (observe_all list_roaring (for_stream Tx) 0 delivery_msgs)))"

definition delivery_env :: "u32 list reader_env" where
  "delivery_env = toy_env\<lparr>re_decode := (\<lambda>b. Some (vote_msg (b = [1]))),
     re_unrmp := one_unheader (example_header Tx delivery_msgs),
     re_file := (\<lambda>st n. if n = ''5-9.zst'' then Some (concat (map frame_bytes [[1], [2]])) else Some delivery_index)\<rparr>"

lemma delivery_holds:
  assumes "zst_path e = ''5-9.zst''" and "idx_path e = ''5-9.idx''"
  shows "holds delivery_env Tx e delivery_msgs"
proof -
  let ?b = "observe_all list_roaring (for_stream Tx) 0 delivery_msgs"
  have "length (fst (serialize_dims list_roaring ?b [] (order ?b))) < 100"
    by (simp add: delivery_msgs_def vote_msg_def for_stream_def observe_def observe_tx_def ib_insert_def Let_def
        list_roaring_def dim_defs insort_insert_key_def resolved_keys_def)
  then have "length delivery_index < 110"
    unfolding delivery_index_def by (simp only: length_append length_u32_to_le) (simp add: IDX_MAGIC_def)
  then have len: "length delivery_index < 2 ^ 64" by (rule less_trans) simp
  have n: "length delivery_msgs \<le> 2 ^ 32" by (simp add: delivery_msgs_def)
  have ser: "serialize list_roaring (one_header (example_header Tx delivery_msgs)) ?b 9 10 (of_nat (length delivery_msgs))
      = Inr delivery_index"
    unfolding example_header_def delivery_index_def by (rule serialize_one_header)
  obtain idx where idx: "parse_chunk_index (one_unheader (example_header Tx delivery_msgs)) (Some delivery_index) = Inr idx"
    "index_reads list_roaring Tx delivery_msgs idx"
    using index_reads_serialized [OF list_roaring_ok one_header_ok n _ ser len] one_header_fits
    unfolding example_header_def by blast
  have dec: "decode_chunk Some (Some (concat (map frame_bytes [[1], [2]]))) =
      Inr \<lparr>raw = concat (map frame_bytes [[1], [2]]), frames = ranges_from 0 [[1], [2]]\<rparr>"
    by (rule decode_chunk_frames) simp_all
  have msg: "decode_message (re_decode delivery_env) \<lparr>raw = concat (map frame_bytes [[1], [2]]), frames = ranges_from 0 [[1], [2]]\<rparr>
      (of_nat i) = Inr (delivery_msgs ! i)" if "i < length delivery_msgs" for i
    using that by (auto simp: delivery_msgs_def less_Suc_eq decode_message_def dc_frame_def delivery_env_def toy_env_def
        frame_bytes_def u32_to_le_def Let_def)
  show ?thesis
    using idx dec msg assms
    by (auto simp: holds_def parsed_index_def delivery_env_def toy_env_def delivery_msgs_def)
qed

definition delivery_catalog :: chunk_catalog where
  "delivery_catalog = scan (\<lambda>_. Some toy_meta) toy_store"

lemma delivery_get: "catalog_get delivery_catalog st s = (if st = Tx \<and> s = 5 then Some toy_entry else None)"
  unfolding delivery_catalog_def toy_catalog by (simp add: catalog_get_def)

lemma delivery_coherent:
  shows "roaring_ok (re_roaring delivery_env)"
    and "\<forall>st s e. catalog_get delivery_catalog st s = Some e \<longrightarrow> holds delivery_env st e delivery_msgs"
    and "chunk_files delivery_env delivery_catalog (\<lambda>_. re_file delivery_env Tx ''5-9.zst'')"
    and "chunk_cache_ok delivery_env (\<lambda>_. re_file delivery_env Tx ''5-9.zst'') cache_new"
    and "index_files delivery_env delivery_catalog (\<lambda>_. re_file delivery_env Tx ''5-9.idx'')"
    and "index_cache_ok delivery_env (\<lambda>_. re_file delivery_env Tx ''5-9.idx'') cache_new"
  unfolding chunk_files_def index_files_def delivery_get using delivery_holds [of toy_entry]
  by (auto simp: toy_entry_def delivery_env_def toy_env_def list_roaring_ok chunk_cache_ok_def index_cache_ok_def
      coherent_def cache_new_def)

lemma delivery_planned:
  "\<exists>plan ic'. plan_replay delivery_env delivery_catalog delivery_filters None cache_new = (Inr plan, ic') \<and>
     rp_from_slot plan = 5"
proof -
  have starts: "served_starts delivery_catalog delivery_filters = {5}"
    unfolding served_starts_def delivery_get by (auto simp: delivery_filters_def)
  then have "served_starts delivery_catalog delivery_filters \<noteq> {}" by simp
  from plan_replay_total [OF delivery_coherent(1) _ delivery_coherent(3,2,5,6) this] catalog_ok_scan
  show ?thesis unfolding starts by (auto simp: delivery_catalog_def)
qed

lemma subscriber_receives_exactly_witness:
  "\<exists>plan ic'. plan_replay delivery_env delivery_catalog delivery_filters None cache_new = (Inr plan, ic') \<and>
     messages (dr_out (fst (snd (drive_replay delivery_env calm_env plan cache_new
       (pacer_from_config (default_pacing\<lparr>pacing_enabled := False\<rparr>)))))) = [(vote_msg False)\<lparr>filters := [''f'']\<rparr>]"
proof -
  let ?cat = delivery_catalog and ?p = "pacer_from_config (default_pacing\<lparr>pacing_enabled := False\<rparr>)"
  let ?msgs = "\<lambda>_ _. delivery_msgs"
  obtain plan ic' where plan: "plan_replay delivery_env ?cat delivery_filters None cache_new = (Inr plan, ic')"
    "rp_from_slot plan = 5" using delivery_planned by blast
  obtain r dr cache' where dr: "drive_replay delivery_env calm_env plan cache_new ?p = (r, dr, cache')" by (metis prod_cases3)
  have calm: "calm calm_env \<and> \<not> pc_enabled ?p" by (simp add: calm_def calm_env_def pacer_from_config_def)
  let ?items = "stream_items (re_bs58 delivery_env) delivery_filters ?cat ?msgs (rp_from_slot plan) (rp_to_slot_exclusive plan)"
  from subscriber_receives_exactly [OF delivery_coherent(1) delivery_catalog_def delivery_coherent(2-6) plan(1) dr] calm obtain zs ys where
    z: "slot_merge item_slot (map ?items [Tx, Acct, Block]) zs" "ys = due (rp_from_slot plan) zs"
      "messages (dr_out dr) = map deliver ys" by auto
  have to: "rp_to_slot_exclusive plan = 9"
    using plan(1) by (auto simp: plan_replay_def delivery_catalog_def toy_newest Let_def split: option.splits prod.splits sum.splits)
  have "chunks_in_range ?cat Tx 5 9 = [toy_entry]"
    unfolding delivery_catalog_def toy_catalog by (simp add: chunks_in_range_def toy_entry_def)
  then have "map ?items [Tx, Acct, Block] = [[(9, vote_msg False, [''f''], None)], [], []]"
    by (simp add: stream_items_def plan(2) to delivery_filters_def chunk_items_def delivery_msgs_def matching_def
        tx_matches_def default_tx_filter_def is_vote_msg_def tx_of_def vote_msg_def decodable_def
        List.map_filter_simps slot_of_def extract_slot_def extract_recv_ns_def toy_entry_def toy_meta_def)
  with z(1) have "zs = [(9, vote_msg False, [''f''], None)]" using slot_merge_mset by fastforce
  with z(2,3) plan dr show ?thesis by (auto simp: item_slot_def deliver_def set_filters_def)
qed

end
