(* ===== verification/Follow.thy ===== *)
theory Follow
  imports Delivery
begin

text \<open>
  Following the catalog (\<open>follow_replay\<close> in \<open>sillage-reader/src/customer.rs\<close>): one replay after
  the other, each planned on a fresh snapshot from the slot after the last one sent, until nothing
  new arrives for the idle timeout.

  What a pass meets from outside is one \<open>pass\<close>: whether the session was stopped, the snapshot, the
  contents of the shared caches and files, the events of its replay, and how long things took. The
  clock is the sum of these times, which is what a monotone clock shows; a sleep takes at least as
  long as asked for. Instants and durations are nanoseconds.
\<close>

section \<open>State\<close>

record follow_context =
  fc_filters :: subscription_filters
  fc_pacing :: pacing_config
  fc_idle_timeout :: nat

record 'bm pass =
  ps_stop :: bool
  ps_catalog :: chunk_catalog
  ps_index_cache :: index_cache
  ps_reader :: "'bm reader_env"
  ps_chunk_cache :: chunk_cache
  ps_drive :: drive_env
  ps_status :: status_result
  ps_took :: nat
  ps_late :: nat
  ps_stop_asleep :: bool

record 'bm follow_state =
  fw_plan :: "'bm replay_plan option"
  fw_total :: replay_stats
  fw_pacer :: pacer
  fw_deadline :: nat
  fw_now :: nat
  fw_out :: "outbound list"

text \<open>\<open>FollowWaiting\<close>: the task waits for a channel that is never read again.\<close>

datatype follow_result = Followed replay_stats | FollowFailed decode_error | FollowWaiting | FollowPanicked

definition FOLLOW_POLL_INTERVAL :: nat where
  "FOLLOW_POLL_INTERVAL = 2000000000"

text \<open>\<open>f64::max\<close>: a NaN gives way to the other argument.\<close>

definition f64_max :: "f64 \<Rightarrow> f64 \<Rightarrow> f64" where
  "f64_max a b = (if a = NaN then b else if b = NaN then a else if f64_less a b then b else a)"

text \<open>The texts of a planning error; \<open>describe\<close> renders an error of the index reader.\<close>

fun plan_error_text :: "(parse_error \<Rightarrow> string) \<Rightarrow> plan_error \<Rightarrow> string" where
  "plan_error_text describe (FromSlotTooOld requested floor_slot) =
     ''from_slot '' @ dec (unat requested) @ '' is older than the oldest available slot '' @
     dec (unat floor_slot) @ ''; query SubscribeReplayInfo for the current first_available''"
| "plan_error_text describe NoChunksAvailable = ''no chunks available locally for the requested streams''"
| "plan_error_text describe (PlanOther e) = describe e"
| "plan_error_text describe PlanPanic = []"

section \<open>The loop\<close>

definition resume_from :: "follow_context \<Rightarrow> replay_stats \<Rightarrow> u64 option" where
  "resume_from ctx tot =
     (case rs_last_slot tot of Some s \<Rightarrow> Some (s + 1) | None \<Rightarrow> sf_from_slot (fc_filters ctx))"

definition follow_plan :: "follow_context \<Rightarrow> 'bm pass \<Rightarrow> 'bm follow_state \<Rightarrow> plan_error + 'bm replay_plan" where
  "follow_plan ctx ps fw =
     (case fw_plan fw of
        Some p \<Rightarrow> Inr p
      | None \<Rightarrow>
          fst (plan_replay (ps_reader ps) (ps_catalog ps) (fc_filters ctx) (resume_from ctx (fw_total fw))
            (ps_index_cache ps)))"

definition add_pass :: "replay_stats \<Rightarrow> replay_stats \<Rightarrow> replay_stats" where
  "add_pass tot pass =
     tot\<lparr>rs_sent := rs_sent tot + rs_sent pass, rs_bytes := rs_bytes tot + rs_bytes pass,
       rs_lag_max_ms := f64_max (rs_lag_max_ms tot) (rs_lag_max_ms pass),
       rs_last_slot := (case rs_last_slot pass of Some s \<Rightarrow> Some s | None \<Rightarrow> rs_last_slot tot)\<rparr>"

text \<open>What follows a replay that came back with its statistics.\<close>

definition after_pass :: "follow_context \<Rightarrow> 'bm pass \<Rightarrow> replay_stats \<Rightarrow> 'bm follow_state
    \<Rightarrow> follow_result option \<times> 'bm follow_state" where
  "after_pass ctx ps pass fw =
     (let tot = add_pass (fw_total fw) pass;
          fw = fw\<lparr>fw_total := tot\<rparr>
      in if \<not> rs_drained pass then (Some (Followed (tot\<lparr>rs_drained := False\<rparr>)), fw)
         else if 0 < rs_sent pass then (None, fw\<lparr>fw_deadline := fw_now fw + fc_idle_timeout ctx\<rparr>)
         else if fw_deadline fw \<le> fw_now fw then (Some (Followed tot), fw)
         else if ps_stop_asleep ps then (Some (Followed tot), fw)
         else (None, fw\<lparr>fw_now := fw_now fw + FOLLOW_POLL_INTERVAL + ps_late ps\<rparr>))"

text \<open>The body of the loop; \<open>None\<close> is the next iteration.\<close>

definition follow_pass :: "(parse_error \<Rightarrow> string) \<Rightarrow> follow_context \<Rightarrow> 'bm pass \<Rightarrow> 'bm follow_state
    \<Rightarrow> follow_result option \<times> 'bm follow_state" where
  "follow_pass describe ctx ps fw =
     (if ps_stop ps then (Some (Followed (fw_total fw)), fw)
      else
        (case follow_plan ctx ps fw of
           Inl e \<Rightarrow>
             if e = PlanPanic then (Some FollowPanicked, fw)
             else
               let stopped = Followed ((fw_total fw)\<lparr>rs_drained := False\<rparr>)
               in (case ps_status ps of
                     StatusSent \<Rightarrow>
                       (Some stopped,
                        fw\<lparr>fw_out := fw_out fw @ [OutStatus (Status OutOfRange (plan_error_text describe e))]\<rparr>)
                   | StatusClosed \<Rightarrow> (Some stopped, fw)
                   | StatusWaits \<Rightarrow> (Some FollowWaiting, fw))
         | Inr plan \<Rightarrow>
             (case drive_replay (ps_reader ps) (ps_drive ps) plan (ps_chunk_cache ps) (fw_pacer fw) of
                (r, dr, cache') \<Rightarrow>
                  let fw = fw\<lparr>fw_plan := None, fw_pacer := dr_pacer dr, fw_out := fw_out fw @ dr_out dr,
                              fw_now := fw_now fw + ps_took ps\<rparr>
                  in (case r of
                        Failed d \<Rightarrow> (Some (FollowFailed d), fw)
                      | Waiting \<Rightarrow> (Some FollowWaiting, fw)
                      | Panicked \<Rightarrow> (Some FollowPanicked, fw)
                      | Finished pass \<Rightarrow> after_pass ctx ps pass fw))))"

partial_function (option) follow :: "(parse_error \<Rightarrow> string) \<Rightarrow> follow_context \<Rightarrow> (nat \<Rightarrow> 'bm pass) \<Rightarrow> nat
    \<Rightarrow> 'bm follow_state \<Rightarrow> (follow_result \<times> 'bm follow_state) option" where
  "follow describe ctx passes k fw =
     (case follow_pass describe ctx (passes k) fw of
        (Some r, fw') \<Rightarrow> Some (r, fw')
      | (None, fw') \<Rightarrow> follow describe ctx passes (Suc k) fw')"

definition follow_start :: "follow_context \<Rightarrow> 'bm replay_plan \<Rightarrow> nat \<Rightarrow> 'bm follow_state" where
  "follow_start ctx first_plan now =
     \<lparr>fw_plan = Some first_plan,
      fw_total = \<lparr>rs_sent = 0, rs_bytes = 0, rs_lag_max_ms = Finite 0, rs_last_slot = None, rs_drained = True\<rparr>,
      fw_pacer = pacer_from_config (fc_pacing ctx), fw_deadline = now + fc_idle_timeout ctx, fw_now = now,
      fw_out = []\<rparr>"

definition follow_replay :: "(parse_error \<Rightarrow> string) \<Rightarrow> follow_context \<Rightarrow> (nat \<Rightarrow> 'bm pass) \<Rightarrow> 'bm replay_plan
    \<Rightarrow> nat \<Rightarrow> (follow_result \<times> 'bm follow_state) option" where
  "follow_replay describe ctx passes first_plan now =
     follow describe ctx passes 0 (follow_start ctx first_plan now)"

section \<open>What a replay sends, whatever its caches hold\<close>

text \<open>Every item that can be read satisfies \<open>P\<close>.\<close>

definition reads_only :: "'bm reader_env \<Rightarrow> (replay_item \<Rightarrow> bool) \<Rightarrow> bool" where
  "reads_only E P \<longleftrightarrow> (\<forall>plan d ord it. read_item E plan d ord = Inr it \<longrightarrow> P it)"

lemma reads_onlyD: "reads_only E P \<Longrightarrow> read_item E plan d ord = Inr it \<Longrightarrow> P it"
  unfolding reads_only_def by blast

lemma read_next_source:
  assumes "reads_only E P" and "peeked c = None"
  shows "pred_option P (peeked (snd (read_next E c)))"
proof (cases "current_decoded c")
  case None
  with assms show ?thesis by (simp add: read_next_def Let_def)
next
  case (Some d)
  let ?r = "read_item E (sc_plans c ! (plan_idx c - 1)) d (hd (the (current_ords c)))"
  show ?thesis
  proof (cases ?r)
    case (Inl e)
    with Some assms show ?thesis by (simp add: read_next_def Let_def)
  next
    case (Inr it)
    from reads_onlyD [OF assms(1) this] Some Inr show ?thesis by (simp add: read_next_def Let_def)
  qed
qed

lemma peek_source:
  assumes "reads_only E P" and "peek E c cache = (r, c', cache')" and "pred_option P (peeked c)"
  shows "pred_option P (peeked c')"
  using assms
proof (induction E c cache rule: peek.induct)
  case (1 E c cache)
  show ?case
  proof (cases "peeked c")
    case (Some p)
    with "1.prems" show ?thesis by (auto simp: peek.simps [of E c cache])
  next
    case None
    obtain q c1 cache1 where q: "ensure_plan E c cache = (q, c1, cache1)" by (metis prod_cases3)
    then have c1: "peeked c1 = None"
      using None by (auto simp: ensure_plan_def dest: next_plan_cursor split: if_splits)
    consider e where "q = Inl e" | "q = Inr False" | "q = Inr True" by (cases q) auto
    then show ?thesis
    proof cases
      case 3
      show ?thesis
      proof (cases "needs_new_plan c1")
        case True
        with 3 "1.prems"(2) None q have "peek E c1 cache1 = (r, c', cache')" by (simp add: peek.simps [of E c cache])
        from "1.IH" [OF None q [symmetric] 3 refl refl True "1.prems"(1) this] c1 show ?thesis by simp
      next
        case False
        with 3 "1.prems"(2) None q have "c' = snd (read_next E c1)"
          by (auto simp: peek.simps [of E c cache] split: prod.splits)
        with read_next_source [OF "1.prems"(1) c1] show ?thesis by simp
      qed
    qed (use "1.prems"(2) None q c1 in \<open>simp_all add: peek.simps [of E c cache]\<close>)
  qed
qed

definition sourced :: "(replay_item \<Rightarrow> bool) \<Rightarrow> 'bm stream_cursor option list \<Rightarrow> bool" where
  "sourced P cs \<longleftrightarrow> (\<forall>c. Some c \<in> set cs \<longrightarrow> pred_option P (peeked c))"

lemma sourced_simps [simp]:
  "sourced P []" "sourced P (None # cs) = sourced P cs"
  "sourced P (Some c # cs) \<longleftrightarrow> pred_option P (peeked c) \<and> sourced P cs"
  by (auto simp: sourced_def)

lemma peek_all_source:
  assumes "reads_only E P"
  shows "peek_all E i best cs cache = (r, cs', cache') \<Longrightarrow> sourced P cs \<Longrightarrow> sourced P cs'"
  using assms
proof (induction E i best cs cache arbitrary: r cs' cache' rule: peek_all.induct)
  case (2 E i best cs cache)
  then show ?case by (auto split: prod.splits)
next
  case (3 E i best c cs cache)
  obtain q c1 cache1 where pk: "peek E c cache = (q, c1, cache1)" by (metis prod_cases3)
  have c1: "pred_option P (peeked c1)" using peek_source [OF "3.prems"(3) pk] "3.prems"(2) by simp
  show ?case
  proof (cases q)
    case (Inl e)
    with "3.prems" pk c1 show ?thesis by auto
  next
    case (Inr p)
    obtain r2 cs2 cache2 where rest: "peek_all E (Suc i)
        (case p of None \<Rightarrow> best | Some it \<Rightarrow> better best i (item_slot it)) cs cache1 = (r2, cs2, cache2)"
      by (metis prod_cases3)
    with "3.prems" pk Inr have "cs' = Some c1 # cs2" by simp
    with "3.IH" [OF pk [symmetric] Inr refl rest _ "3.prems"(3)] "3.prems"(2) c1 show ?thesis by simp
  qed
qed simp

text \<open>A run that sent \<open>ys\<close> and what it reports about them.\<close>

definition reports :: "driver \<Rightarrow> replay_item list \<Rightarrow> drive_result \<Rightarrow> driver \<Rightarrow> bool" where
  "reports dr ys r dr' \<longleftrightarrow> sends dr ys dr' \<and>
     (case r of
        Finished st \<Rightarrow> rs_last_slot st = dr_last_slot dr' \<and>
          (rs_drained st \<longrightarrow> rs_sent st = dr_emitted dr + of_nat (length ys))
      | _ \<Rightarrow> True)"

lemma emit_reports:
  assumes "emit env f it dr = (ro, dr')"
  shows "\<exists>ys. set ys \<subseteq> {it} \<and> (\<forall>it \<in> set ys. f \<le> item_slot it) \<and>
    (case ro of Some r \<Rightarrow> reports dr ys r dr'
     | None \<Rightarrow> sends dr ys dr' \<and> dr_emitted dr' = dr_emitted dr + of_nat (length ys))"
proof (cases "item_slot it < f")
  case True
  with emit_cases [OF assms] show ?thesis by (intro exI [of _ "[]"]) auto
next
  case False
  note cases = emit_cases [OF assms]
  show ?thesis
  proof (cases ro)
    case None
    with cases False show ?thesis by (intro exI [of _ "[it]"]) auto
  next
    case (Some r)
    with cases False obtain ys where "ys = [] \<or> ys = [it]" "sends dr ys dr'" by auto
    with cases Some False show ?thesis
      by (intro exI [of _ ys]) (auto simp: reports_def split: drive_result.splits)
  qed
qed

lemma drive_reports:
  assumes "drive E env f cs cache dr = (r, dr', cache')" and "sourced P cs"
    and "reads_only E P"
  shows "\<exists>ys. (\<forall>it \<in> set ys. P it \<and> f \<le> item_slot it) \<and> reports dr ys r dr'"
  using assms
proof (induction E env f cs cache dr rule: drive.induct)
  case (1 E env f cs cache dr)
  obtain q cs1 cache1 where pa: "peek_all E 0 None cs cache = (q, cs1, cache1)" by (metis prod_cases3)
  note src = peek_all_source [OF "1.prems"(3) pa "1.prems"(2)]
  note unfolds = drive.simps [of E env f cs cache dr]
  consider x where "q = Inl x" | "q = Inr None" | i s where "q = Inr (Some (i, s))"
    by (metis not_None_eq old.sum.exhaust surj_pair)
  then show ?case
  proof cases
    case (1 x)
    with "1.prems"(1) pa show ?thesis
      by (intro exI [of _ "[]"]) (auto simp: unfolds reports_def dest!: fail_replay_cases split: prod.splits replay_error.splits)
  next
    case 2
    with "1.prems"(1) pa show ?thesis
      by (intro exI [of _ "[]"]) (auto simp: unfolds reports_def make_stats_def)
  next
    case (3 i s)
    show ?thesis
    proof (cases "\<not> length cs1 \<le> i \<and> (\<exists>c it. cs1 ! i = Some c \<and> peeked c = Some it)")
      case False
      with "1.prems"(1) pa 3 have "r = Panicked" "dr' = dr"
        by (auto simp: unfolds split: if_splits option.splits)
      then show ?thesis by (intro exI [of _ "[]"]) (simp add: reports_def)
    next
      case True
      then obtain c it where c: "\<not> length cs1 \<le> i" "cs1 ! i = Some c" "peeked c = Some it" by blast
      then have "Some c \<in> set cs1" by (metis not_le nth_mem)
      with src c have "pred_option P (peeked c)" unfolding sourced_def by blast
      with c have it: "P it" by simp
      let ?cs2 = "cs1[i := Some (snd (take_peeked c))]"
      have src2: "sourced P ?cs2"
        using src set_update_subset_insert [of cs1 i "Some (snd (take_peeked c))"]
        by (auto simp: sourced_def take_peeked_def)
      obtain ro dr1 where em: "emit env f it dr = (ro, dr1)" by fastforce
      with pa 3 c have unfold_drive: "drive E env f cs cache dr =
          (case ro of Some r \<Rightarrow> (r, dr1, cache1) | None \<Rightarrow> drive E env f ?cs2 cache1 dr1)"
        by (simp add: unfolds split: option.splits)
      from emit_reports [OF em] obtain ys where ys: "set ys \<subseteq> {it}" "\<forall>it \<in> set ys. f \<le> item_slot it"
        "case ro of Some r \<Rightarrow> reports dr ys r dr1
         | None \<Rightarrow> sends dr ys dr1 \<and> dr_emitted dr1 = dr_emitted dr + of_nat (length ys)" by blast
      show ?thesis
      proof (cases ro)
        case (Some r1)
        with unfold_drive "1.prems"(1) ys it show ?thesis by (intro exI [of _ ys]) auto
      next
        case None
        with unfold_drive "1.prems"(1) have d2: "drive E env f ?cs2 cache1 dr1 = (r, dr', cache')" by simp
        from "1.IH" [OF pa [symmetric] 3 refl refl refl c em [symmetric] None d2 src2 "1.prems"(3)]
        obtain zs where zs: "\<forall>it \<in> set zs. P it \<and> f \<le> item_slot it" "reports dr1 zs r dr'" by blast
        with ys None it show ?thesis
          by (intro exI [of _ "ys @ zs"])
            (auto simp: reports_def dest: sends_trans split: drive_result.splits)
      qed
    qed
  qed
qed

lemma drive_replay_reports:
  assumes "drive_replay E env plan cache p = (r, dr, cache')"
    and "reads_only E P"
  shows "\<exists>ys. (\<forall>it \<in> set ys. P it \<and> rp_from_slot plan \<le> item_slot it) \<and> reports (driver_new p) ys r dr"
proof -
  let ?cs = "map (\<lambda>ps. if ps = [] then None else Some (cursor_new ps)) (plans_per_stream plan)"
  have "sourced P ?cs" by (auto simp: sourced_def cursor_new_def)
  from drive_reports [OF assms(1) [unfolded drive_replay_def] this assms(2)] show ?thesis .
qed

section \<open>A pass\<close>

text \<open>No message that decodes has the last slot number there is.\<close>

definition no_last_slot :: "'bm reader_env \<Rightarrow> bool" where
  "no_last_slot E \<longleftrightarrow> (\<forall>b u. re_decode E b = Some u \<longrightarrow> extract_slot u \<noteq> Some (- 1))"

lemma no_last_slot_reads: "no_last_slot E \<Longrightarrow> reads_only E (\<lambda>it. item_slot it \<noteq> - 1)"
  by (auto simp: reads_only_def no_last_slot_def read_item_def decode_message_def item_slot_def Let_def
      split: sum.splits option.splits if_splits)

lemma plan_replay_from:
  "fst (plan_replay E cat parsed (Some f) ic) = Inr plan \<Longrightarrow> rp_from_slot plan = f"
  by (auto simp: plan_replay_def Let_def split: option.splits sum.splits prod.splits if_splits)

definition last_of :: "'bm follow_state \<Rightarrow> u64 option" where
  "last_of fw = rs_last_slot (fw_total fw)"

definition follow_ok :: "follow_context \<Rightarrow> 'bm follow_state \<Rightarrow> bool" where
  "follow_ok ctx fw \<longleftrightarrow> last_of fw \<noteq> Some (- 1) \<and> fw_deadline fw \<le> fw_now fw + fc_idle_timeout ctx \<and>
     (\<forall>plan. fw_plan fw = Some plan \<longrightarrow> last_of fw = None \<and>
        (\<forall>f. sf_from_slot (fc_filters ctx) = Some f \<longrightarrow> rp_from_slot plan = f))"

text \<open>The slots that may still be sent: those after the last one, or not before the requested start.\<close>

definition ahead :: "follow_context \<Rightarrow> u64 option \<Rightarrow> u64 \<Rightarrow> bool" where
  "ahead ctx lst s \<longleftrightarrow>
     (case lst of
        Some l \<Rightarrow> l < s
      | None \<Rightarrow> (case sf_from_slot (fc_filters ctx) of Some f \<Rightarrow> f \<le> s | None \<Rightarrow> True))"

definition new_last :: "u64 option \<Rightarrow> replay_item list \<Rightarrow> u64 option" where
  "new_last lst ys = (if ys = [] then lst else Some (item_slot (last ys)))"

lemma new_last_simps [simp]: "new_last lst [] = lst" "new_last (new_last lst xs) ys = new_last lst (xs @ ys)"
  by (auto simp: new_last_def)

lemma ahead_new_last:
  assumes "\<forall>it \<in> set ys. ahead ctx lst (item_slot it)" and "ahead ctx (new_last lst ys) s"
  shows "ahead ctx lst s \<and> (ys \<noteq> [] \<longrightarrow> item_slot (last ys) < s)"
proof (cases "ys = []")
  case False
  then have "ahead ctx lst (item_slot (last ys))" "item_slot (last ys) < s"
    using assms by (auto simp: ahead_def new_last_def)
  then show ?thesis by (auto simp: ahead_def split: option.splits)
qed (use assms in simp)

lemma follow_plan_ahead:
  assumes "follow_plan ctx ps fw = Inr plan" and "follow_ok ctx fw" and "rp_from_slot plan \<le> s"
  shows "ahead ctx (last_of fw) s"
proof (cases "last_of fw")
  case None
  show ?thesis
  proof (cases "sf_from_slot (fc_filters ctx)")
    case None
    with \<open>last_of fw = None\<close> show ?thesis by (simp add: ahead_def)
  next
    case (Some f)
    have "rp_from_slot plan = f"
    proof (cases "fw_plan fw")
      case None
      with assms(1) Some \<open>last_of fw = None\<close> show ?thesis
        by (auto simp: follow_plan_def resume_from_def last_of_def dest!: plan_replay_from)
    next
      case (Some p)
      with assms(1,2) \<open>sf_from_slot (fc_filters ctx) = Some f\<close> show ?thesis
        by (simp add: follow_plan_def follow_ok_def)
    qed
    with Some assms(3) \<open>last_of fw = None\<close> show ?thesis by (simp add: ahead_def)
  qed
next
  case (Some l)
  with assms(2) have l: "fw_plan fw = None" "l \<noteq> - 1" by (auto simp: follow_ok_def)
  with assms(1) Some have "rp_from_slot plan = l + 1"
    by (auto simp: follow_plan_def resume_from_def last_of_def dest!: plan_replay_from)
  with word_less_inc [OF l(2)] assms(3) Some show ?thesis by (simp add: ahead_def)
qed

text \<open>How a pass leaves the state when it sent \<open>ys\<close>.\<close>

definition passed :: "follow_context \<Rightarrow> 'bm pass \<Rightarrow> 'bm follow_state \<Rightarrow> replay_item list \<Rightarrow> follow_result option
    \<Rightarrow> 'bm follow_state \<Rightarrow> bool" where
  "passed ctx ps fw ys ro fw' \<longleftrightarrow>
     fw_now fw \<le> fw_now fw' \<and> fw_deadline fw \<le> fw_deadline fw' \<and>
     (case ro of
        None \<Rightarrow> last_of fw' = new_last (last_of fw) ys \<and> follow_ok ctx fw' \<and>
          (ys = [] \<longrightarrow> fw_deadline fw' = fw_deadline fw \<and> fw_now fw < fw_deadline fw \<and> fw_now fw < fw_now fw')
      | Some (Followed st) \<Rightarrow> rs_last_slot st = new_last (last_of fw) ys \<and>
          (rs_drained st \<longrightarrow> ps_stop ps \<or> ps_stop_asleep ps \<or> fw_deadline fw' \<le> fw_now fw')
      | Some _ \<Rightarrow> True)"

lemma last_slot_new_last:
  assumes "sends (driver_new p) ys dr" and "rs_last_slot st = dr_last_slot dr"
  shows "(case rs_last_slot st of Some s \<Rightarrow> Some s | None \<Rightarrow> l) = new_last l ys"
  using assms by (simp add: sends_def driver_new_def new_last_def)

lemma after_pass_passed:
  assumes "after_pass ctx ps st fw = (ro, fw')" and "fw_plan fw = None"
    and "fw_deadline fw \<le> fw_now fw + fc_idle_timeout ctx" and "new_last (last_of fw) ys \<noteq> Some (- 1)"
    and "(case rs_last_slot st of Some s \<Rightarrow> Some s | None \<Rightarrow> last_of fw) = new_last (last_of fw) ys"
    and "rs_drained st \<longrightarrow> rs_sent st = of_nat (length ys)"
  shows "passed ctx ps fw ys ro fw' \<and> fw_out fw' = fw_out fw"
proof -
  let ?tot = "add_pass (fw_total fw) st"
  have l: "rs_last_slot ?tot = new_last (last_of fw) ys"
    using assms(5) unfolding last_of_def by (simp add: add_pass_def)
  show ?thesis
    using assms(1-4,6) l
    by (auto simp: after_pass_def passed_def follow_ok_def last_of_def Let_def FOLLOW_POLL_INTERVAL_def not_le split: if_splits)
qed

lemma follow_pass_passed:
  assumes fp: "follow_pass describe ctx ps fw = (ro, fw')" and ok: "follow_ok ctx fw"
    and nl: "no_last_slot (ps_reader ps)"
  shows "\<exists>ys. messages (fw_out fw') = messages (fw_out fw) @ map deliver ys \<and>
    (\<forall>it \<in> set ys. ahead ctx (last_of fw) (item_slot it)) \<and> passed ctx ps fw ys ro fw'"
proof -
  have none: ?thesis if "messages (fw_out fw') = messages (fw_out fw)" "passed ctx ps fw [] ro fw'"
    using that by (intro exI [of _ "[]"]) simp
  show ?thesis
  proof (cases "ps_stop ps")
    case True
    with fp show ?thesis by (intro none) (auto simp: follow_pass_def passed_def last_of_def)
  next
    case False
    show ?thesis
    proof (cases "follow_plan ctx ps fw")
      case (Inl e)
      with fp False show ?thesis
        by (intro none; cases "ps_status ps") (auto simp: follow_pass_def passed_def last_of_def Let_def split: if_splits)
    next
      case (Inr plan)
      obtain r dr cache' where d: "drive_replay (ps_reader ps) (ps_drive ps) plan (ps_chunk_cache ps) (fw_pacer fw)
          = (r, dr, cache')" by (metis prod_cases3)
      from drive_replay_reports [OF d no_last_slot_reads [OF nl]] obtain ys where
        ys: "\<forall>it \<in> set ys. item_slot it \<noteq> - 1 \<and> rp_from_slot plan \<le> item_slot it"
        and rep: "reports (driver_new (fw_pacer fw)) ys r dr" by blast
      have ah: "\<forall>it \<in> set ys. ahead ctx (last_of fw) (item_slot it)"
        using ys follow_plan_ahead [OF Inr ok] by blast
      let ?fw = "fw\<lparr>fw_plan := None, fw_pacer := dr_pacer dr, fw_out := fw_out fw @ dr_out dr,
        fw_now := fw_now fw + ps_took ps\<rparr>"
      have msgs: "messages (fw_out ?fw) = messages (fw_out fw) @ map deliver ys"
        using rep by (simp add: reports_def sends_def driver_new_def)
      have l: "last_of ?fw = last_of fw" by (simp add: last_of_def)
      show ?thesis
      proof (cases r)
        case (Finished st)
        with fp False Inr d have ap: "after_pass ctx ps st ?fw = (ro, fw')" by (simp add: follow_pass_def Let_def)
        have "new_last (last_of ?fw) ys \<noteq> Some (- 1)" using ys ok l by (auto simp: new_last_def follow_ok_def)
        moreover have "fw_deadline ?fw \<le> fw_now ?fw + fc_idle_timeout ctx" using ok by (simp add: follow_ok_def)
        moreover have "(case rs_last_slot st of Some s \<Rightarrow> Some s | None \<Rightarrow> last_of ?fw) = new_last (last_of ?fw) ys"
          using last_slot_new_last [of "fw_pacer fw" ys dr st] rep Finished by (simp add: reports_def)
        moreover have "rs_drained st \<longrightarrow> rs_sent st = of_nat (length ys)"
          using rep Finished by (simp add: reports_def driver_new_def)
        ultimately have "passed ctx ps ?fw ys ro fw' \<and> fw_out fw' = fw_out ?fw"
          using after_pass_passed [OF ap] by simp
        then have "passed ctx ps fw ys ro fw'" "fw_out fw' = fw_out ?fw"
          using l by (auto simp: passed_def split: option.splits follow_result.splits)
        with ah msgs show ?thesis by auto
      next
        case (Failed x)
        with fp False Inr d have "ro = Some (FollowFailed x)" "fw' = ?fw" by (simp_all add: follow_pass_def Let_def)
        with ah msgs show ?thesis by (intro exI [of _ ys]) (simp add: passed_def)
      next
        case Waiting
        with fp False Inr d have "ro = Some FollowWaiting" "fw' = ?fw" by (simp_all add: follow_pass_def Let_def)
        with ah msgs show ?thesis by (intro exI [of _ ys]) (simp add: passed_def)
      next
        case Panicked
        with fp False Inr d have "ro = Some FollowPanicked" "fw' = ?fw" by (simp_all add: follow_pass_def Let_def)
        with ah msgs show ?thesis by (intro exI [of _ ys]) (simp add: passed_def)
      qed
    qed
  qed
qed

text \<open>
  A follower ends with \<open>out_of_range\<close> as soon as the oldest slot held lies after the slot it resumes
  from. That slot is the one after the last message \<open>sent\<close>: how far its passes have looked does not
  count, so a follower whose filters match seldom ends this way though it has missed nothing.
\<close>

lemma follow_swept_past:
  assumes "fw_plan fw = None" and "last_of fw = Some l" and "first_available (ps_catalog ps) (fc_filters ctx) = Some m"
    and "l + 1 < m" and "\<not> ps_stop ps" and "ps_status ps = StatusSent"
  shows "follow_pass describe ctx ps fw =
    (Some (Followed ((fw_total fw)\<lparr>rs_drained := False\<rparr>)),
     fw\<lparr>fw_out := fw_out fw @ [OutStatus (Status OutOfRange (plan_error_text describe (FromSlotTooOld (l + 1) m)))]\<rparr>)"
  using assms by (simp add: follow_pass_def follow_plan_def resume_from_def last_of_def plan_replay_def Let_def)

section \<open>A whole run\<close>

text \<open>Every batch lies after the last message of each batch before it.\<close>

definition batches :: "replay_item list list \<Rightarrow> bool" where
  "batches yss \<longleftrightarrow>
     sorted_wrt (\<lambda>xs ys. xs \<noteq> [] \<longrightarrow> (\<forall>it \<in> set ys. item_slot (last xs) < item_slot it)) yss"

text \<open>What decreases from pass to pass: the slots left, and then the time left.\<close>

definition rank :: "'bm follow_state \<Rightarrow> nat \<times> nat" where
  "rank fw = (case last_of fw of None \<Rightarrow> 2 ^ 64 | Some s \<Rightarrow> 2 ^ 64 - 1 - unat s, fw_deadline fw - fw_now fw)"

lemma wf_rank: "wf (inv_image (less_than <*lex*> less_than) rank)"
  by (intro wf_inv_image wf_lex_prod wf_less_than)

lemma passed_rank:
  assumes "passed ctx ps fw ys None fw'" and "\<forall>it \<in> set ys. ahead ctx (last_of fw) (item_slot it)"
  shows "(fw', fw) \<in> inv_image (less_than <*lex*> less_than) rank"
proof (cases "ys = []")
  case True
  with assms(1) show ?thesis by (auto simp: passed_def rank_def)
next
  case False
  then have l: "last_of fw' = Some (item_slot (last ys))" "ahead ctx (last_of fw) (item_slot (last ys))"
    using assms by (auto simp: passed_def new_last_def)
  have "fst (rank fw') < fst (rank fw)"
  proof (cases "last_of fw")
    case None
    with l show ?thesis by (simp add: rank_def)
  next
    case (Some s)
    with l have "unat s < unat (item_slot (last ys))" by (simp add: ahead_def word_less_nat_alt)
    with unat_u64_lt [of "item_slot (last ys)"] l Some show ?thesis by (simp add: rank_def)
  qed
  then show ?thesis by (cases "rank fw'"; cases "rank fw") simp
qed

text \<open>A run that ends with its pass \<open>n\<close> depends on the passes up to \<open>n\<close> only.\<close>

definition ends_at :: "(parse_error \<Rightarrow> string) \<Rightarrow> follow_context \<Rightarrow> (nat \<Rightarrow> 'bm pass) \<Rightarrow> nat \<Rightarrow> 'bm follow_state
    \<Rightarrow> nat \<Rightarrow> follow_result \<times> 'bm follow_state \<Rightarrow> bool" where
  "ends_at describe ctx passes k fw n res \<longleftrightarrow>
     k \<le> n \<and> (\<forall>passes'. (\<forall>i \<le> n. passes' i = passes i) \<longrightarrow> follow describe ctx passes' k fw = Some res)"

lemma ends_at_now: "follow_pass describe ctx (passes k) fw = (Some r, fw') \<Longrightarrow> ends_at describe ctx passes k fw k (r, fw')"
  by (simp add: ends_at_def follow.simps)

lemma ends_at_later:
  "follow_pass describe ctx (passes k) fw = (None, fw1) \<Longrightarrow> ends_at describe ctx passes (Suc k) fw1 n res \<Longrightarrow>
   ends_at describe ctx passes k fw n res"
  by (auto simp: ends_at_def follow.simps [of describe ctx _ k fw])

lemma follow_total:
  assumes "follow_ok ctx fw" and "\<forall>k. no_last_slot (ps_reader (passes k))"
  shows "\<exists>r fw' yss n. ends_at describe ctx passes k fw n (r, fw') \<and>
    messages (fw_out fw') = messages (fw_out fw) @ map deliver (concat yss) \<and> batches yss \<and>
    (\<forall>it \<in> set (concat yss). ahead ctx (last_of fw) (item_slot it)) \<and> fw_deadline fw \<le> fw_deadline fw' \<and>
    (\<forall>st. r = Followed st \<longrightarrow> rs_last_slot st = new_last (last_of fw) (concat yss) \<and>
       (rs_drained st \<longrightarrow> ps_stop (passes n) \<or> ps_stop_asleep (passes n) \<or> fw_deadline fw' \<le> fw_now fw'))"
  using assms(1)
proof (induction fw arbitrary: k rule: wf_induct_rule [OF wf_rank])
  case (1 fw)
  obtain ro fw1 where fp: "follow_pass describe ctx (passes k) fw = (ro, fw1)" by fastforce
  from follow_pass_passed [OF fp "1.prems"] assms(2) obtain ys where
    ys: "messages (fw_out fw1) = messages (fw_out fw) @ map deliver ys"
      "\<forall>it \<in> set ys. ahead ctx (last_of fw) (item_slot it)" "passed ctx (passes k) fw ys ro fw1" by blast
  show ?case
  proof (cases ro)
    case (Some r)
    have "\<forall>st. r = Followed st \<longrightarrow> rs_last_slot st = new_last (last_of fw) ys \<and>
       (rs_drained st \<longrightarrow> ps_stop (passes k) \<or> ps_stop_asleep (passes k) \<or> fw_deadline fw1 \<le> fw_now fw1)"
      using ys(3) Some by (auto simp: passed_def)
    moreover have "fw_deadline fw \<le> fw_deadline fw1" using ys(3) by (simp add: passed_def)
    moreover have "ends_at describe ctx passes k fw k (r, fw1)" using ends_at_now fp Some by metis
    ultimately show ?thesis using ys(1,2)
      by (intro exI [of _ r] exI [of _ fw1] exI [of _ "[ys]"] exI [of _ k]) (simp add: batches_def)
  next
    case None
    then have p: "passed ctx (passes k) fw ys None fw1" using ys(3) by simp
    then have l: "last_of fw1 = new_last (last_of fw) ys" "follow_ok ctx fw1" "fw_deadline fw \<le> fw_deadline fw1"
      by (auto simp: passed_def)
    from "1.IH" [OF passed_rank [OF p ys(2)] l(2), of "Suc k"] obtain r fw' yss n where
      ih: "ends_at describe ctx passes (Suc k) fw1 n (r, fw')"
        "messages (fw_out fw') = messages (fw_out fw1) @ map deliver (concat yss)" "batches yss"
        "\<forall>it \<in> set (concat yss). ahead ctx (new_last (last_of fw) ys) (item_slot it)" "fw_deadline fw1 \<le> fw_deadline fw'"
        "\<forall>st. r = Followed st \<longrightarrow> rs_last_slot st = new_last (new_last (last_of fw) ys) (concat yss) \<and>
          (rs_drained st \<longrightarrow> ps_stop (passes n) \<or> ps_stop_asleep (passes n) \<or> fw_deadline fw' \<le> fw_now fw')"
      unfolding l(1) by blast
    have far: "ahead ctx (last_of fw) (item_slot it) \<and> (ys \<noteq> [] \<longrightarrow> item_slot (last ys) < item_slot it)"
      if "it \<in> set (concat yss)" for it
      using ahead_new_last [OF ys(2)] ih(4) that by blast
    have "ys \<noteq> [] \<longrightarrow> item_slot (last ys) < item_slot it" if "zs \<in> set yss" "it \<in> set zs" for zs it
      using far [of it] that by (metis UN_I set_concat)
    with ih(3) have "batches (ys # yss)" unfolding batches_def by simp
    moreover have "\<forall>it \<in> set (concat (ys # yss)). ahead ctx (last_of fw) (item_slot it)"
      using far ys(2) by (metis Un_iff concat.simps(2) set_append)
    moreover have "ends_at describe ctx passes k fw n (r, fw')" using ends_at_later fp None ih(1) by metis
    ultimately show ?thesis using ih ys(1) l(3)
      by (intro exI [of _ r] exI [of _ fw'] exI [of _ "ys # yss"] exI [of _ n]) (simp del: set_concat)
  qed
qed

lemma follow_start_ok:
  assumes "plan_replay E cat (fc_filters ctx) (sf_from_slot (fc_filters ctx)) ic = (Inr plan, ic')"
  shows "follow_ok ctx (follow_start ctx plan now)"
  using plan_replay_from [of E cat "fc_filters ctx" _ ic plan] assms
  by (auto simp: follow_ok_def follow_start_def last_of_def)

section \<open>Properties\<close>


text \<open>C15: Following always ends. Whatever the catalogs, the clock and the client do, the loop comes to
  an end after finitely many passes: there is a last pass \<open>n\<close>, and nothing after it is asked for. When
  it ends with everything sent, that pass was stopped or at least the idle timeout has passed since the
  session began. (A send that waits for ever is an end of its own, \<open>FollowWaiting\<close>.)\<close>

theorem follow_always_ends:
  assumes "plan_replay E cat (fc_filters ctx) (sf_from_slot (fc_filters ctx)) ic = (Inr plan, ic')"
    and "\<forall>k. no_last_slot (ps_reader (passes k))"
  shows "\<exists>n r fw.
    (\<forall>passes'. (\<forall>i \<le> n. passes' i = passes i) \<longrightarrow> follow_replay describe ctx passes' plan now = Some (r, fw)) \<and>
    (\<forall>st. r = Followed st \<and> rs_drained st \<longrightarrow>
       ps_stop (passes n) \<or> ps_stop_asleep (passes n) \<or> now + fc_idle_timeout ctx \<le> fw_now fw)"
proof -
  let ?fw = "follow_start ctx plan now"
  obtain n r fw where fw: "ends_at describe ctx passes 0 ?fw n (r, fw)" "fw_deadline ?fw \<le> fw_deadline fw"
    "\<forall>st. r = Followed st \<and> rs_drained st \<longrightarrow>
       ps_stop (passes n) \<or> ps_stop_asleep (passes n) \<or> fw_deadline fw \<le> fw_now fw"
    using follow_total [OF follow_start_ok [where now = now, OF assms(1)] assms(2), where describe = describe and k = 0]
    by blast
  moreover from fw(2) have "now + fc_idle_timeout ctx \<le> fw_deadline fw" by (simp add: follow_start_def)
  ultimately show ?thesis
    by (intro exI [of _ n] exI [of _ r] exI [of _ fw]) (auto simp: follow_replay_def ends_at_def intro: order_trans)
qed

definition follow_example :: follow_context where
  "follow_example = \<lparr>fc_filters = delivery_filters, fc_pacing = default_pacing\<lparr>pacing_enabled := False\<rparr>,
     fc_idle_timeout = 60000000000\<rparr>"

definition pass_example :: "u32 list pass" where
  "pass_example = \<lparr>ps_stop = False, ps_catalog = delivery_catalog, ps_index_cache = cache_new,
     ps_reader = delivery_env, ps_chunk_cache = cache_new, ps_drive = calm_env, ps_status = StatusSent,
     ps_took = 5, ps_late = 1, ps_stop_asleep = False\<rparr>"

lemma delivery_no_last_slot: "no_last_slot delivery_env"
  by (simp add: no_last_slot_def delivery_env_def vote_msg_def extract_slot_def)

lemma follow_always_ends_witness:
  "\<exists>plan ic' r fw. plan_replay delivery_env delivery_catalog delivery_filters None cache_new = (Inr plan, ic') \<and>
     follow_replay (\<lambda>_. []) follow_example (\<lambda>_. pass_example) plan 0 = Some (r, fw) \<and>
     (\<forall>st. r = Followed st \<and> rs_drained st \<longrightarrow> 60000000000 \<le> fw_now fw)"
proof -
  obtain plan ic' where plan: "plan_replay delivery_env delivery_catalog delivery_filters None cache_new = (Inr plan, ic')"
    using delivery_planned by blast
  have "plan_replay delivery_env delivery_catalog (fc_filters follow_example) (sf_from_slot (fc_filters follow_example))
      cache_new = (Inr plan, ic')"
    using plan by (simp add: follow_example_def delivery_filters_def)
  from follow_always_ends [OF this, where passes = "\<lambda>_. pass_example" and describe = "\<lambda>_. []" and now = 0]
    delivery_no_last_slot obtain r fw where
    "follow_replay (\<lambda>_. []) follow_example (\<lambda>_. pass_example) plan 0 = Some (r, fw)"
    "\<forall>st. r = Followed st \<and> rs_drained st \<longrightarrow> fc_idle_timeout follow_example \<le> fw_now fw"
    by (auto simp: pass_example_def)
  with plan show ?thesis by (auto simp: follow_example_def)
qed


end
