(* ===== verification/Grpc.thy ===== *)
theory Grpc
  imports Planning Pacing
begin

text \<open>
  The gRPC service (\<open>sillage-reader/src/grpc.rs\<close>): authentication, the registry of connections with
  its caps, the replay speed header, \<open>subscribe\<close> up to the start of the session, and the unary calls.

  A request is what the handlers read of it: the metadata values that are present and readable.
  The registry is behind one lock, so each critical section is a definition, and the connections
  interleave as a sequence of them (\<open>reachable\<close>). The connection counter, a static of the source, is
  a field of the service.
\<close>

section \<open>State\<close>

datatype client_id = Anonymous | Token nat

record customer_handle =
  h_customer_id :: string
  h_client :: client_id
  h_connected_at :: nat
  h_filter_summary :: string

record connection_limits =
  lim_total :: nat
  lim_per_token :: nat

record service_config =
  sc_auth_tokens :: "string list"
  sc_channel_capacity :: nat
  sc_follow_idle_timeout :: nat
  sc_limits :: connection_limits
  sc_pacing :: pacing_config

record geyser_service =
  sv_catalog :: shared_catalog
  sv_cfg :: service_config
  sv_customers :: "customer_handle list"
  sv_counter :: u64

definition service_new :: "shared_catalog \<Rightarrow> service_config \<Rightarrow> u64 \<Rightarrow> geyser_service" where
  "service_new catalog cfg n = \<lparr>sv_catalog = catalog, sv_cfg = cfg, sv_customers = [], sv_counter = n\<rparr>"

definition next_customer_id :: "geyser_service \<Rightarrow> string \<times> geyser_service" where
  "next_customer_id sv = (''customer-'' @ dec (unat (sv_counter sv)), sv\<lparr>sv_counter := sv_counter sv + 1\<rparr>)"

definition active_connections :: "geyser_service \<Rightarrow> bool \<Rightarrow> nat" where
  "active_connections sv locked = (if locked then 0 else length (sv_customers sv))"

definition latest_slot :: "geyser_service \<Rightarrow> u64 option" where
  "latest_slot sv = max_opt (List.map_filter (\<lambda>(_, _, _, max_end). max_end) (summary (snapshot (sv_catalog sv))))"

definition first_available_slot :: "geyser_service \<Rightarrow> u64 option" where
  "first_available_slot sv =
     min_opt (List.map_filter (\<lambda>(_, _, min_start, _). min_start) (summary (snapshot (sv_catalog sv))))"

section \<open>Authentication\<close>

text \<open>The readable values of \<open>x-token\<close>, \<open>x-token-bin\<close> and \<open>x-replay-speed\<close>.\<close>

record metadata =
  md_token :: "string option"
  md_token_bin :: "string option"
  md_replay_speed :: "string option"

fun position :: "'a \<Rightarrow> 'a list \<Rightarrow> nat option" where
  "position x [] = None"
| "position x (y # ys) = (if y = x then Some 0 else map_option Suc (position x ys))"

definition validate_auth :: "geyser_service \<Rightarrow> metadata \<Rightarrow> status + client_id" where
  "validate_auth sv md =
     (if sc_auth_tokens (sv_cfg sv) = [] then Inr Anonymous
      else (case (case md_token md of Some t \<Rightarrow> Some t | None \<Rightarrow> md_token_bin md) of
              None \<Rightarrow> Inl (Status Unauthenticated ''missing x-token header'')
            | Some token \<Rightarrow>
                (case position token (sc_auth_tokens (sv_cfg sv)) of
                   Some idx \<Rightarrow> Inr (Token idx)
                 | None \<Rightarrow> Inl (Status PermissionDenied ''invalid token''))))"

section \<open>Admission\<close>

definition admit :: "customer_handle \<Rightarrow> geyser_service \<Rightarrow> (status + unit) \<times> geyser_service" where
  "admit handle sv =
     (let customers = sv_customers sv;
          limits = sc_limits (sv_cfg sv)
      in if lim_total limits \<le> length customers
         then (Inl (Status ResourceExhausted
                (''server is at its connection limit ('' @ dec (lim_total limits) @ '')'')), sv)
         else
           let per_token = length (filter (\<lambda>c. h_client c = h_client handle) customers)
           in if h_client handle \<noteq> Anonymous \<and> lim_per_token limits \<le> per_token
              then (Inl (Status ResourceExhausted
                     (''token is at its connection limit ('' @ dec (lim_per_token limits) @ '')'')), sv)
              else (Inr (), sv\<lparr>sv_customers := customers @ [handle]\<rparr>))"

definition remove_from_registry :: "string \<Rightarrow> geyser_service \<Rightarrow> geyser_service" where
  "remove_from_registry customer_id sv =
     sv\<lparr>sv_customers := filter (\<lambda>c. h_customer_id c \<noteq> customer_id) (sv_customers sv)\<rparr>"

section \<open>Replay speed\<close>

text \<open>The doubles \<open>0.1\<close>, \<open>1000.0\<close> and \<open>f64::EPSILON\<close>.\<close>

definition MIN_SPEED :: f64 where "MIN_SPEED = Finite (3602879701896397 / 36028797018963968)"
definition MAX_SPEED :: f64 where "MAX_SPEED = Finite 1000"
definition EPSILON :: f64 where "EPSILON = Finite (1 / 4503599627370496)"

text \<open>\<open>parse_f64\<close> is the number parser of the standard library; NaN is one of its values.\<close>

definition parse_replay_speed :: "(string \<Rightarrow> f64 option) \<Rightarrow> metadata \<Rightarrow> f64 \<Rightarrow> f64" where
  "parse_replay_speed parse_f64 md default_speed =
     (case md_replay_speed md of
        None \<Rightarrow> default_speed
      | Some str \<Rightarrow>
          (case parse_f64 str of
             None \<Rightarrow> default_speed
           | Some speed \<Rightarrow>
               if f64_less speed MIN_SPEED then MIN_SPEED
               else if f64_less MAX_SPEED speed then MAX_SPEED
               else speed))"

definition pacing_for :: "(string \<Rightarrow> f64 option) \<Rightarrow> geyser_service \<Rightarrow> metadata \<Rightarrow> pacing_config" where
  "pacing_for parse_f64 sv md =
     (let pacing = sc_pacing (sv_cfg sv);
          header_speed = parse_replay_speed parse_f64 md (speed_multiplier pacing)
      in if f64_less EPSILON (f64_abs (f64_sub header_speed (speed_multiplier pacing)))
         then pacing\<lparr>speed_multiplier := header_speed\<rparr> else pacing)"

section \<open>Subscribe\<close>

text \<open>What comes of waiting five seconds for the first request.\<close>

datatype first_message = FirstTimeout | FirstError string | FirstClosed | First subscribe_request

record customer =
  cu_handle :: customer_handle
  cu_parsed :: subscription_filters
  cu_capacity :: nat
  cu_pacing :: pacing_config
  cu_follow_idle_timeout :: nat

definition first_request :: "first_message \<Rightarrow> status + subscribe_request" where
  "first_request m =
     (case m of
        FirstTimeout \<Rightarrow> Inl (Status DeadlineExceeded ''did not receive first SubscribeRequest within 5s'')
      | FirstError e \<Rightarrow> Inl (Status Internal (''inbound stream error: '' @ e))
      | FirstClosed \<Rightarrow> Inl (Status InvalidArgument ''client closed stream before sending first request'')
      | First r \<Rightarrow> Inr r)"

definition subscribe :: "(string \<Rightarrow> f64 option) \<Rightarrow> metadata \<Rightarrow> first_message \<Rightarrow> nat \<Rightarrow> geyser_service
    \<Rightarrow> (status + customer) \<times> geyser_service" where
  "subscribe parse_f64 md m now sv =
     (case validate_auth sv md of
        Inl e \<Rightarrow> (Inl e, sv)
      | Inr client \<Rightarrow>
          (case next_customer_id sv of (customer_id, sv) \<Rightarrow>
             (case first_request m of
                Inl e \<Rightarrow> (Inl e, sv)
              | Inr req \<Rightarrow>
                  (case parse_subscribe_request req of
                     Inl e \<Rightarrow> (Inl e, sv)
                   | Inr parsed \<Rightarrow>
                       let pacing = pacing_for parse_f64 sv md;
                           handle = \<lparr>h_customer_id = customer_id, h_client = client, h_connected_at = now,
                                     h_filter_summary = filters_summary parsed\<rparr>
                       in (case admit handle sv of
                             (Inl e, sv) \<Rightarrow> (Inl e, sv)
                           | (Inr _, sv) \<Rightarrow>
                               (Inr \<lparr>cu_handle = handle, cu_parsed = parsed,
                                     cu_capacity = sc_channel_capacity (sv_cfg sv), cu_pacing = pacing,
                                     cu_follow_idle_timeout = sc_follow_idle_timeout (sv_cfg sv)\<rparr>, sv))))))"

section \<open>Unary calls\<close>

definition with_auth :: "geyser_service \<Rightarrow> metadata \<Rightarrow> status + 'a \<Rightarrow> status + 'a" where
  "with_auth sv md r = (case validate_auth sv md of Inl e \<Rightarrow> Inl e | Inr _ \<Rightarrow> r)"

definition subscribe_deshred :: "status + unit" where
  "subscribe_deshred =
     Inl (Status Unimplemented ''deshred replay is not supported; writer indexes BlockMeta only'')"

definition subscribe_replay_info :: "geyser_service \<Rightarrow> metadata \<Rightarrow> status + u64 option" where
  "subscribe_replay_info sv md = with_auth sv md (Inr (first_available_slot sv))"

definition grpc_ping :: "geyser_service \<Rightarrow> metadata \<Rightarrow> 32 word \<Rightarrow> status + 32 word" where
  "grpc_ping sv md n = with_auth sv md (Inr (n + 1))"

definition get_latest_blockhash :: "status + unit" where
  "get_latest_blockhash =
     Inl (Status Unimplemented ''reader has no live chain state; query a validator for blockhash'')"

definition get_slot :: "geyser_service \<Rightarrow> metadata \<Rightarrow> status + u64" where
  "get_slot sv md = with_auth sv md
     (case latest_slot sv of Some slot \<Rightarrow> Inr slot | None \<Rightarrow> Inl (Status NotFound ''no chunks available''))"

definition get_block_height :: "geyser_service \<Rightarrow> metadata \<Rightarrow> status + u64" where
  "get_block_height sv md = with_auth sv md
     (case latest_slot sv of Some slot \<Rightarrow> Inr slot | None \<Rightarrow> Inl (Status NotFound ''no chunks available''))"

definition is_blockhash_valid :: "status + unit" where
  "is_blockhash_valid =
     Inl (Status Unimplemented ''reader has no live chain state; query a validator for blockhash validity'')"

text \<open>\<open>version\<close> is the package version that the compiler inserts.\<close>

definition get_version :: "string \<Rightarrow> geyser_service \<Rightarrow> metadata \<Rightarrow> status + string" where
  "get_version version sv md = with_auth sv md
     (Inr (''{'' @ [CHR 34] @ ''name'' @ [CHR 34] @ '':'' @ [CHR 34] @ ''sillage-reader'' @ [CHR 34] @ '','' @
           [CHR 34] @ ''version'' @ [CHR 34] @ '':'' @ [CHR 34] @ version @ [CHR 34] @ ''}''))"

section \<open>Reachable registries\<close>

inductive reachable :: "geyser_service \<Rightarrow> nat \<Rightarrow> geyser_service \<Rightarrow> bool" for sv0 where
  start: "reachable sv0 0 sv0"
| subscribed: "reachable sv0 n sv \<Longrightarrow> subscribe parse_f64 md m now sv = (r, sv') \<Longrightarrow> reachable sv0 (Suc n) sv'"
| left: "reachable sv0 n sv \<Longrightarrow> reachable sv0 n (remove_from_registry customer_id sv)"
| published: "reachable sv0 n sv \<Longrightarrow> reachable sv0 n (sv\<lparr>sv_catalog := store_catalog (sv_catalog sv) cat\<rparr>)"

definition per_client :: "geyser_service \<Rightarrow> client_id \<Rightarrow> nat" where
  "per_client sv client = length (filter (\<lambda>c. h_client c = client) (sv_customers sv))"

fun client_ok :: "string list \<Rightarrow> client_id \<Rightarrow> bool" where
  "client_ok tokens Anonymous = (tokens = [])"
| "client_ok tokens (Token i) = (i < length tokens)"

definition registry_ok :: "geyser_service \<Rightarrow> bool" where
  "registry_ok sv \<longleftrightarrow>
     length (sv_customers sv) \<le> lim_total (sc_limits (sv_cfg sv)) \<and>
     (\<forall>i. per_client sv (Token i) \<le> lim_per_token (sc_limits (sv_cfg sv))) \<and>
     (\<forall>c \<in> set (sv_customers sv). client_ok (sc_auth_tokens (sv_cfg sv)) (h_client c))"

lemma position_Some: "position x xs = Some i \<longleftrightarrow> i < length xs \<and> xs ! i = x \<and> (\<forall>j < i. xs ! j \<noteq> x)"
proof (induction xs arbitrary: i)
  case (Cons y ys)
  then show ?case by (cases i) (auto simp: less_Suc_eq_0_disj)
qed simp

lemma position_None: "position x xs = None \<longleftrightarrow> x \<notin> set xs"
  by (induction xs) auto

lemma admit_cases:
  "admit handle sv = (r, sv') \<Longrightarrow>
   (case r of
      Inl e \<Rightarrow> sv' = sv \<and> code_of e = ResourceExhausted \<and>
        (lim_total (sc_limits (sv_cfg sv)) \<le> length (sv_customers sv) \<or>
         (\<exists>i. h_client handle = Token i \<and> lim_per_token (sc_limits (sv_cfg sv)) \<le> per_client sv (Token i)))
    | Inr _ \<Rightarrow> sv' = sv\<lparr>sv_customers := sv_customers sv @ [handle]\<rparr> \<and>
        length (sv_customers sv) < lim_total (sc_limits (sv_cfg sv)) \<and>
        (\<forall>i. h_client handle = Token i \<longrightarrow> per_client sv (Token i) < lim_per_token (sc_limits (sv_cfg sv))))"
  by (cases "h_client handle") (auto simp: admit_def Let_def per_client_def split: if_splits)

lemma subscribe_cases:
  assumes "subscribe parse_f64 md m now sv = (r, sv')"
  shows "sv_cfg sv' = sv_cfg sv \<and>
    (case r of
       Inl e \<Rightarrow> sv_customers sv' = sv_customers sv \<and> (sv_counter sv' = sv_counter sv \<or> sv_counter sv' = sv_counter sv + 1)
     | Inr cu \<Rightarrow> sv_customers sv' = sv_customers sv @ [cu_handle cu] \<and> sv_counter sv' = sv_counter sv + 1 \<and>
         h_customer_id (cu_handle cu) = ''customer-'' @ dec (unat (sv_counter sv)) \<and>
         validate_auth sv md = Inr (h_client (cu_handle cu)) \<and> cu_pacing cu = pacing_for parse_f64 sv md \<and>
         length (sv_customers sv) < lim_total (sc_limits (sv_cfg sv)) \<and>
         (\<forall>i. h_client (cu_handle cu) = Token i \<longrightarrow> per_client sv (Token i) < lim_per_token (sc_limits (sv_cfg sv))))"
proof (cases "validate_auth sv md")
  case (Inl e)
  with assms show ?thesis by (auto simp: subscribe_def)
next
  case (Inr client)
  let ?sv = "sv\<lparr>sv_counter := sv_counter sv + 1\<rparr>"
  have pf: "pacing_for parse_f64 ?sv md = pacing_for parse_f64 sv md" by (simp add: pacing_for_def)
  show ?thesis
  proof (cases "case first_request m of Inl e \<Rightarrow> Inl e | Inr req \<Rightarrow> parse_subscribe_request req")
    case (Inl e)
    with Inr assms show ?thesis by (auto simp: subscribe_def next_customer_id_def split: sum.splits)
  next
    case (Inr parsed)
    then obtain req where req: "first_request m = Inr req" "parse_subscribe_request req = Inr parsed"
      by (auto split: sum.splits)
    let ?h = "\<lparr>h_customer_id = ''customer-'' @ dec (unat (sv_counter sv)), h_client = client, h_connected_at = now,
      h_filter_summary = filters_summary parsed\<rparr>"
    obtain q sv2 where q: "admit ?h ?sv = (q, sv2)" by fastforce
    note ad = admit_cases [OF q]
    show ?thesis
    proof (cases q)
      case (Inl e)
      with assms \<open>validate_auth sv md = Inr client\<close> req q ad show ?thesis
        by (auto simp: subscribe_def next_customer_id_def Let_def)
    next
      case (Inr u)
      with assms \<open>validate_auth sv md = Inr client\<close> req q ad pf show ?thesis
        by (auto simp: subscribe_def next_customer_id_def Let_def per_client_def)
    qed
  qed
qed

lemma validate_auth_client:
  "validate_auth sv md = Inr client \<Longrightarrow> client_ok (sc_auth_tokens (sv_cfg sv)) client"
  by (auto simp: validate_auth_def position_Some split: if_splits option.splits)

lemma registry_ok_subscribe:
  assumes "registry_ok sv" and "subscribe parse_f64 md m now sv = (r, sv')"
  shows "registry_ok sv'"
proof -
  note cases = subscribe_cases [OF assms(2)]
  show ?thesis
  proof (cases r)
    case (Inl e)
    with cases assms(1) show ?thesis by (simp add: registry_ok_def per_client_def)
  next
    case (Inr cu)
    let ?h = "cu_handle cu"
    from cases Inr have c: "sv_cfg sv' = sv_cfg sv" "sv_customers sv' = sv_customers sv @ [?h]"
      "validate_auth sv md = Inr (h_client ?h)" "length (sv_customers sv) < lim_total (sc_limits (sv_cfg sv))"
      "\<forall>i. h_client ?h = Token i \<longrightarrow> per_client sv (Token i) < lim_per_token (sc_limits (sv_cfg sv))" by auto
    have "per_client sv' (Token i) \<le> lim_per_token (sc_limits (sv_cfg sv))" for i
      using assms(1) c(2,5) by (auto simp: registry_ok_def per_client_def Suc_le_eq)
    with assms(1) c validate_auth_client [OF c(3)] show ?thesis by (simp add: registry_ok_def)
  qed
qed

lemma length_filter_twice: "length (filter P (filter Q xs)) \<le> length (filter P xs)"
  by (induction xs) auto

lemma registry_ok_remove: "registry_ok sv \<Longrightarrow> registry_ok (remove_from_registry customer_id sv)"
  unfolding registry_ok_def remove_from_registry_def per_client_def
  by (auto intro: order_trans [OF length_filter_le] order_trans [OF length_filter_twice] simp del: filter_filter)

lemma registry_ok_reachable:
  "reachable sv0 n sv \<Longrightarrow> registry_ok sv0 \<Longrightarrow> registry_ok sv"
proof (induction rule: reachable.induct)
  case (published n sv cat)
  then show ?case by (simp add: registry_ok_def per_client_def)
qed (auto intro: registry_ok_subscribe registry_ok_remove)

lemma reachable_cfg: "reachable sv0 n sv \<Longrightarrow> sv_cfg sv = sv_cfg sv0"
  by (induction rule: reachable.induct) (auto simp: remove_from_registry_def dest: subscribe_cases)

text \<open>The identifiers given out so far.\<close>

definition ids_ok :: "nat \<Rightarrow> geyser_service \<Rightarrow> bool" where
  "ids_ok n sv \<longleftrightarrow>
     unat (sv_counter sv) \<le> n \<and> distinct (map h_customer_id (sv_customers sv)) \<and>
     h_customer_id ` set (sv_customers sv) \<subseteq> (\<lambda>k. ''customer-'' @ dec k) ` {..<unat (sv_counter sv)}"

lemma dec_inj: "dec a = dec b \<Longrightarrow> a < 2 ^ 64 \<Longrightarrow> b < 2 ^ 64 \<Longrightarrow> a = b"
  by (metis parse_digits_dec option.inject)

lemma ids_ok_reachable:
  "reachable sv0 n sv \<Longrightarrow> ids_ok 0 sv0 \<Longrightarrow> n < 2 ^ 64 \<Longrightarrow> ids_ok n sv"
proof (induction rule: reachable.induct)
  case (subscribed n sv parse_f64 md m now r sv')
  then have ih: "ids_ok n sv" and n: "Suc n < 2 ^ 64" by auto
  then have small: "unat (sv_counter sv) < 2 ^ 64 - 1" by (simp add: ids_ok_def)
  then have inc: "unat (sv_counter sv + 1) = Suc (unat (sv_counter sv))" by (intro unat_inc u64_not_max)
  note cases = subscribe_cases [OF subscribed.hyps(2)]
  show ?case
  proof (cases r)
    case (Inl e)
    with cases ih inc show ?thesis by (auto simp: ids_ok_def)
  next
    case (Inr cu)
    with cases have c: "sv_customers sv' = sv_customers sv @ [cu_handle cu]" "sv_counter sv' = sv_counter sv + 1"
      "h_customer_id (cu_handle cu) = ''customer-'' @ dec (unat (sv_counter sv))" by auto
    have "h_customer_id (cu_handle cu) \<notin> h_customer_id ` set (sv_customers sv)"
    proof
      assume "h_customer_id (cu_handle cu) \<in> h_customer_id ` set (sv_customers sv)"
      then obtain k where k: "k < unat (sv_counter sv)" "dec (unat (sv_counter sv)) = dec k"
        using ih c(3) by (auto simp: ids_ok_def)
      with dec_inj [OF k(2)] small show False by simp
    qed
    with ih c inc show ?thesis by (auto simp: ids_ok_def)
  qed
next
  case (left n sv customer_id)
  then have ih: "ids_ok n sv" by simp
  have "h_customer_id ` {c \<in> set (sv_customers sv). h_customer_id c \<noteq> customer_id} \<subseteq> h_customer_id ` set (sv_customers sv)"
    by blast
  with ih show ?case
    unfolding ids_ok_def remove_from_registry_def by (simp add: distinct_map_filter) (metis (no_types, lifting) subset_trans)
next
  case start
  then show ?case by blast
next
  case (published n sv cat)
  then have "ids_ok n sv" by simp
  then show ?case by (simp add: ids_ok_def)
qed

section \<open>Properties\<close>

text \<open>C35: The connection caps hold at every moment, however subscriptions, disconnections and catalog
  updates interleave: never more connections than the total cap, never more of one token than its cap,
  every registered caller is one of a configured token (or authentication is off), and no two
  connections have the same identity, so a disconnection takes only its own entry away.\<close>

theorem connection_caps:
  assumes "reachable (service_new catalog cfg 0) n sv" and "n < 2 ^ 64"
  shows "length (sv_customers sv) \<le> lim_total (sc_limits cfg) \<and>
    length (filter (\<lambda>c. h_client c = Token i) (sv_customers sv)) \<le> lim_per_token (sc_limits cfg) \<and>
    (\<forall>c \<in> set (sv_customers sv). client_ok (sc_auth_tokens cfg) (h_client c)) \<and>
    distinct (map h_customer_id (sv_customers sv))"
proof -
  have "registry_ok sv"
    using registry_ok_reachable [OF assms(1)] by (simp add: registry_ok_def service_new_def per_client_def)
  moreover have "ids_ok n sv"
    using ids_ok_reachable [OF assms(1) _ assms(2)] by (simp add: ids_ok_def service_new_def)
  moreover have "sv_cfg sv = cfg" using reachable_cfg [OF assms(1)] by (simp add: service_new_def)
  ultimately show ?thesis by (simp add: registry_ok_def ids_ok_def per_client_def)
qed

definition example_service :: geyser_service where
  "example_service = service_new \<lparr>current = (\<lambda>_. None)\<rparr>
     \<lparr>sc_auth_tokens = [''a'', ''b''], sc_channel_capacity = 8, sc_follow_idle_timeout = 60,
      sc_limits = \<lparr>lim_total = 2, lim_per_token = 1\<rparr>, sc_pacing = default_pacing\<rparr> 0"

lemma connection_caps_witness:
  "\<exists>r sv. subscribe (\<lambda>_. None) \<lparr>md_token = Some ''b'', md_token_bin = None, md_replay_speed = None\<rparr>
      (First (default_request\<lparr>rq_blocks_meta := [''x'']\<rparr>)) 7 example_service = (Inr r, sv) \<and>
    length (sv_customers sv) = 1 \<and> client_ok [''a'', ''b''] (h_client (hd (sv_customers sv)))"
proof -
  let ?md = "\<lparr>md_token = Some ''b'', md_token_bin = None, md_replay_speed = None\<rparr>"
  obtain r sv where s: "subscribe (\<lambda>_. None) ?md (First (default_request\<lparr>rq_blocks_meta := [''x'']\<rparr>)) 7 example_service = (Inr r, sv)"
    and l: "length (sv_customers sv) = 1"
    by (simp add: subscribe_def validate_auth_def example_service_def service_new_def next_customer_id_def first_request_def
        parse_subscribe_request_def default_request_def admit_def Let_def)
  have "reachable example_service (Suc 0) sv" by (rule reachable.subscribed [OF reachable.start s])
  from connection_caps [OF this [unfolded example_service_def], where i = 1] l s show ?thesis
    by (cases "sv_customers sv") auto
qed

text \<open>C36: Authentication is exact. With no tokens configured every caller is anonymous. Otherwise a
  caller is accepted exactly when it presents a configured token, and is known by the first position of
  that token; without a token it is unauthenticated and with another one it is denied, and then no
  call tells it anything or changes the service.\<close>

theorem authentication_exact:
  "case validate_auth sv md of
     Inr Anonymous \<Rightarrow> sc_auth_tokens (sv_cfg sv) = []
   | Inr (Token i) \<Rightarrow> i < length (sc_auth_tokens (sv_cfg sv)) \<and>
       (case md_token md of Some t \<Rightarrow> Some t | None \<Rightarrow> md_token_bin md) = Some (sc_auth_tokens (sv_cfg sv) ! i) \<and>
       sc_auth_tokens (sv_cfg sv) ! i \<notin> set (take i (sc_auth_tokens (sv_cfg sv)))
   | Inl e \<Rightarrow> sc_auth_tokens (sv_cfg sv) \<noteq> [] \<and>
       (case (case md_token md of Some t \<Rightarrow> Some t | None \<Rightarrow> md_token_bin md) of
          None \<Rightarrow> code_of e = Unauthenticated
        | Some t \<Rightarrow> t \<notin> set (sc_auth_tokens (sv_cfg sv)) \<and> code_of e = PermissionDenied) \<and>
       subscribe parse_f64 md m now sv = (Inl e, sv) \<and> subscribe_replay_info sv md = Inl e \<and>
       get_slot sv md = Inl e \<and> get_block_height sv md = Inl e \<and> grpc_ping sv md k = Inl e \<and>
       get_version v sv md = Inl e"
proof -
  let ?t = "case md_token md of Some t \<Rightarrow> Some t | None \<Rightarrow> md_token_bin md" and ?ts = "sc_auth_tokens (sv_cfg sv)"
  have early: "validate_auth sv md = Inl e \<Longrightarrow>
      subscribe parse_f64 md m now sv = (Inl e, sv) \<and> subscribe_replay_info sv md = Inl e \<and>
      get_slot sv md = Inl e \<and> get_block_height sv md = Inl e \<and> grpc_ping sv md k = Inl e \<and>
      get_version v sv md = Inl e" for e
    by (simp add: subscribe_def subscribe_replay_info_def get_slot_def get_block_height_def grpc_ping_def
        get_version_def with_auth_def)
  show ?thesis
  proof (cases "?ts = []")
    case True
    then show ?thesis by (simp add: validate_auth_def)
  next
    case ts: False
    show ?thesis
    proof (cases ?t)
      case None
      with ts have "validate_auth sv md = Inl (Status Unauthenticated ''missing x-token header'')"
        by (simp add: validate_auth_def)
      with early None ts show ?thesis by simp
    next
      case (Some t)
      show ?thesis
      proof (cases "position t ?ts")
        case None
        with Some ts have "validate_auth sv md = Inl (Status PermissionDenied ''invalid token'')"
          by (simp add: validate_auth_def)
        with early Some ts None show ?thesis by (simp add: position_None)
      next
        case (Some i)
        with \<open>?t = Some t\<close> ts have "validate_auth sv md = Inr (Token i)" by (simp add: validate_auth_def)
        with \<open>?t = Some t\<close> Some show ?thesis by (auto simp: position_Some in_set_conv_nth)
      qed
    qed
  qed
qed

text \<open>C37: The speed of a session is sane whatever the client asks for: with accepted settings it is a
  positive number, and it is the configured one unless it lies between 0.1 and 1000. A header that is
  no number, or is NaN, changes nothing.\<close>

theorem session_speed_bounds:
  assumes "validate is_addr st = Inr ()" and "sc_pacing (sv_cfg sv) = r_pacing (s_reader st)"
  shows "\<exists>s. speed_multiplier (pacing_for parse_f64 sv md) = Finite s \<and> 0 < s \<and>
    (pacing_for parse_f64 sv md = r_pacing (s_reader st) \<or>
     3602879701896397 / 36028797018963968 \<le> s \<and> s \<le> 1000)"
proof -
  obtain s where s: "speed_multiplier (sc_pacing (sv_cfg sv)) = Finite s" "0 < s"
    using accepted_speed [OF assms(1)] assms(2) by auto
  define lo :: rat where "lo = 3602879701896397 / 36028797018963968"
  have lo: "MIN_SPEED = Finite lo" "lo \<le> 1000" by (simp_all add: lo_def MIN_SPEED_def)
  define h where "h = parse_replay_speed parse_f64 md (Finite s)"
  have h: "h = Finite s \<or> h = NaN \<or> (\<exists>q. h = Finite q \<and> lo \<le> q \<and> q \<le> 1000)"
  proof (cases "md_replay_speed md")
    case None
    then show ?thesis by (simp add: h_def parse_replay_speed_def)
  next
    case (Some str)
    show ?thesis
    proof (cases "parse_f64 str")
      case None
      with Some show ?thesis by (simp add: h_def parse_replay_speed_def)
    next
      case (Some speed)
      with \<open>md_replay_speed md = Some str\<close> show ?thesis
        by (cases speed) (auto simp: h_def parse_replay_speed_def lo MAX_SPEED_def)
    qed
  qed
  let ?differs = "f64_less EPSILON (f64_abs (f64_sub h (Finite s)))"
  have p: "pacing_for parse_f64 sv md =
      (if ?differs then (r_pacing (s_reader st))\<lparr>speed_multiplier := h\<rparr> else r_pacing (s_reader st))"
    using s assms(2) by (simp add: pacing_for_def h_def Let_def)
  have nan: "\<not> ?differs" if "h = NaN" using that by (simp add: f64_sub_def EPSILON_def)
  show ?thesis
  proof (cases ?differs)
    case True
    have same: "(r_pacing (s_reader st))\<lparr>speed_multiplier := Finite s\<rparr> = r_pacing (s_reader st)"
      using s(1) assms(2) by (cases "r_pacing (s_reader st)") simp
    have "0 < lo" by (simp add: lo_def)
    with True same h nan s assms(2) show ?thesis unfolding p lo_def [symmetric] by auto
  next
    case False
    with s assms(2) show ?thesis unfolding p by simp
  qed
qed

lemma session_speed_bounds_witness:
  "\<exists>s. speed_multiplier (pacing_for (\<lambda>_. Some PosInf) example_service
      \<lparr>md_token = None, md_token_bin = None, md_replay_speed = Some ''inf''\<rparr>) = Finite s \<and> 0 < s"
proof -
  have v: "validate (\<lambda>_. True) example_settings = Inr ()"
    "sc_pacing (sv_cfg example_service) = r_pacing (s_reader example_settings)"
    by (simp_all add: example_settings_def validate_def default_reader_def default_pacing_def default_server_def
        default_tls_def default_metrics_def Let_def example_service_def service_new_def)
  from session_speed_bounds [OF v] show ?thesis by blast
qed

text \<open>The slot the unary calls report is the end of the newest chunk, as for planning.\<close>

lemma latest_slot_newest: "latest_slot sv = newest_end_slot (snapshot (sv_catalog sv))"
  by (simp add: latest_slot_def newest_end_slot_def)

end
