(* ===== verification/Customer.thy ===== *)
theory Customer
  imports Follow Grpc
begin

text \<open>
  The session of a customer (\<open>sillage-reader/src/customer.rs\<close>): planning and rejection, the loop
  over shutdown, the end of the replay and the messages of the client, and leaving the registry.

  The session and its replay are two tasks. What the session waits for is a list of wake-ups, each
  with everything that is ready then; the loop looks at them in the order of its \<open>biased\<close> select.
  The registry is shared with the other sessions, so leaving it is a step of the system (\<open>served\<close>).
\<close>

section \<open>Errors of the inbound stream\<close>

datatype io_kind = BrokenPipe | ConnectionReset | ConnectionAborted | UnexpectedEof | OtherKind

text \<open>A status with its chain of sources: the kind of those that are I/O errors, and its rendering.\<close>

record inbound_error =
  ie_code :: status_code
  ie_chain :: "io_kind option list"
  ie_rendered :: string

definition is_hangup_kind :: "io_kind \<Rightarrow> bool" where
  "is_hangup_kind kind = (kind \<in> {BrokenPipe, ConnectionReset, ConnectionAborted, UnexpectedEof})"

fun first_io :: "io_kind option list \<Rightarrow> io_kind option" where
  "first_io [] = None"
| "first_io (Some kind # es) = Some kind"
| "first_io (None # es) = first_io es"

definition to_ascii_lowercase :: "string \<Rightarrow> string" where
  "to_ascii_lowercase = map (\<lambda>c. if 65 \<le> (of_char c :: nat) \<and> (of_char c :: nat) \<le> 90
     then char_of ((of_char c :: nat) + 32) else c)"

definition hangup_needles :: "string list" where
  "hangup_needles = [''broken pipe'', ''brokenpipe'', ''connection reset'', ''connectionreset'',
     ''connection aborted'', ''connectionaborted'', ''unexpectedeof'']"

definition is_client_hangup :: "inbound_error \<Rightarrow> bool" where
  "is_client_hangup e =
     (if ie_code e = CancelledCode then True
      else (case first_io (ie_chain e) of
              Some kind \<Rightarrow> is_hangup_kind kind
            | None \<Rightarrow> list_ex (\<lambda>needle. sublist needle (to_ascii_lowercase (ie_rendered e))) hangup_needles))"

section \<open>Rejection\<close>

definition reject :: "(parse_error \<Rightarrow> string) \<Rightarrow> plan_error \<Rightarrow> status" where
  "reject describe e =
     (case e of
        FromSlotTooOld _ _ \<Rightarrow> Status OutOfRange (plan_error_text describe e)
      | NoChunksAvailable \<Rightarrow> Status Unavailable (plan_error_text describe e)
      | _ \<Rightarrow> Status Internal (''replay planning failed: '' @ plan_error_text describe e))"

section \<open>The loop of a session\<close>

datatype inbound = InRequest subscribe_request | InClosed | InError inbound_error

record wake =
  wk_shutdown :: bool
  wk_replay :: bool
  wk_inbound :: "inbound option"
  wk_pong :: status_result

text \<open>Why the loop is left, as it is logged.\<close>

datatype leave_reason =
    ReaderShutdown
  | ReplayExhausted "replay_stats option"
  | PongDropped
  | InboundClosed
  | ClientHangup
  | StreamError

datatype wake_result = Stay | Leave leave_reason | Blocked

definition pong :: "32 word \<Rightarrow> subscribe_update" where
  "pong i = \<lparr>filters = [], created_at = None, update_oneof = Some (UPong i)\<rparr>"

text \<open>\<open>Ok(Ok(stats))\<close> of a joined task; a task that failed or panicked gives nothing.\<close>

fun joined :: "follow_result \<Rightarrow> replay_stats option" where
  "joined (Followed st) = Some st"
| "joined _ = None"

text \<open>
  The replay task has come to its end with \<open>res\<close>; a task that does not return or waits for ever
  is never ready.
\<close>

definition finishes :: "follow_result option \<Rightarrow> bool" where
  "finishes res \<longleftrightarrow> res \<noteq> None \<and> res \<noteq> Some FollowWaiting"

definition session_wake :: "follow_result option \<Rightarrow> wake \<Rightarrow> outbound list \<Rightarrow> wake_result \<times> outbound list" where
  "session_wake res w out =
     (if wk_shutdown w then (Leave ReaderShutdown, out)
      else if wk_replay w \<and> finishes res then (Leave (ReplayExhausted (joined (the res))), out)
      else (case wk_inbound w of
              None \<Rightarrow> (Stay, out)
            | Some (InRequest req) \<Rightarrow>
                (case rq_ping req of
                   None \<Rightarrow> (Stay, out)
                 | Some i \<Rightarrow>
                     (case wk_pong w of
                        StatusSent \<Rightarrow> (Stay, out @ [OutMsg (pong i)])
                      | StatusClosed \<Rightarrow> (Leave PongDropped, out)
                      | StatusWaits \<Rightarrow> (Blocked, out)))
            | Some InClosed \<Rightarrow> (Leave InboundClosed, out)
            | Some (InError e) \<Rightarrow> (Leave (if is_client_hangup e then ClientHangup else StreamError), out)))"

fun session_loop :: "follow_result option \<Rightarrow> wake list \<Rightarrow> outbound list \<Rightarrow> wake_result \<times> outbound list" where
  "session_loop res [] out = (Stay, out)"
| "session_loop res (w # ws) out =
     (case session_wake res w out of
        (Stay, out') \<Rightarrow> session_loop res ws out'
      | (r, out') \<Rightarrow> (r, out'))"

section \<open>The session\<close>

text \<open>\<open>RunOpen\<close>: the task has not come to an end; it waits for events, for a send or for its replay.\<close>

datatype run_result = RunRejected status | RunEnded leave_reason "replay_stats option" | RunOpen | RunPanicked

text \<open>What a session meets: the snapshot and caches of its first plan, its wake-ups, the passes of its replay.\<close>

record 'bm session_env =
  se_reader :: "'bm reader_env"
  se_catalog :: chunk_catalog
  se_index_cache :: index_cache
  se_status :: status_result
  se_now :: nat
  se_passes :: "nat \<Rightarrow> 'bm pass"
  se_wakes :: "wake list"

definition context_of :: "customer \<Rightarrow> follow_context" where
  "context_of cu = \<lparr>fc_filters = cu_parsed cu, fc_pacing = cu_pacing cu, fc_idle_timeout = cu_follow_idle_timeout cu\<rparr>"

text \<open>What the session itself sends; what its replay sends is the output of \<open>follow_replay\<close>.\<close>

definition customer_run :: "(parse_error \<Rightarrow> string) \<Rightarrow> customer \<Rightarrow> 'bm session_env \<Rightarrow> run_result \<times> outbound list" where
  "customer_run describe cu env =
     (case fst (plan_replay (se_reader env) (se_catalog env) (cu_parsed cu) (sf_from_slot (cu_parsed cu))
                 (se_index_cache env)) of
        Inl e \<Rightarrow>
          if e = PlanPanic then (RunPanicked, [])
          else (case se_status env of
                  StatusSent \<Rightarrow> (RunRejected (reject describe e), [OutStatus (reject describe e)])
                | StatusClosed \<Rightarrow> (RunRejected (reject describe e), [])
                | StatusWaits \<Rightarrow> (RunOpen, []))
      | Inr plan \<Rightarrow>
          let res = map_option fst (follow_replay describe (context_of cu) (se_passes env) plan (se_now env))
          in (case session_loop res (se_wakes env) [] of
                (Leave reason, out) \<Rightarrow>
                  (case reason of
                     ReplayExhausted st \<Rightarrow> (RunEnded reason st, out)
                   | _ \<Rightarrow>
                       if finishes res then (RunEnded reason (joined (the res)), out) else (RunOpen, out))
              | (_, out) \<Rightarrow> (RunOpen, out)))"

definition ended :: "run_result \<Rightarrow> bool" where
  "ended r \<longleftrightarrow> r \<noteq> RunOpen \<and> r \<noteq> RunPanicked"

text \<open>The last step of a session that comes to its end, on either path.\<close>

definition customer_exit :: "customer \<Rightarrow> geyser_service \<Rightarrow> geyser_service" where
  "customer_exit cu sv = remove_from_registry (h_customer_id (cu_handle cu)) sv"

section \<open>The system of sessions\<close>

text \<open>\<open>served sv0 n sv live\<close>: after \<open>n\<close> subscribe calls the sessions \<open>live\<close> have not ended.\<close>

inductive served :: "geyser_service \<Rightarrow> nat \<Rightarrow> geyser_service \<Rightarrow> customer list \<Rightarrow> bool" for sv0 where
  served_none: "served sv0 0 sv0 []"
| served_join: "served sv0 n sv live \<Longrightarrow> subscribe parse_f64 md m now sv = (Inr cu, sv') \<Longrightarrow>
    served sv0 (Suc n) sv' (live @ [cu])"
| served_refuse: "served sv0 n sv live \<Longrightarrow> subscribe parse_f64 md m now sv = (Inl e, sv') \<Longrightarrow>
    served sv0 (Suc n) sv' live"
| served_leave: "served sv0 n sv live \<Longrightarrow> cu \<in> set live \<Longrightarrow>
    customer_run describe cu (env :: u32 list session_env) = (r, out) \<Longrightarrow> ended r \<Longrightarrow>
    served sv0 n (customer_exit cu sv) (remove1 cu live)"
| served_publish: "served sv0 n sv live \<Longrightarrow>
    served sv0 n (sv\<lparr>sv_catalog := store_catalog (sv_catalog sv) cat\<rparr>) live"

inductive_cases served_zero: "served sv0 0 sv live"

lemma served_reachable: "served sv0 n sv live \<Longrightarrow> reachable sv0 n sv"
  by (induction rule: served.induct) (auto simp: customer_exit_def intro: reachable.intros)

lemma remove1_by_id:
  "distinct (map f xs) \<Longrightarrow> x \<in> set xs \<Longrightarrow> remove1 x xs = filter (\<lambda>y. f y \<noteq> f x) xs"
proof (induction xs)
  case (Cons y ys)
  show ?case
  proof (cases "y = x")
    case True
    with Cons.prems(1) have "\<forall>z \<in> set ys. f z \<noteq> f x" by (auto intro: rev_image_eqI)
    with True show ?thesis by (simp add: filter_True)
  next
    case False
    with Cons show ?thesis by auto
  qed
qed simp

lemma served_registry:
  "served sv0 n sv live \<Longrightarrow> ids_ok 0 sv0 \<Longrightarrow> sv_customers sv0 = [] \<Longrightarrow> n < 2 ^ 64 \<Longrightarrow>
   sv_customers sv = map cu_handle live"
proof (induction rule: served.induct)
  case (served_join n sv live parse_f64 md m now cu sv')
  from subscribe_cases [OF served_join.hyps(2)] served_join show ?case by simp
next
  case (served_refuse n sv live parse_f64 md m now e sv')
  from subscribe_cases [OF served_refuse.hyps(2)] served_refuse show ?case by simp
next
  case (served_leave n sv live cu describe env r out)
  then have reg: "sv_customers sv = map cu_handle live" by simp
  have "ids_ok n sv" using ids_ok_reachable [OF served_reachable] served_leave by blast
  then have "distinct (map (\<lambda>cu. h_customer_id (cu_handle cu)) live)" by (simp add: ids_ok_def reg o_def)
  from remove1_by_id [OF this served_leave.hyps(2)] reg show ?case
    by (simp add: customer_exit_def remove_from_registry_def filter_map o_def)
qed simp_all

section \<open>The loop, wake-up by wake-up\<close>

definition ping_of :: "wake \<Rightarrow> (32 word) option" where
  "ping_of w = (case wk_inbound w of Some (InRequest req) \<Rightarrow> rq_ping req | _ \<Rightarrow> None)"

text \<open>A wake-up after which the session goes on: nothing, a request that is no ping, an answered ping.\<close>

definition stays :: "follow_result option \<Rightarrow> wake \<Rightarrow> bool" where
  "stays res w \<longleftrightarrow> \<not> wk_shutdown w \<and> \<not> (wk_replay w \<and> finishes res) \<and>
     (case wk_inbound w of
        None \<Rightarrow> True
      | Some (InRequest req) \<Rightarrow> rq_ping req = None \<or> wk_pong w = StatusSent
      | Some _ \<Rightarrow> False)"

text \<open>Why a session is left at a wake-up.\<close>

definition leave_at :: "follow_result option \<Rightarrow> wake \<Rightarrow> leave_reason \<Rightarrow> bool" where
  "leave_at res w reason \<longleftrightarrow>
     (case reason of
        ReaderShutdown \<Rightarrow> wk_shutdown w
      | ReplayExhausted st \<Rightarrow> \<not> wk_shutdown w \<and> wk_replay w \<and> finishes res \<and> st = joined (the res)
      | PongDropped \<Rightarrow> ping_of w \<noteq> None \<and> wk_pong w = StatusClosed
      | InboundClosed \<Rightarrow> wk_inbound w = Some InClosed
      | ClientHangup \<Rightarrow> (\<exists>e. wk_inbound w = Some (InError e) \<and> is_client_hangup e)
      | StreamError \<Rightarrow> (\<exists>e. wk_inbound w = Some (InError e) \<and> \<not> is_client_hangup e))"

lemma session_wake_cases:
  assumes "session_wake res w out = (r, out')"
  shows "case r of
      Stay \<Rightarrow> stays res w \<and> out' = out @ (case ping_of w of None \<Rightarrow> [] | Some i \<Rightarrow> [OutMsg (pong i)])
    | Leave reason \<Rightarrow> \<not> stays res w \<and> leave_at res w reason \<and> out' = out
    | Blocked \<Rightarrow> \<not> stays res w \<and> ping_of w \<noteq> None \<and> wk_pong w = StatusWaits \<and> out' = out"
proof (cases "wk_shutdown w \<or> (wk_replay w \<and> finishes res)")
  case True
  with assms show ?thesis by (auto simp: session_wake_def stays_def leave_at_def split: if_splits)
next
  case False
  then have f: "\<not> wk_shutdown w" "\<not> (wk_replay w \<and> finishes res)" by auto
  show ?thesis
  proof (cases "wk_inbound w")
    case None
    with f assms show ?thesis by (auto simp: session_wake_def stays_def ping_of_def)
  next
    case (Some m)
    show ?thesis
    proof (cases m)
      case (InRequest req)
      with Some f assms show ?thesis
        by (cases "rq_ping req"; cases "wk_pong w") (auto simp: session_wake_def stays_def ping_of_def leave_at_def)
    qed (use Some f assms in \<open>auto simp: session_wake_def stays_def leave_at_def\<close>)
  qed
qed

lemma session_loop_cases:
  "session_loop res ws out = (r, out') \<Longrightarrow>
   \<exists>k \<le> length ws. (\<forall>w \<in> set (take k ws). stays res w) \<and>
     out' = out @ map (\<lambda>i. OutMsg (pong i)) (List.map_filter ping_of (take k ws)) \<and>
     (case r of
        Stay \<Rightarrow> k = length ws
      | Leave reason \<Rightarrow> k < length ws \<and> \<not> stays res (ws ! k) \<and> leave_at res (ws ! k) reason
      | Blocked \<Rightarrow> k < length ws \<and> ping_of (ws ! k) \<noteq> None \<and> wk_pong (ws ! k) = StatusWaits)"
proof (induction ws arbitrary: out)
  case Nil
  then show ?case by (auto simp: List.map_filter_simps)
next
  case (Cons w ws)
  obtain q out1 where q: "session_wake res w out = (q, out1)" by fastforce
  note cases = session_wake_cases [OF q]
  show ?case
  proof (cases q)
    case Stay
    with Cons.prems q have "session_loop res ws out1 = (r, out')" by simp
    from Cons.IH [OF this] obtain k where k: "k \<le> length ws" "\<forall>w \<in> set (take k ws). stays res w"
      "out' = out1 @ map (\<lambda>i. OutMsg (pong i)) (List.map_filter ping_of (take k ws))"
      "case r of Stay \<Rightarrow> k = length ws
      | Leave reason \<Rightarrow> k < length ws \<and> \<not> stays res (ws ! k) \<and> leave_at res (ws ! k) reason
      | Blocked \<Rightarrow> k < length ws \<and> ping_of (ws ! k) \<noteq> None \<and> wk_pong (ws ! k) = StatusWaits" by blast
    with Stay cases show ?thesis
      by (intro exI [of _ "Suc k"]) (auto simp: List.map_filter_simps split: option.splits wake_result.splits)
  next
    case (Leave reason)
    with Cons.prems q cases show ?thesis by (intro exI [of _ 0]) (auto simp: List.map_filter_simps)
  next
    case Blocked
    with Cons.prems q cases show ?thesis by (intro exI [of _ 0]) (auto simp: List.map_filter_simps)
  qed
qed

section \<open>Sends that return\<close>

text \<open>Every status that is sent is taken or refused.\<close>

definition statuses_return :: "'bm pass \<Rightarrow> bool" where
  "statuses_return ps \<longleftrightarrow>
     ps_status ps \<noteq> StatusWaits \<and> (\<forall>n. dv_status (de_event (ps_drive ps) n) \<noteq> StatusWaits)"

lemma send_status_returns: "dv_status ev \<noteq> StatusWaits \<Longrightarrow> r \<noteq> Waiting \<Longrightarrow> fst (send_status ev s r dr) \<noteq> Waiting"
  by (auto simp: send_status_def split: status_result.splits)

text \<open>
  Without that, a replay whose message could not be sent in time may wait for ever: the status it
  reports this with goes over the same full channel and has no time limit.
\<close>

lemma timed_out_send_waits:
  assumes "dv_send (de_event env (dr_step dr)) = SendTimeout" and "dv_status (de_event env (dr_step dr)) = StatusWaits"
    and "\<not> dv_cancelled (de_event env (dr_step dr))" and "f \<le> item_slot it"
  shows "fst (emit env f it dr) = Some Waiting"
  using assms
  by (cases it) (auto simp: emit_def item_slot_def not_less [symmetric] send_status_def Let_def split: prod.splits)

lemma emit_returns:
  assumes "\<forall>n. dv_status (de_event env n) \<noteq> StatusWaits"
  shows "fst (emit env f it dr) \<noteq> Some Waiting"
proof -
  have ss: "fst (send_status (de_event env n) s (Finished st) d) \<noteq> Waiting" for n s st d
    using send_status_returns [of "de_event env n"] assms by simp
  show ?thesis
    by (cases it) (auto simp: emit_def Let_def ss split: prod.splits send_result.splits lag_action.splits)
qed

lemma drive_returns:
  assumes "\<forall>n. dv_status (de_event env n) \<noteq> StatusWaits"
  shows "fst (drive E env f cs cache dr) \<noteq> Waiting"
  using assms
proof (induction E env f cs cache dr rule: drive.induct)
  case (1 E env f cs cache dr)
  obtain q cs1 cache1 where pa: "peek_all E 0 None cs cache = (q, cs1, cache1)" by (metis prod_cases3)
  note unfolds = drive.simps [of E env f cs cache dr]
  consider x where "q = Inl x" | "q = Inr None" | i s where "q = Inr (Some (i, s))"
    by (metis not_None_eq old.sum.exhaust surj_pair)
  then show ?case
  proof cases
    case (1 x)
    have "fst (fail_replay env x dr) \<noteq> Waiting"
      using send_status_returns "1.prems" by (auto simp: fail_replay_def split: replay_error.splits)
    with 1 pa show ?thesis by (auto simp: unfolds split: prod.splits)
  next
    case 2
    with pa show ?thesis by (simp add: unfolds)
  next
    case (3 i s)
    show ?thesis
    proof (cases "\<not> length cs1 \<le> i \<and> (\<exists>c it. cs1 ! i = Some c \<and> peeked c = Some it)")
      case False
      with pa 3 show ?thesis by (auto simp: unfolds split: option.splits)
    next
      case True
      then obtain c it where c: "\<not> length cs1 \<le> i" "cs1 ! i = Some c" "peeked c = Some it" by blast
      obtain ro dr1 where em: "emit env f it dr = (ro, dr1)" by fastforce
      with emit_returns [OF "1.prems", of f it dr] have "ro \<noteq> Some Waiting" by simp
      with "1.IH" [OF pa [symmetric] 3 refl refl refl c em [symmetric] _ "1.prems"] pa 3 c em show ?thesis
        by (cases ro) (simp_all add: unfolds)
    qed
  qed
qed

lemma after_pass_returns: "fst (after_pass ctx ps st fw) \<noteq> Some FollowWaiting"
  by (simp add: after_pass_def Let_def)

lemma follow_pass_returns:
  assumes "statuses_return ps"
  shows "fst (follow_pass describe ctx ps fw) \<noteq> Some FollowWaiting"
proof (cases "ps_stop ps")
  case True
  then show ?thesis by (simp add: follow_pass_def)
next
  case False
  show ?thesis
  proof (cases "follow_plan ctx ps fw")
    case (Inl e)
    with False assms show ?thesis
      by (cases "ps_status ps") (simp_all add: follow_pass_def statuses_return_def Let_def)
  next
    case (Inr plan)
    obtain r dr cache' where d: "drive_replay (ps_reader ps) (ps_drive ps) plan (ps_chunk_cache ps) (fw_pacer fw)
        = (r, dr, cache')" by (metis prod_cases3)
    have "\<forall>n. dv_status (de_event (ps_drive ps) n) \<noteq> StatusWaits" using assms by (simp add: statuses_return_def)
    then have "fst (drive_replay (ps_reader ps) (ps_drive ps) plan (ps_chunk_cache ps) (fw_pacer fw)) \<noteq> Waiting"
      unfolding drive_replay_def by (rule drive_returns)
    then have "r \<noteq> Waiting" by (simp add: d)
    with False Inr d after_pass_returns show ?thesis
      by (cases r) (simp_all add: follow_pass_def Let_def)
  qed
qed

lemma follow_returns:
  assumes "follow describe ctx passes k fw = Some y" and "\<forall>k. statuses_return (passes k)"
  shows "fst y \<noteq> FollowWaiting"
proof -
  have "(\<forall>k. statuses_return (passes k)) \<longrightarrow> fst y \<noteq> FollowWaiting"
  proof (rule follow.raw_induct [OF _ assms(1), where P = "\<lambda>_ _ passes _ _ y. (\<forall>k. statuses_return (passes k)) \<longrightarrow> fst y \<noteq> FollowWaiting"])
    fix f describe ctx and passes :: "nat \<Rightarrow> 'a pass" and k fw y
    assume ih: "\<And>describe ctx (passes :: nat \<Rightarrow> 'a pass) k fw y. f describe ctx passes k fw = Some y \<Longrightarrow>
        (\<forall>k. statuses_return (passes k)) \<longrightarrow> fst y \<noteq> FollowWaiting"
      and body: "(case follow_pass describe ctx (passes k) fw of
        (Some r, fw') \<Rightarrow> Some (r, fw') | (None, fw') \<Rightarrow> f describe ctx passes (Suc k) fw') = Some y"
    obtain ro fw1 where fp: "follow_pass describe ctx (passes k) fw = (ro, fw1)" by fastforce
    show "(\<forall>k. statuses_return (passes k)) \<longrightarrow> fst y \<noteq> FollowWaiting"
      using follow_pass_returns [of "passes k" describe ctx fw] ih body fp by (cases ro) auto
  qed
  with assms(2) show ?thesis by blast
qed

section \<open>Properties\<close>


definition example_customer :: customer where
  "example_customer =
     \<lparr>cu_handle = \<lparr>h_customer_id = ''customer-0'', h_client = Token 0, h_connected_at = 0, h_filter_summary = []\<rparr>,
      cu_parsed = delivery_filters, cu_capacity = 8, cu_pacing = default_pacing\<lparr>pacing_enabled := False\<rparr>,
      cu_follow_idle_timeout = 60000000000\<rparr>"

definition example_wakes :: "wake list" where
  "example_wakes =
     [\<lparr>wk_shutdown = False, wk_replay = False, wk_inbound = Some (InRequest (default_request\<lparr>rq_ping := Some 7\<rparr>)),
       wk_pong = StatusSent\<rparr>,
      \<lparr>wk_shutdown = False, wk_replay = False, wk_inbound = Some InClosed, wk_pong = StatusSent\<rparr>]"

definition example_session :: "u32 list session_env" where
  "example_session = \<lparr>se_reader = delivery_env, se_catalog = delivery_catalog, se_index_cache = cache_new,
     se_status = StatusSent, se_now = 0, se_passes = (\<lambda>_. pass_example), se_wakes = example_wakes\<rparr>"

lemma example_session_planned:
  "\<exists>plan. fst (plan_replay (se_reader example_session) (se_catalog example_session) (cu_parsed example_customer)
     (sf_from_slot (cu_parsed example_customer)) (se_index_cache example_session)) = Inr plan"
  using delivery_planned by (auto simp: example_session_def example_customer_def delivery_filters_def)




text \<open>C7: The registry is the list of the sessions that have not ended, and admission is exact. So
  however sessions begin, are refused and end, an accepted caller with a proper request is refused only
  when as many sessions are live as the caps allow, in all or of its token, and is admitted otherwise;
  a place that was given back can be taken again.\<close>

theorem admission_exact:
  assumes "served (service_new catalog cfg 0) n sv live" and "n < 2 ^ 64"
    and "validate_auth sv md = Inr client" and "first_request m = Inr req"
    and "parse_subscribe_request req = Inr parsed"
  shows "sv_customers sv = map cu_handle live \<and>
    ((\<exists>cu sv'. subscribe parse_f64 md m now sv = (Inr cu, sv')) \<longleftrightarrow>
       length live < lim_total (sc_limits cfg) \<and>
       (client = Anonymous \<or>
        length (filter (\<lambda>cu. h_client (cu_handle cu) = client) live) < lim_per_token (sc_limits cfg)))"
proof -
  have "ids_ok 0 (service_new catalog cfg 0)" "sv_customers (service_new catalog cfg 0) = []"
    by (simp_all add: ids_ok_def service_new_def)
  with served_registry [OF assms(1)] assms(2) have reg: "sv_customers sv = map cu_handle live" by blast
  have cfg: "sv_cfg sv = cfg" using reachable_cfg [OF served_reachable [OF assms(1)]] by (simp add: service_new_def)
  have "length (filter (\<lambda>c. h_client c = client) (map cu_handle live)) =
      length (filter (\<lambda>cu. h_client (cu_handle cu) = client) live)"
    by (simp add: filter_map o_def)
  then show ?thesis
    using assms(3-5) reg cfg
    by (auto simp: subscribe_def next_customer_id_def admit_def Let_def)
qed

lemma admission_exact_witness:
  "\<exists>cu sv'. subscribe (\<lambda>_. None) \<lparr>md_token = Some ''b'', md_token_bin = None, md_replay_speed = None\<rparr>
      (First (default_request\<lparr>rq_blocks_meta := [''x'']\<rparr>)) 7 example_service = (Inr cu, sv')"
proof -
  let ?md = "\<lparr>md_token = Some ''b'', md_token_bin = None, md_replay_speed = None\<rparr>"
    and ?req = "default_request\<lparr>rq_blocks_meta := [''x'']\<rparr>"
  have "validate_auth example_service ?md = Inr (Token 1)" "first_request (First ?req) = Inr ?req"
    by (simp_all add: validate_auth_def example_service_def service_new_def first_request_def)
  moreover obtain parsed where "parse_subscribe_request ?req = Inr parsed"
    by (simp add: parse_subscribe_request_def default_request_def Let_def)
  moreover have "served example_service 0 example_service []" by (rule served_none)
  ultimately show ?thesis
    using admission_exact [where md = ?md and m = "First ?req" and n = 0 and live = "[]" and sv = example_service]
    unfolding example_service_def by fastforce
qed

end
