(* ===== verification/Probe.thy ===== *)
theory Probe
  imports Grpc
begin

text \<open>
  The test client (\<open>sillage-probe/src\<close>): the request it builds from its options, the metadata it
  sends, what it makes of an update, its statistics and its loop.

  A wake-up of the loop is everything that is ready then, in the order of its \<open>biased\<close> select, with
  the time the loop has waited since the iteration began: the sleep for \<open>--duration\<close> is created anew in
  every iteration.
\<close>

section \<open>What an update is\<close>

datatype update_kind = KTx | KAccount | KBlockMeta | KPing | KPong | KSlot | KOther

text \<open>The derived order is that of the constructors.\<close>

fun kind_rank :: "update_kind \<Rightarrow> nat" where
  "kind_rank KTx = 0"
| "kind_rank KAccount = 1"
| "kind_rank KBlockMeta = 2"
| "kind_rank KPing = 3"
| "kind_rank KPong = 4"
| "kind_rank KSlot = 5"
| "kind_rank KOther = 6"

lemma kind_rank_inj [simp]: "kind_rank a = kind_rank b \<longleftrightarrow> a = b"
  by (cases a; cases b) simp_all

instantiation update_kind :: linorder
begin

definition less_eq_update_kind :: "update_kind \<Rightarrow> update_kind \<Rightarrow> bool" where
  "less_eq_update_kind a b \<longleftrightarrow> kind_rank a \<le> kind_rank b"

definition less_update_kind :: "update_kind \<Rightarrow> update_kind \<Rightarrow> bool" where
  "less_update_kind a b \<longleftrightarrow> kind_rank a < kind_rank b"

instance
  by standard (auto simp: less_eq_update_kind_def less_update_kind_def)

end

fun kind_str :: "update_kind \<Rightarrow> string" where
  "kind_str KTx = ''tx''"
| "kind_str KAccount = ''account''"
| "kind_str KBlockMeta = ''block_meta''"
| "kind_str KPing = ''ping''"
| "kind_str KPong = ''pong''"
| "kind_str KSlot = ''slot''"
| "kind_str KOther = ''other''"

type_synonym update_summary = "update_kind \<times> u64 \<times> u64 option \<times> string"

definition summarize_tx :: "(bytes \<Rightarrow> string) \<Rightarrow> tx_update \<Rightarrow> u64 \<Rightarrow> update_summary" where
  "summarize_tx b58 tx n =
     (let sig = (case transaction tx of Some info \<Rightarrow> b58 (signature info) | None \<Rightarrow> ''?'')
      in (KTx, n, Some (tx_slot tx), ''tx slot='' @ dec (unat (tx_slot tx)) @ '' sig='' @ sig))"

definition summarize_account :: "(bytes \<Rightarrow> string) \<Rightarrow> acct_update \<Rightarrow> u64 \<Rightarrow> update_summary" where
  "summarize_account b58 acct n =
     (case (case account acct of
              Some info \<Rightarrow> (b58 (pubkey info), b58 (owner info), length (acct_data info))
            | None \<Rightarrow> (''?'', ''?'', 0)) of
        (pk, own, data_len) \<Rightarrow>
          (KAccount, n, Some (acct_slot acct),
           ''account slot='' @ dec (unat (acct_slot acct)) @ '' pk='' @ pk @ '' owner='' @ own @
           '' data_len='' @ dec data_len))"

definition summarize_block_meta :: "block_update \<Rightarrow> u64 \<Rightarrow> update_summary" where
  "summarize_block_meta bm n =
     (KBlockMeta, n, Some (block_slot bm),
      ''block_meta slot='' @ dec (unat (block_slot bm)) @ '' blockhash='' @ blockhash bm)"

text \<open>\<open>b58\<close> is the base58 encoder, \<open>encoded_len\<close> the length of the protobuf encoding.\<close>

definition summarize :: "(bytes \<Rightarrow> string) \<Rightarrow> (subscribe_update \<Rightarrow> u64) \<Rightarrow> subscribe_update \<Rightarrow> update_summary" where
  "summarize b58 encoded_len update =
     (let n = encoded_len update
      in case update_oneof update of
           Some (UTransaction tx) \<Rightarrow> summarize_tx b58 tx n
         | Some (UAccount acct) \<Rightarrow> summarize_account b58 acct n
         | Some (UBlockMeta bm) \<Rightarrow> summarize_block_meta bm n
         | Some UPing \<Rightarrow> (KPing, n, None, ''ping'')
         | Some (UPong _) \<Rightarrow> (KPong, n, None, ''pong'')
         | Some (USlot s) \<Rightarrow> (KSlot, n, Some s, ''slot='' @ dec (unat s))
         | Some (UTransactionStatus s sig) \<Rightarrow>
             (KOther, n, Some s, ''transaction_status slot='' @ dec (unat s) @ '' sig='' @ b58 sig)
         | Some UBlock \<Rightarrow> (KOther, n, None, ''block'')
         | Some UEntry \<Rightarrow> (KOther, n, None, ''entry'')
         | None \<Rightarrow> (KOther, n, None, ''empty''))"

section \<open>Statistics\<close>

record stats =
  by_kind :: "(update_kind \<times> u64) list"
  total_msgs :: u64
  total_bytes :: u64
  first_slot :: "u64 option"
  last_slot :: "u64 option"
  max_seen_slot :: u64
  slot_regressions :: u64

definition stats_new :: stats where
  "stats_new = \<lparr>by_kind = [], total_msgs = 0, total_bytes = 0, first_slot = None, last_slot = None,
     max_seen_slot = 0, slot_regressions = 0\<rparr>"

definition stats_observe :: "update_kind \<Rightarrow> u64 \<Rightarrow> u64 option \<Rightarrow> stats \<Rightarrow> stats" where
  "stats_observe kind n slot st =
     (let st = st\<lparr>total_msgs := total_msgs st + 1, total_bytes := total_bytes st + n,
                  by_kind := bt_insert kind
                    ((case map_of (by_kind st) kind of None \<Rightarrow> 0 | Some k \<Rightarrow> k) + 1) (by_kind st)\<rparr>
      in case slot of
           None \<Rightarrow> st
         | Some s \<Rightarrow>
             let st = st\<lparr>first_slot := (case first_slot st of None \<Rightarrow> Some s | Some f \<Rightarrow> Some f),
                         last_slot := Some s\<rparr>
             in if s < max_seen_slot st then st\<lparr>slot_regressions := slot_regressions st + 1\<rparr>
                else if max_seen_slot st < s then st\<lparr>max_seen_slot := s\<rparr>
                else st)"

section \<open>The options and the request\<close>

record cli =
  cli_x_token :: "string option"
  cli_speed :: "f64 option"
  cli_tx_account :: "string list"
  cli_tx_vote :: "bool option"
  cli_tx_failed :: "bool option"
  cli_account :: "string list"
  cli_account_owner :: "string list"
  cli_blocks_meta :: bool
  cli_from_slot :: "u64 option"
  cli_max_messages :: "nat option"
  cli_duration :: "u64 option"

definition wants_tx :: "cli \<Rightarrow> bool" where
  "wants_tx c \<longleftrightarrow> cli_tx_account c \<noteq> [] \<or> cli_tx_vote c \<noteq> None \<or> cli_tx_failed c \<noteq> None"

definition wants_acct :: "cli \<Rightarrow> bool" where
  "wants_acct c \<longleftrightarrow> cli_account c \<noteq> [] \<or> cli_account_owner c \<noteq> []"

definition build_subscribe_request :: "cli \<Rightarrow> string + subscribe_request" where
  "build_subscribe_request c =
     (if \<not> wants_tx c \<and> \<not> wants_acct c \<and> \<not> cli_blocks_meta c
      then Inl ''at least one filter group is required (--tx-account, --account, or --blocks-meta)''
      else
        let req = default_request;
            req = (if wants_tx c
                   then req\<lparr>rq_transactions := [(''probe'',
                          default_tx_filter\<lparr>account_include := cli_tx_account c, vote := cli_tx_vote c,
                            failed := cli_tx_failed c\<rparr>)]\<rparr>
                   else req);
            req = (if wants_acct c
                   then req\<lparr>rq_accounts := [(''probe'',
                          default_acct_filter\<lparr>account_list := cli_account c, owner_list := cli_account_owner c\<rparr>)]\<rparr>
                   else req);
            req = (if cli_blocks_meta c then req\<lparr>rq_blocks_meta := [''probe'']\<rparr> else req)
        in Inr (req\<lparr>rq_from_slot := cli_from_slot c\<rparr>))"

text \<open>\<open>valid\<close> says which strings are metadata values, \<open>show_f64\<close> renders a number.\<close>

definition build_interceptor :: "(string \<Rightarrow> bool) \<Rightarrow> (f64 \<Rightarrow> string) \<Rightarrow> cli \<Rightarrow> status_code + metadata" where
  "build_interceptor valid show_f64 c =
     (if \<exists>t. cli_x_token c = Some t \<and> \<not> valid t then Inl InvalidArgument
      else if \<exists>s. cli_speed c = Some s \<and> \<not> valid (show_f64 s) then Inl InvalidArgument
      else Inr \<lparr>md_token = cli_x_token c, md_token_bin = None,
                md_replay_speed = map_option show_f64 (cli_speed c)\<rparr>)"

text \<open>Strings are their UTF-8 bytes; slicing inside a character panics (\<open>None\<close>).\<close>

definition char_boundary :: "string \<Rightarrow> nat \<Rightarrow> bool" where
  "char_boundary s i \<longleftrightarrow> i = 0 \<or> i = length s \<or>
     (i < length s \<and> \<not> (128 \<le> (of_char (s ! i) :: nat) \<and> (of_char (s ! i) :: nat) < 192))"

definition mask_token :: "string \<Rightarrow> string option" where
  "mask_token token =
     (if length token \<le> 8 then Some ''***''
      else if char_boundary token 4 \<and> char_boundary token (length token - 4)
      then Some (take 4 token @ ''...'' @ drop (length token - 4) token)
      else None)"

section \<open>The loop\<close>

datatype stream_event = Received subscribe_update | StreamEnded | StreamFailed

record probe_wake =
  pw_stream :: "stream_event option"
  pw_tick :: bool
  pw_ping_sent :: bool
  pw_ctrl_c :: bool
  pw_waited :: nat

datatype probe_end = ServerEnded | ExitFailure | MaxReached | PingFailed | CtrlC | DurationReached

definition probe_wake_up :: "(bytes \<Rightarrow> string) \<Rightarrow> (subscribe_update \<Rightarrow> u64) \<Rightarrow> cli \<Rightarrow> probe_wake \<Rightarrow> stats
    \<Rightarrow> probe_end option \<times> stats" where
  "probe_wake_up b58 encoded_len c w st =
     (case pw_stream w of
        Some (Received update) \<Rightarrow>
          (case summarize b58 encoded_len update of (kind, n, slot, _) \<Rightarrow>
             let st = stats_observe kind n slot st
             in (if \<exists>m. cli_max_messages c = Some m \<and> of_nat m \<le> total_msgs st then Some MaxReached else None, st))
      | Some StreamEnded \<Rightarrow> (Some ServerEnded, st)
      | Some StreamFailed \<Rightarrow> (Some ExitFailure, st)
      | None \<Rightarrow>
          if pw_tick w then (if pw_ping_sent w then None else Some PingFailed, st)
          else if pw_ctrl_c w then (Some CtrlC, st)
          else if \<exists>secs. cli_duration c = Some secs \<and> unat secs * 1000000000 \<le> pw_waited w
          then (Some DurationReached, st)
          else (None, st))"

fun probe_loop :: "(bytes \<Rightarrow> string) \<Rightarrow> (subscribe_update \<Rightarrow> u64) \<Rightarrow> cli \<Rightarrow> probe_wake list \<Rightarrow> stats
    \<Rightarrow> probe_end option \<times> stats" where
  "probe_loop b58 encoded_len c [] st = (None, st)"
| "probe_loop b58 encoded_len c (w # ws) st =
     (case probe_wake_up b58 encoded_len c w st of
        (Some r, st') \<Rightarrow> (Some r, st')
      | (None, st') \<Rightarrow> probe_loop b58 encoded_len c ws st')"

section \<open>The report\<close>

text \<open>\<open>fixed n\<close> is the format \<open>{:.n}\<close> of a double.\<close>

definition human_bytes :: "(nat \<Rightarrow> f64 \<Rightarrow> string) \<Rightarrow> u64 \<Rightarrow> string" where
  "human_bytes fixed n =
     (if n \<ge> 1024 * 1024 * 1024 then fixed 2 (f64_div (f64_of_u64 n) (Finite (1024 * 1024 * 1024))) @ '' GB''
      else if n \<ge> 1024 * 1024 then fixed 2 (f64_div (f64_of_u64 n) (Finite (1024 * 1024))) @ '' MB''
      else if n \<ge> 1024 then fixed 1 (f64_div (f64_of_u64 n) (Finite 1024)) @ '' KB''
      else dec (unat n) @ '' B'')"

text \<open>Three digits, with leading zeros: \<open>{:03}\<close>.\<close>

definition pad3 :: "nat \<Rightarrow> string" where
  "pad3 n = replicate (3 - length (dec n)) (CHR ''0'') @ dec n"

text \<open>\<open>elapsed\<close> is in nanoseconds. A rate is 0 when no time has passed.\<close>

definition per_sec :: "f64 \<Rightarrow> f64 \<Rightarrow> f64" where
  "per_sec x secs = (if f64_less (Finite 0) secs then f64_div x secs else Finite 0)"

definition stats_lines :: "(nat \<Rightarrow> f64 \<Rightarrow> string) \<Rightarrow> nat \<Rightarrow> f64 option \<Rightarrow> stats \<Rightarrow> string list" where
  "stats_lines fixed elapsed speed st =
     (let secs = as_secs_f64 elapsed;
          msgs_per_sec = per_sec (f64_of_u64 (total_msgs st)) secs;
          mb_per_sec = per_sec (f64_div (f64_of_u64 (total_bytes st)) (Finite (1024 * 1024))) secs;
          kinds = map (\<lambda>(kind, count). kind_str kind @ ''='' @ dec (unat count)) (by_kind st)
      in [''--- stats (elapsed: '' @ dec (elapsed div 1000000000) @ ''.'' @
            pad3 (elapsed mod 1000000000 div 1000000) @ ''s) ---'',
          ''messages: '' @ dec (unat (total_msgs st)) @ '' total ('' @ fixed 1 msgs_per_sec @ '' msg/s)'',
          ''bytes: '' @ human_bytes fixed (total_bytes st) @ '' total ('' @ fixed 2 mb_per_sec @ '' MB/s)''] @
         (if kinds \<noteq> [] then [''by_kind: '' @ join '' '' kinds] else []) @
         (case (first_slot st, last_slot st) of
            (Some f, Some l) \<Rightarrow>
              let span = saturating_sub l f
              in [''slots: first='' @ dec (unat f) @ '' last='' @ dec (unat l) @ '' span='' @ dec (unat span),
                  ''max_seen_slot='' @ dec (unat (max_seen_slot st)) @ '' regressions='' @
                    dec (unat (slot_regressions st))] @
                 (case speed of
                    None \<Rightarrow> []
                  | Some v \<Rightarrow>
                      [''pacing (approx): speed='' @ fixed 1 v @ ''x, span='' @ dec (unat span) @
                       '' slots, expected_wall='' @
                       fixed 1 (f64_div (f64_mul (f64_of_u64 span) (round_f64 (4 / 10))) v) @ ''s''])
          | _ \<Rightarrow> []))"

definition stats_render :: "(nat \<Rightarrow> f64 \<Rightarrow> string) \<Rightarrow> nat \<Rightarrow> f64 option \<Rightarrow> stats \<Rightarrow> string" where
  "stats_render fixed elapsed speed st = join [CHR 0x0A] (stats_lines fixed elapsed speed st)"

section \<open>The program\<close>

text \<open>
  What can go wrong before the loop: \<open>scheme\<close> is the parsed endpoint (\<open>None\<close>: not an address), with
  \<open>Some None\<close> an address without a scheme.
\<close>

datatype channel_error = InvalidEndpoint | TlsConfigRejected | ConnectFailed

definition build_channel :: "(string \<Rightarrow> string option option) \<Rightarrow> bool \<Rightarrow> (string \<Rightarrow> bool \<Rightarrow> bool) \<Rightarrow> string
    \<Rightarrow> channel_error + bool" where
  "build_channel parse tls_accepted connects endpoint =
     (case parse endpoint of
        None \<Rightarrow> Inl InvalidEndpoint
      | Some scheme \<Rightarrow>
          let tls = (scheme = Some ''https'')
          in if tls \<and> \<not> tls_accepted then Inl TlsConfigRejected
             else if connects endpoint tls then Inr tls else Inl ConnectFailed)"

record probe_net =
  pn_parse :: "string \<Rightarrow> string option option"
  pn_tls_accepted :: bool
  pn_connects :: "string \<Rightarrow> bool \<Rightarrow> bool"
  pn_valid :: "string \<Rightarrow> bool"
  pn_subscribe :: "metadata \<Rightarrow> subscribe_request \<Rightarrow> status_code option"

text \<open>\<open>pn_subscribe\<close> gives the error of the call. A stream error ends the process with code 1 and no report.\<close>

datatype probe_exit =
    BadOptions string
  | TokenPanic
  | NoChannel channel_error
  | CallFailed status_code
  | StreamErrorExit
  | Report string
  | StillRunning

definition probe_main :: "probe_net \<Rightarrow> (f64 \<Rightarrow> string) \<Rightarrow> (nat \<Rightarrow> f64 \<Rightarrow> string) \<Rightarrow> (bytes \<Rightarrow> string) \<Rightarrow> (subscribe_update \<Rightarrow> u64)
    \<Rightarrow> string \<Rightarrow> cli \<Rightarrow> probe_wake list \<Rightarrow> nat \<Rightarrow> probe_exit" where
  "probe_main net show_f64 fixed b58 encoded_len endpoint c wakes elapsed =
     (case build_subscribe_request c of
        Inl e \<Rightarrow> BadOptions e
      | Inr req \<Rightarrow>
          if \<exists>t. cli_x_token c = Some t \<and> mask_token t = None then TokenPanic
          else
            (case build_channel (pn_parse net) (pn_tls_accepted net) (pn_connects net) endpoint of
               Inl e \<Rightarrow> NoChannel e
             | Inr _ \<Rightarrow>
                 (case build_interceptor (pn_valid net) show_f64 c of
                    Inl code \<Rightarrow> CallFailed code
                  | Inr md \<Rightarrow>
                      (case pn_subscribe net md req of
                         Some code \<Rightarrow> CallFailed code
                       | None \<Rightarrow>
                           (case probe_loop b58 encoded_len c wakes stats_new of
                              (None, st) \<Rightarrow> StillRunning
                            | (Some ExitFailure, st) \<Rightarrow> StreamErrorExit
                            | (Some _, st) \<Rightarrow> Report (stats_render fixed elapsed (cli_speed c) st))))))"

section \<open>The statistics of a run\<close>

definition observe_seq :: "(update_kind \<times> u64 \<times> u64 option) list \<Rightarrow> stats \<Rightarrow> stats" where
  "observe_seq us st = foldl (\<lambda>st (kind, n, slot). stats_observe kind n slot st) st us"

lemma observe_seq_simps [simp]:
  "observe_seq [] st = st"
  "observe_seq (us @ [(kind, n, slot)]) st = stats_observe kind n slot (observe_seq us st)"
  by (simp_all add: observe_seq_def)

definition slots_of :: "(update_kind \<times> u64 \<times> u64 option) list \<Rightarrow> u64 list" where
  "slots_of us = List.map_filter (\<lambda>(_, _, slot). slot) us"

lemma slots_of_simps [simp]:
  "slots_of [] = []" "slots_of (us @ [(kind, n, Some s)]) = slots_of us @ [s]" "slots_of (us @ [(kind, n, None)]) = slots_of us"
  by (simp_all add: slots_of_def List.map_filter_def)

text \<open>A slot is a regression when a greater one was received before it.\<close>

definition regressions :: "u64 list \<Rightarrow> nat" where
  "regressions ss = card {i. i < length ss \<and> (\<exists>j < i. ss ! i < ss ! j)}"

lemma regressions_snoc: "regressions (ss @ [s]) = regressions ss + (if \<exists>t \<in> set ss. s < t then 1 else 0)"
proof -
  let ?A = "{i. i < length ss \<and> (\<exists>j < i. ss ! i < ss ! j)}"
  have old: "(\<exists>j < i. (ss @ [s]) ! i < (ss @ [s]) ! j) \<longleftrightarrow> (\<exists>j < i. ss ! i < ss ! j)" if "i < length ss" for i
    using that by (intro ex_cong1 conj_cong) (simp_all add: nth_append)
  have "(\<exists>j < length ss. (ss @ [s]) ! length ss < (ss @ [s]) ! j) \<longleftrightarrow> (\<exists>j < length ss. s < ss ! j)"
    by (intro ex_cong1 conj_cong) (simp_all add: nth_append)
  also have "\<dots> \<longleftrightarrow> (\<exists>t \<in> set ss. s < t)" unfolding Bex_def in_set_conv_nth by blast
  finally have new: "(\<exists>j < length ss. (ss @ [s]) ! length ss < (ss @ [s]) ! j) \<longleftrightarrow> (\<exists>t \<in> set ss. s < t)" .
  have "i \<in> {i. i < length (ss @ [s]) \<and> (\<exists>j < i. (ss @ [s]) ! i < (ss @ [s]) ! j)} \<longleftrightarrow>
      i \<in> ?A \<union> (if \<exists>t \<in> set ss. s < t then {length ss} else {})" for i
  proof -
    consider "i < length ss" | "i = length ss" | "length ss < i" by linarith
    then show ?thesis
    proof cases
      case 1
      then show ?thesis using old [OF 1] by simp
    next
      case 2
      then show ?thesis using new by simp
    qed simp
  qed
  then have "{i. i < length (ss @ [s]) \<and> (\<exists>j < i. (ss @ [s]) ! i < (ss @ [s]) ! j)} =
      ?A \<union> (if \<exists>t \<in> set ss. s < t then {length ss} else {})" by blast
  then show ?thesis unfolding regressions_def by (simp add: card_Un_disjoint)
qed

definition greatest :: "u64 list \<Rightarrow> u64" where
  "greatest ss = Max (insert 0 (set ss))"

lemma greatest_simps [simp]: "greatest [] = 0" "greatest (ss @ [s]) = max (greatest ss) s"
proof -
  have "insert 0 (set (ss @ [s])) = insert s (insert 0 (set ss))" by auto
  then show "greatest (ss @ [s]) = max (greatest ss) s" unfolding greatest_def by (subst max.commute) simp
qed (simp add: greatest_def)

lemma less_greatest: "s < greatest ss \<longleftrightarrow> (\<exists>t \<in> set ss. s < t)"
  unfolding greatest_def by (subst Max_gr_iff) auto

lemma observe_counts:
  "total_msgs (observe_seq us stats_new) = of_nat (length us)"
  "total_bytes (observe_seq us stats_new) = sum_list (map (fst \<circ> snd) us)"
  by (induction us rule: rev_induct) (auto simp: stats_new_def stats_observe_def Let_def split: option.splits)

lemma observe_kinds:
  "bt_ok (by_kind (observe_seq us stats_new)) \<and>
   (case map_of (by_kind (observe_seq us stats_new)) kind of None \<Rightarrow> 0 | Some k \<Rightarrow> k) =
     of_nat (length (filter (\<lambda>u. fst u = kind) us))"
proof (induction us rule: rev_induct)
  case Nil
  then show ?case by (simp add: stats_new_def)
next
  case (snoc u us)
  obtain k n slot where u: "u = (k, n, slot)" by (metis prod_cases3)
  have "by_kind (stats_observe k n slot st) =
      bt_insert k ((case map_of (by_kind st) k of None \<Rightarrow> 0 | Some x \<Rightarrow> x) + 1) (by_kind st)" for st
    by (auto simp: stats_observe_def Let_def split: option.splits)
  with snoc u show ?case by (cases "kind = k") (simp_all add: seq_simps)
qed

lemma observe_ends:
  "first_slot (observe_seq us stats_new) = (case slots_of us of [] \<Rightarrow> None | s # _ \<Rightarrow> Some s)"
  "last_slot (observe_seq us stats_new) = (if slots_of us = [] then None else Some (last (slots_of us)))"
proof (induction us rule: rev_induct)
  case Nil
  case 1 show ?case by (simp add: stats_new_def)
  case 2 show ?case by (simp add: stats_new_def)
next
  case (snoc u us)
  obtain k n slot where u: "u = (k, n, slot)" by (metis prod_cases3)
  case 1 with snoc u show ?case
    by (cases slot) (simp_all add: stats_observe_def Let_def split: list.splits)
  case 2 with snoc u show ?case
    by (cases slot) (simp_all add: stats_observe_def Let_def)
qed

lemma observe_slots:
  "max_seen_slot (observe_seq us stats_new) = greatest (slots_of us) \<and>
   slot_regressions (observe_seq us stats_new) = of_nat (regressions (slots_of us))"
proof (induction us rule: rev_induct)
  case Nil
  then show ?case by (simp add: stats_new_def regressions_def)
next
  case (snoc u us)
  obtain k n slot where u: "u = (k, n, slot)" by (metis prod_cases3)
  let ?st = "observe_seq us stats_new"
  show ?case
  proof (cases slot)
    case None
    with snoc u show ?thesis by (simp add: stats_observe_def Let_def)
  next
    case (Some s)
    with snoc u show ?thesis
      by (auto simp: stats_observe_def Let_def regressions_snoc less_greatest [symmetric] max_def)
  qed
qed

section \<open>Properties\<close>

definition received :: "(bytes \<Rightarrow> string) \<Rightarrow> (subscribe_update \<Rightarrow> u64) \<Rightarrow> probe_wake list
    \<Rightarrow> (update_kind \<times> u64 \<times> u64 option) list" where
  "received b58 encoded_len ws = List.map_filter (\<lambda>w.
     case pw_stream w of
       Some (Received u) \<Rightarrow> (case summarize b58 encoded_len u of (kind, n, slot, _) \<Rightarrow> Some (kind, n, slot))
     | _ \<Rightarrow> None) ws"

lemma probe_wake_up_stats:
  "snd (probe_wake_up b58 encoded_len c w st) =
     foldl (\<lambda>st (kind, n, slot). stats_observe kind n slot st) st (received b58 encoded_len [w])"
  by (auto simp: probe_wake_up_def received_def List.map_filter_simps Let_def
      split: option.splits stream_event.splits prod.splits)

lemma received_Cons: "received b58 encoded_len (w # ws) = received b58 encoded_len [w] @ received b58 encoded_len ws"
  by (auto simp: received_def List.map_filter_simps split: option.splits)

lemma probe_loop_stats:
  "\<exists>k \<le> length ws. snd (probe_loop b58 encoded_len c ws st) =
     foldl (\<lambda>st (kind, n, slot). stats_observe kind n slot st) st (received b58 encoded_len (take k ws)) \<and>
     (fst (probe_loop b58 encoded_len c ws st) = None \<longrightarrow> k = length ws)"
proof (induction ws arbitrary: st)
  case Nil
  then show ?case by (simp add: received_def List.map_filter_simps)
next
  case (Cons w ws)
  obtain ro st1 where w: "probe_wake_up b58 encoded_len c w st = (ro, st1)" by fastforce
  with probe_wake_up_stats [of b58 encoded_len c w st]
  have st1: "st1 = foldl (\<lambda>st (kind, n, slot). stats_observe kind n slot st) st (received b58 encoded_len [w])" by simp
  show ?case
  proof (cases ro)
    case (Some r)
    with w st1 show ?thesis by (intro exI [of _ 1]) simp
  next
    case None
    obtain k where k: "k \<le> length ws" "snd (probe_loop b58 encoded_len c ws st1) =
        foldl (\<lambda>st (kind, n, slot). stats_observe kind n slot st) st1 (received b58 encoded_len (take k ws))"
      "fst (probe_loop b58 encoded_len c ws st1) = None \<longrightarrow> k = length ws"
      using Cons.IH [of st1] by (elim exE conjE) (rule that)
    have "received b58 encoded_len (take (Suc k) (w # ws)) =
        received b58 encoded_len [w] @ received b58 encoded_len (take k ws)"
      by (subst received_Cons [symmetric]) simp
    with None w st1 k show ?thesis by (intro exI [of _ "Suc k"]) simp
  qed
qed

text \<open>The statistics of the probe are exact. They count the updates received up to the end of the
  loop, in all and of every kind (in a map whose keys ascend), add up their lengths, give the first,
  the last and the greatest slot, and count as regressions the slots that came after a greater one.\<close>

theorem probe_statistics_exact:
  "\<exists>k \<le> length ws. let st = snd (probe_loop b58 encoded_len c ws stats_new);
       us = received b58 encoded_len (take k ws); ss = slots_of us in
     total_msgs st = of_nat (length us) \<and> total_bytes st = sum_list (map (fst \<circ> snd) us) \<and>
     sorted_wrt (<) (map fst (by_kind st)) \<and>
     (\<forall>kind. (case map_of (by_kind st) kind of None \<Rightarrow> 0 | Some n \<Rightarrow> n) =
        of_nat (length (filter (\<lambda>u. fst u = kind) us))) \<and>
     first_slot st = (case ss of [] \<Rightarrow> None | s # _ \<Rightarrow> Some s) \<and>
     last_slot st = (if ss = [] then None else Some (last ss)) \<and>
     max_seen_slot st = Max (insert 0 (set ss)) \<and>
     slot_regressions st = of_nat (card {i. i < length ss \<and> (\<exists>j < i. ss ! i < ss ! j)})"
proof -
  obtain k where k: "k \<le> length ws" "snd (probe_loop b58 encoded_len c ws stats_new) =
      observe_seq (received b58 encoded_len (take k ws)) stats_new"
    using probe_loop_stats [of ws b58 encoded_len c stats_new] by (auto simp: observe_seq_def)
  let ?us = "received b58 encoded_len (take k ws)"
  have "bt_ok (by_kind (observe_seq ?us stats_new))" using observe_kinds by blast
  note facts = observe_counts [of ?us] this [unfolded bt_ok_def] observe_kinds [of ?us, THEN conjunct2] observe_ends [of ?us]
    observe_slots [of ?us, unfolded greatest_def regressions_def, THEN conjunct1]
    observe_slots [of ?us, unfolded greatest_def regressions_def, THEN conjunct2]
  show ?thesis
    unfolding Let_def k(2) by (rule exI [of _ k], intro conjI allI k(1)) (rule facts)+
qed

text \<open>C39: What the probe asks for the reader grants. The probe builds a request exactly when its options
  name a filter, and the reader accepts every request it builds, with exactly the streams, the filters
  and the start slot of the options.\<close>

theorem probe_request_accepted:
  "case build_subscribe_request c of
     Inl e \<Rightarrow> \<not> wants_tx c \<and> \<not> wants_acct c \<and> \<not> cli_blocks_meta c
   | Inr req \<Rightarrow> (\<exists>parsed. parse_subscribe_request req = Inr parsed \<and> sf_from_slot parsed = cli_from_slot c \<and>
       (has_stream parsed Tx \<longleftrightarrow> wants_tx c) \<and> (has_stream parsed Acct \<longleftrightarrow> wants_acct c) \<and>
       (has_stream parsed Block \<longleftrightarrow> cli_blocks_meta c) \<and>
       sf_transactions parsed = (if wants_tx c
         then [(''probe'', \<lparr>vote = cli_tx_vote c, failed = cli_tx_failed c, sig_filter = None,
                 account_include = cli_tx_account c, account_exclude = [], account_required = []\<rparr>)] else []) \<and>
       sf_accounts parsed = (if wants_acct c
         then [(''probe'', \<lparr>account_list = cli_account c, owner_list = cli_account_owner c, acct_filters = [],
                 nonempty_txn_signature = None\<rparr>)] else []))"
  by (auto simp: build_subscribe_request_def parse_subscribe_request_def default_request_def default_tx_filter_def
      default_acct_filter_def Let_def)

text \<open>
  The duration is that of one iteration: while updates or pings keep coming sooner, the probe does
  not stop for it, however long it runs.
\<close>

lemma probe_duration_restarts:
  assumes "cli_duration c = Some secs"
    and "\<forall>w \<in> set ws. pw_stream w \<noteq> None \<or> pw_tick w \<or> pw_waited w < unat secs * 1000000000"
  shows "fst (probe_loop b58 encoded_len c ws st) \<noteq> Some DurationReached"
  using assms(2)
proof (induction ws arbitrary: st)
  case (Cons w ws)
  have "fst (probe_wake_up b58 encoded_len c w st) \<noteq> Some DurationReached"
    using assms(1) Cons.prems
    by (auto simp: probe_wake_up_def Let_def split: option.splits stream_event.splits prod.splits)
  with Cons show ?case by (auto split: prod.splits option.splits)
qed simp

text \<open>At most eight characters of a token are shown.\<close>

lemma mask_token_hides: "mask_token token = Some shown \<Longrightarrow> length shown \<le> 11"
  by (auto simp: mask_token_def split: if_splits)

text \<open>A report is the statistics of the updates that came, and the options were valid and the call accepted.\<close>

lemma probe_report:
  assumes "probe_main net show_f64 fixed b58 encoded_len endpoint c wakes elapsed = Report text"
  shows "(\<exists>req. build_subscribe_request c = Inr req) \<and>
    (\<exists>md req. build_interceptor (pn_valid net) show_f64 c = Inr md \<and> pn_subscribe net md req = None) \<and>
    (\<exists>k \<le> length wakes. text = stats_render fixed elapsed (cli_speed c)
       (observe_seq (received b58 encoded_len (take k wakes)) stats_new))"
proof -
  obtain k where k: "k \<le> length wakes" "snd (probe_loop b58 encoded_len c wakes stats_new) =
      observe_seq (received b58 encoded_len (take k wakes)) stats_new"
    using probe_loop_stats [of wakes b58 encoded_len c stats_new] by (auto simp: observe_seq_def)
  from assms have "(\<exists>req. build_subscribe_request c = Inr req) \<and>
      (\<exists>md req. build_interceptor (pn_valid net) show_f64 c = Inr md \<and> pn_subscribe net md req = None) \<and>
      text = stats_render fixed elapsed (cli_speed c) (snd (probe_loop b58 encoded_len c wakes stats_new))"
    by (auto simp: probe_main_def split: sum.splits if_splits option.splits prod.splits probe_end.splits)
  with k show ?thesis by metis
qed

text \<open>Without an update the report has no line for kinds or slots, and its rates are 0.\<close>

lemma empty_report:
  "length (stats_lines fixed elapsed speed stats_new) = 3"
  by (simp add: stats_lines_def stats_new_def Let_def)

lemma report_without_time: "per_sec x (as_secs_f64 0) = Finite 0"
  by (simp add: per_sec_def as_secs_f64_def round_f64_def round_pos_def)

end
