(* ===== verification/Sealed.thy ===== *)
theory Sealed
  imports Lane
begin

text \<open>
  What is on disk under the name of a chunk stays as it is (\<open>sillage-writer/src/chunker.rs\<close>,
  \<open>sillage-writer/src/lane.rs\<close>): \<open>open_chunk\<close> refuses a range whose payload or metadata exists, so no
  later seal writes over it. The locale carries a relation over the primitive steps of the
  chunker to the operations built from them and to the whole run of a lane.
\<close>

section \<open>From the steps of the chunker to the lane\<close>

lemma seal_chunk_cfg: "seal_chunk E now idx reason x = (y, r) \<Longrightarrow> ch_cfg (fst y) = ch_cfg (fst x)"
  using seal_chunk_open [of E now idx reason "fst x" "snd x" "fst y" "snd y" r]
  by (simp add: same_chunker_def)

lemma seal_all_cfg: "seal_all E now reason idxs x = (y, r) \<Longrightarrow> ch_cfg (fst y) = ch_cfg (fst x)"
  by (induction idxs arbitrary: x) (auto split: prod.splits option.splits dest: seal_chunk_cfg)

text \<open>Making room is sealing some chunks in turn.\<close>

lemma make_room_seals:
  "make_room E now idx x = (y, r) \<Longrightarrow> \<exists>idxs r'. seal_all E now ''cap-reached'' idxs x = (y, r')"
proof (induction E now idx x arbitrary: y r rule: make_room.induct)
  case (1 E now chunk_idx c d)
  have none: "\<exists>idxs r'. seal_all E now ''cap-reached'' idxs (c, d) = (y, r')" if "y = (c, d)"
    using that by (intro exI [of _ "[]"]) simp
  show ?case
  proof (cases "length (open_chunks c) < max_open_chunks (ch_cfg c) \<or> open_chunks c = [] \<or> fst (hd (open_chunks c)) = chunk_idx")
    case True
    with "1.prems" none show ?thesis
      by (cases "open_chunks c") (auto simp: make_room.simps [of _ _ _ c] split: if_splits)
  next
    case False
    then obtain oldest oc rest where o: "open_chunks c = (oldest, oc) # rest" "oldest \<noteq> chunk_idx"
      and full: "\<not> length (open_chunks c) < max_open_chunks (ch_cfg c)"
      by (cases "open_chunks c") auto
    obtain x1 r1 where s: "seal_chunk E now oldest ''cap-reached'' (c, d) = (x1, r1)" by fastforce
    show ?thesis
    proof (cases r1)
      case None
      with "1.prems" o full s have "make_room E now chunk_idx x1 = (y, r)"
        by (simp add: make_room.simps [of _ _ _ c])
      from "1.IH" [OF full o(1) refl o(2) s [symmetric] None this] obtain idxs r'
        where "seal_all E now ''cap-reached'' idxs x1 = (y, r')" by blast
      with s None have "seal_all E now ''cap-reached'' (oldest # idxs) (c, d) = (y, r')" by simp
      then show ?thesis by blast
    next
      case (Some e)
      with "1.prems" o full s have "seal_all E now ''cap-reached'' [oldest] (c, d) = (y, Some e)"
        by (auto simp: make_room.simps [of _ _ _ c])
      then show ?thesis by blast
    qed
  qed
qed

lemma make_room_cfg: "make_room E now idx x = (y, r) \<Longrightarrow> ch_cfg (fst y) = ch_cfg (fst x)"
  using make_room_seals seal_all_cfg by blast

lemma open_chunk_cfg: "open_chunk E now idx x = (y, r) \<Longrightarrow> ch_cfg (fst y) = ch_cfg (fst x)"
  by (auto simp: open_chunk_def Let_def split: prod.splits if_splits option.splits)

lemma place_cfg: "place E now idx x = (y, r) \<Longrightarrow> ch_cfg (fst y) = ch_cfg (fst x)"
  by (auto simp: place_def split: if_splits prod.splits option.splits dest!: make_room_cfg open_chunk_cfg)

locale lane_relation =
  fixes E :: "'bm writer_env"
    and R :: "'bm chunker_state \<Rightarrow> 'bm chunker_state \<Rightarrow> bool"
  assumes R_refl: "R x x"
    and R_trans: "R x y \<Longrightarrow> R y z \<Longrightarrow> R x z"
    and R_seal: "seal_chunk E now idx reason x = (y, r) \<Longrightarrow> R x y"
    and R_open: "open_chunk E now (slot div slots_per_chunk (ch_cfg (fst x))) x = (y, r) \<Longrightarrow> R x y"
    and R_append: "append_to E now msg slot (slot div slots_per_chunk (ch_cfg (fst x))) x = (y, r) \<Longrightarrow> R x y"
    and R_watermark: "R (c, d) (c\<lparr>watermark_slot := w\<rparr>, d)"
begin

lemma seal_all_R: "seal_all E now reason idxs x = (y, r) \<Longrightarrow> R x y"
proof (induction idxs arbitrary: x)
  case Nil
  then show ?case using R_refl by simp
next
  case (Cons i idxs)
  obtain x1 r1 where s: "seal_chunk E now i reason x = (x1, r1)" by fastforce
  show ?case
  proof (cases r1)
    case None
    with Cons.prems s have "seal_all E now reason idxs x1 = (y, r)" by simp
    from R_trans [OF R_seal [OF s] Cons.IH [OF this]] show ?thesis .
  next
    case (Some e)
    with Cons.prems s R_seal [OF s] show ?thesis by simp
  qed
qed

lemma make_room_R: "make_room E now idx x = (y, r) \<Longrightarrow> R x y"
  using make_room_seals seal_all_R by blast

lemma place_R:
  assumes "place E now (slot div slots_per_chunk (ch_cfg (fst x))) x = (y, r)"
  shows "R x y"
proof (cases "map_of (open_chunks (fst x)) (slot div slots_per_chunk (ch_cfg (fst x))) = None")
  case False
  with assms R_refl show ?thesis by (simp add: place_def)
next
  case True
  obtain x1 r1 where m: "make_room E now (slot div slots_per_chunk (ch_cfg (fst x))) x = (x1, r1)" by fastforce
  note R1 = make_room_R [OF m]
  show ?thesis
  proof (cases r1)
    case None
    with True assms m have "open_chunk E now (slot div slots_per_chunk (ch_cfg (fst x1))) x1 = (y, r)"
      by (simp add: place_def make_room_cfg [OF m])
    from R_trans [OF R1 R_open [OF this]] show ?thesis .
  next
    case (Some e)
    with True assms m R1 show ?thesis by (simp add: place_def)
  qed
qed

lemma ingest_R:
  assumes "ingest E now msg slot x = (y, r)"
  shows "R x y"
proof -
  obtain c d where x: "x = (c, d)" by fastforce
  define cw where "cw = c\<lparr>watermark_slot := Some (opt_max (watermark_slot c) slot)\<rparr>"
  let ?idx = "slot div slots_per_chunk (ch_cfg c)"
  have Rw: "R x (cw, d)" using R_watermark by (simp add: x cw_def)
  have cfg: "ch_cfg cw = ch_cfg c" by (simp add: cw_def)
  obtain x1 r1 where p: "place E now ?idx (cw, d) = (x1, r1)" by fastforce
  obtain x2 r2 where a: "append_to E now msg slot ?idx x1 = (x2, r2)" by fastforce
  have R1: "R (cw, d) x1" using p by (intro place_R) (simp add: cfg)
  have R2: "R x1 x2" using a place_cfg [OF p] by (intro R_append) (simp add: cfg)
  have "y = (cw, d) \<or> y = x1 \<or> y = x2 \<or> (\<exists>idxs. seal_all E now ''watermark'' idxs x2 = (y, r))"
    using assms p a unfolding ingest_def Let_def x
    by (auto simp: cw_def [symmetric] cfg split: if_splits option.splits prod.splits)
  then show ?thesis
    using Rw R_trans [OF Rw R1] R_trans [OF R_trans [OF Rw R1] R2]
      R_trans [OF R_trans [OF R_trans [OF Rw R1] R2] seal_all_R] by blast
qed

lemma tick_R: "chunker_tick E now x = (y, r) \<Longrightarrow> R x y"
  using seal_all_R by (simp add: chunker_tick_def Let_def)

lemma shutdown_R: "chunker_shutdown E now x = (y, r) \<Longrightarrow> R x y"
  using seal_all_R by (simp add: chunker_shutdown_def)

lemma receive_R:
  assumes "receive E from_slot now msg k = (k', r)"
  shows "R (lane_state k) (lane_state k')"
proof (cases "extract_slot (inner msg)")
  case None
  with assms R_refl show ?thesis by (simp add: receive_def)
next
  case (Some slot)
  obtain y e where i: "ingest E now msg slot (lane_state k) = (y, e)" by fastforce
  with assms Some have "lane_state k' = y"
    by (auto simp: receive_def Let_def split: if_splits option.splits)
  with ingest_R [OF i] show ?thesis by simp
qed

lemma consume_R: "consume E from_slot closed_at evs k = (k', r) \<Longrightarrow> R (lane_state k) (lane_state k')"
proof (induction evs arbitrary: k)
  case Nil
  then show ?case by (auto split: prod.splits dest!: shutdown_R)
next
  case (Cons ev evs)
  show ?case
  proof (cases ev)
    case Heartbeat
    with Cons show ?thesis by simp
  next
    case (TickEvent now)
    obtain y e where t: "chunker_tick E now (lane_state k) = (y, e)" by fastforce
    show ?thesis
      using Cons.prems Cons.IH [of "k\<lparr>lane_state := y\<rparr>"] R_trans [OF tick_R [OF t]] tick_R [OF t] t TickEvent
      by (cases e) auto
  next
    case (Received now msg)
    obtain k1 e where t: "receive E from_slot now msg k = (k1, e)" by fastforce
    show ?thesis
      using Cons.prems Cons.IH [of k1] R_trans [OF receive_R [OF t]] receive_R [OF t] t Received
      by (cases e) auto
  qed
qed

end

section \<open>Chunks on disk\<close>

text \<open>
  \<open>on_disk\<close> is the guard of \<open>open_chunk\<close>. \<open>chunk_names\<close>: a directory only the writer has written to.
\<close>

definition on_disk :: "dir \<Rightarrow> u64 \<Rightarrow> u64 \<Rightarrow> bool" where
  "on_disk d s e \<longleftrightarrow> exists_in d (chunk_file s e ''zst'') \<or> exists_in d (chunk_file s e ''meta.json'')"

definition WRITER_EXTS :: "string set" where
  "WRITER_EXTS = {''zst'', ''idx'', ''meta.json'', ''zst.partial'', ''idx.partial'', ''meta.json.partial'',
     ''uploaded'', ''uploaded.partial''}"

definition chunk_names :: "dir \<Rightarrow> bool" where
  "chunk_names d \<longleftrightarrow> (\<forall>n. exists_in d n \<longrightarrow> (\<exists>s e. \<exists>x \<in> WRITER_EXTS. n = chunk_file s e x))"

definition lane_good :: "'bm writer_env \<Rightarrow> 'bm chunker_state \<Rightarrow> bool" where
  "lane_good E st \<longleftrightarrow>
     chunker_inv E (fst st) \<and> chunk_names (snd st) \<and>
     (\<forall>(idx, oc) \<in> set (open_chunks (fst st)).
        oc_start_slot oc div slots_per_chunk (ch_cfg (fst st)) = idx \<and>
        \<not> on_disk (snd st) (oc_start_slot oc) (oc_end_slot_exclusive oc))"

text \<open>
  \<open>keeps\<close>: from a good state to a good state, without a change to any file of a chunk on disk and
  without a change to any marker.
\<close>

definition keeps :: "'bm writer_env \<Rightarrow> 'bm chunker_state \<Rightarrow> 'bm chunker_state \<Rightarrow> bool" where
  "keeps E st st' \<longleftrightarrow> lane_good E st \<longrightarrow>
     lane_good E st' \<and>
     (\<forall>s e x. on_disk (snd st) s e \<longrightarrow> map_of (snd st') (chunk_file s e x) = map_of (snd st) (chunk_file s e x)) \<and>
     (\<forall>s e. map_of (snd st') (chunk_file s e ''uploaded'') = map_of (snd st) (chunk_file s e ''uploaded''))"

lemma on_disk_same:
  "map_of d' (chunk_file s e ''zst'') = map_of d (chunk_file s e ''zst'') \<Longrightarrow>
   map_of d' (chunk_file s e ''meta.json'') = map_of d (chunk_file s e ''meta.json'') \<Longrightarrow>
   on_disk d' s e = on_disk d s e"
  by (simp add: on_disk_def exists_in_def)

lemma keeps_refl: "keeps E st st"
  by (simp add: keeps_def)

lemma keeps_trans:
  assumes "keeps E a b" and "keeps E b c"
  shows "keeps E a c"
  unfolding keeps_def
proof (intro impI conjI allI)
  assume g: "lane_good E a"
  note ab = assms(1) [unfolded keeps_def, rule_format, OF g]
  note bc = assms(2) [unfolded keeps_def, rule_format, OF conjunct1 [OF ab]]
  show "lane_good E c" using bc by simp
  fix s e
  show "map_of (snd c) (chunk_file s e ''uploaded'') = map_of (snd a) (chunk_file s e ''uploaded'')"
    using ab bc by simp
  fix x
  assume o: "on_disk (snd a) s e"
  then have "on_disk (snd b) s e" using ab on_disk_same [of "snd b" s e "snd a"] by simp
  with ab bc o show "map_of (snd c) (chunk_file s e x) = map_of (snd a) (chunk_file s e x)" by simp
qed

text \<open>Operations that touch only files of one chunk not on disk.\<close>

lemma run_ops_own:
  assumes r: "run_ops fails now ops d = (d', res)"
    and own: "\<forall>op \<in> set ops. \<forall>n \<in> touches op. \<exists>x \<in> WRITER_EXTS - {''uploaded''}. n = chunk_file s e x"
  shows "s' \<noteq> s \<or> e' \<noteq> e \<Longrightarrow> map_of d' (chunk_file s' e' x) = map_of d (chunk_file s' e' x)"
    and "map_of d' (chunk_file s' e' ''uploaded'') = map_of d (chunk_file s' e' ''uploaded'')"
    and "chunk_names d \<Longrightarrow> chunk_names d'"
proof -
  have other: "map_of d' n = map_of d n" if "\<forall>x \<in> WRITER_EXTS - {''uploaded''}. n \<noteq> chunk_file s e x" for n
    using own that by (intro run_ops_untouched [OF r]) blast
  show "map_of d' (chunk_file s' e' x) = map_of d (chunk_file s' e' x)" if "s' \<noteq> s \<or> e' \<noteq> e"
    using that by (intro other) auto
  show "map_of d' (chunk_file s' e' ''uploaded'') = map_of d (chunk_file s' e' ''uploaded'')"
    by (intro other) auto
  show "chunk_names d'" if "chunk_names d"
    unfolding chunk_names_def
  proof (intro allI impI)
    fix n assume n: "exists_in d' n"
    show "\<exists>s e. \<exists>x \<in> WRITER_EXTS. n = chunk_file s e x"
    proof (cases "\<exists>x \<in> WRITER_EXTS - {''uploaded''}. n = chunk_file s e x")
      case False
      then have "exists_in d n" using other [of n] n by (auto simp: exists_in_def)
      with that show ?thesis by (simp add: chunk_names_def)
    qed blast
  qed
qed

lemma seal_ops_own:
  assumes "oc_named oc" and "seal_ops E st reason oc = (ops, res)"
  shows "\<forall>op \<in> set ops. \<forall>n \<in> touches op.
    \<exists>x \<in> WRITER_EXTS - {''uploaded''}. n = chunk_file (oc_start_slot oc) (oc_end_slot_exclusive oc) x"
  using assms
  by (auto simp: seal_ops_def oc_named_def Let_def WRITER_EXTS_def split: option.splits sum.splits)

lemma seal_keeps:
  assumes sl: "seal_chunk E now idx reason x = (y, r)"
  shows "keeps E x y"
proof -
  obtain c d c' d' where x: "x = (c, d)" "y = (c', d')" by fastforce
  note s = sl [unfolded x]
  show ?thesis
  proof (cases "map_of (open_chunks c) idx")
    case None
    with s x keeps_refl show ?thesis by (simp add: seal_chunk_def)
  next
    case (Some oc)
    show ?thesis
      unfolding keeps_def
    proof (rule impI)
      assume g: "lane_good E x"
      let ?s = "oc_start_slot oc" and ?e = "oc_end_slot_exclusive oc"
      have inv: "chunker_inv E c" and names: "chunk_names d" using g by (simp_all add: lane_good_def x)
      have oc: "(idx, oc) \<in> set (open_chunks c)" using Some by (rule map_of_SomeD)
      have absent: "\<not> on_disk d ?s ?e" and idx: "?s div slots_per_chunk (ch_cfg c) = idx"
        using g oc by (auto simp: lane_good_def x)
      have named: "oc_named oc" using inv oc by (auto simp: chunker_inv_def chunk_ok_def Let_def)
      obtain ops res where ops: "seal_ops E (ch_stream c) reason oc = (ops, res)" by fastforce
      obtain res' where run: "run_ops (io_fails E) now ops d = (d', res')"
        using s Some ops by (auto simp: seal_chunk_def Let_def split: prod.splits option.splits)
      note own = run_ops_own [OF run seal_ops_own [OF named ops]]
      have "chunker_inv E c'" by (rule chunker_inv_seal [OF inv s])
      moreover have "chunk_names d'" using own(3) names by simp
      moreover have "oc_start_slot oc' div slots_per_chunk (ch_cfg c') = i \<and>
          \<not> on_disk d' (oc_start_slot oc') (oc_end_slot_exclusive oc')" if "(i, oc') \<in> set (open_chunks c')" for i oc'
      proof -
        have "(i, oc') \<in> set (open_chunks c)" "i \<noteq> idx" and cfg: "ch_cfg c' = ch_cfg c"
          using that seal_chunk_open [OF s] by (auto simp: set_delete_filter same_chunker_def)
        then have i: "oc_start_slot oc' div slots_per_chunk (ch_cfg c) = i"
          and a: "\<not> on_disk d (oc_start_slot oc') (oc_end_slot_exclusive oc')" and "oc_start_slot oc' \<noteq> ?s"
          using g idx by (auto simp: lane_good_def x)
        then have "on_disk d' (oc_start_slot oc') (oc_end_slot_exclusive oc') = on_disk d (oc_start_slot oc') (oc_end_slot_exclusive oc')"
          by (intro on_disk_same own(1)) simp_all
        with i a cfg show ?thesis by simp
      qed
      ultimately have "lane_good E y" by (auto simp: lane_good_def x)
      moreover have "map_of d' (chunk_file s e n) = map_of d (chunk_file s e n)" if "on_disk d s e" for s e n
        using that absent by (intro own(1)) auto
      ultimately show "lane_good E y \<and>
          (\<forall>s e n. on_disk (snd x) s e \<longrightarrow> map_of (snd y) (chunk_file s e n) = map_of (snd x) (chunk_file s e n)) \<and>
          (\<forall>s e. map_of (snd y) (chunk_file s e ''uploaded'') = map_of (snd x) (chunk_file s e ''uploaded''))"
        using own(2) by (simp add: x)
    qed
  qed
qed

lemma unat_div_mult: "unat (slot div spc * spc) = unat slot div unat spc * unat (spc :: u64)"
proof -
  have "unat (slot div spc) * unat spc \<le> unat slot" by (simp add: unat_div)
  also have "unat slot < 2 ^ 64" by (rule order_less_le_trans [OF unsigned_less]) simp
  finally have "unat (slot div spc) * unat spc < 2 ^ 64" .
  then show ?thesis by (simp add: unat_mult_lem [symmetric] unat_div [symmetric])
qed

lemma div_mult_div_word: "(slot div spc * spc) div spc = (slot div spc :: u64)"
proof (cases "spc = 0")
  case False
  then have "unat spc \<noteq> 0" by (simp add: unat_eq_zero)
  have "unat ((slot div spc * spc) div spc) = unat (slot div spc * spc) div unat spc" by (rule unat_div)
  also have "\<dots> = unat slot div unat spc" using \<open>unat spc \<noteq> 0\<close> by (simp add: unat_div_mult)
  also have "\<dots> = unat (slot div spc)" by (rule unat_div [symmetric])
  finally show ?thesis by (simp only: word_unat_eq_iff)
qed simp

lemma slot_in_range:
  assumes "s = slot div spc * spc" and "spc \<noteq> 0" and "unat s + unat spc < 2 ^ 64"
  shows "s \<le> slot \<and> slot < s + (spc :: u64)"
proof -
  have "0 < unat spc" using assms(2) by (simp add: unat_gt_0)
  then have "unat slot < unat s + unat spc"
    using dividend_less_div_times [of "unat spc" "unat slot"] by (simp add: assms(1) unat_div_mult)
  moreover have "unat (s + spc) = unat s + unat spc" using assms(3) by (simp add: unat_add_lem [symmetric])
  moreover have "unat s \<le> unat slot" by (simp add: assms(1) unat_div_mult)
  ultimately show ?thesis by (simp add: word_less_nat_alt word_le_nat_alt)
qed

lemma open_keeps:
  fixes E :: "'a writer_env"
  assumes "open_chunk E now (slot div slots_per_chunk (ch_cfg (fst x))) x = (y, r)"
  shows "keeps E x y"
proof -
  obtain c d c' d' where x: "x = (c, d)" "y = (c', d')" by fastforce
  let ?idx = "slot div slots_per_chunk (ch_cfg c)"
  let ?s = "?idx * slots_per_chunk (ch_cfg c)" and ?e = "?idx * slots_per_chunk (ch_cfg c) + slots_per_chunk (ch_cfg c)"
  let ?oc = "open_chunk_of (ch_stream c) now ?s ?e :: 'a open_chunk"
  let ?p = "chunk_file ?s ?e ''zst.partial''"
  have o: "open_chunk E now ?idx (c, d) = ((c', d'), r)" using assms by (simp add: x)
  have names_oc: "partial_zst ?oc = ?p" "final_zst ?oc = chunk_file ?s ?e ''zst''"
    "final_meta ?oc = chunk_file ?s ?e ''meta.json''" "oc_start_slot ?oc = ?s" "oc_end_slot_exclusive ?oc = ?e"
    by (simp_all add: open_chunk_of_def)
  have "y = x \<or> \<not> on_disk d ?s ?e \<and> c' = c\<lparr>open_chunks := bt_insert ?idx ?oc (open_chunks c)\<rparr> \<and>
      d' = create_file ?p \<lparr>content = [], mtime = now\<rparr> d"
    using o unfolding open_chunk_def on_disk_def x
    by (auto simp: Let_def names_oc split: if_splits)
  then show ?thesis
  proof
    assume new: "\<not> on_disk d ?s ?e \<and> c' = c\<lparr>open_chunks := bt_insert ?idx ?oc (open_chunks c)\<rparr> \<and>
      d' = create_file ?p \<lparr>content = [], mtime = now\<rparr> d"
    have run: "run_ops (\<lambda>_. False) now [CreateFile ?p] d = (d', None)" using new by simp
    have "\<forall>op \<in> set [CreateFile ?p]. \<forall>n \<in> touches op. \<exists>x \<in> WRITER_EXTS - {''uploaded''}. n = chunk_file ?s ?e x"
      by (simp add: names_oc WRITER_EXTS_def)
    note own = run_ops_own [OF run this]
    have disk: "on_disk d' s e = on_disk d s e" for s e
      using new by (intro on_disk_same) (simp_all add: names_oc)
    have absent: "\<not> on_disk d' ?s ?e" using new disk by blast
    have cfg: "ch_cfg c' = ch_cfg c" using new by simp
    show ?thesis
      unfolding keeps_def
    proof (intro impI conjI allI)
      assume g: "lane_good E x"
      then have inv: "chunker_inv E c" and names: "chunk_names d" by (simp_all add: lane_good_def x)
      have "chunker_inv E c'" using open_chunk_inv [OF inv o] by simp
      moreover have "chunk_names d'" using own(3) names by simp
      moreover have "oc_start_slot oc div slots_per_chunk (ch_cfg c') = i \<and>
          \<not> on_disk d' (oc_start_slot oc) (oc_end_slot_exclusive oc)" if "(i, oc) \<in> set (open_chunks c')" for i oc
      proof -
        have "(i, oc) = (?idx, ?oc) \<or> (i, oc) \<in> set (open_chunks c)"
          using that new set_bt_insert_subset [of ?idx ?oc "open_chunks c"] by auto
        then show ?thesis
        proof
          assume "(i, oc) = (?idx, ?oc)"
          then show ?thesis using absent cfg by (simp add: names_oc div_mult_div_word)
        next
          assume "(i, oc) \<in> set (open_chunks c)"
          then show ?thesis using g cfg disk by (auto simp: lane_good_def x)
        qed
      qed
      ultimately show "lane_good E y" by (auto simp: lane_good_def x)
      fix s e
      show "map_of (snd y) (chunk_file s e ''uploaded'') = map_of (snd x) (chunk_file s e ''uploaded'')"
        using own(2) by (simp add: x)
      fix n assume "on_disk (snd x) s e"
      then have "on_disk d s e" by (simp add: x)
      then have "s \<noteq> ?s \<or> e \<noteq> ?e" using new by blast
      from own(1) [OF this] show "map_of (snd y) (chunk_file s e n) = map_of (snd x) (chunk_file s e n)"
        by (simp add: x)
    qed
  qed (simp add: keeps_refl)
qed

lemma append_keeps:
  assumes a: "append_to E now msg slot (slot div slots_per_chunk (ch_cfg (fst x))) x = (y, r)"
  shows "keeps E x y"
proof -
  obtain c d c' d' where x: "x = (c, d)" "y = (c', d')" by fastforce
  let ?idx = "slot div slots_per_chunk (ch_cfg c)"
  have ap: "append_to E now msg slot ?idx (c, d) = ((c', d'), r)" using a by (simp add: x)
  have "lane_good E y \<and> d' = d" if g: "lane_good E x"
  proof -
    have inv: "chunker_inv E c" using g by (simp add: lane_good_def x)
    note inv' = append_to_inv [OF inv refl ap]
    have "oc_start_slot oc div slots_per_chunk (ch_cfg c) = i \<and> \<not> on_disk d (oc_start_slot oc) (oc_end_slot_exclusive oc)"
      if m: "(i, oc) \<in> set (open_chunks c')" for i oc
    proof -
      have "i \<in> set (map fst (open_chunks c'))" using m by force
      then have "i \<in> set (map fst (open_chunks c))" using inv' by simp
      then obtain oc0 where oc0: "(i, oc0) \<in> set (open_chunks c)" by auto
      have "chunk_ok E c i oc0" using inv oc0 by (auto simp: chunker_inv_def)
      moreover have "chunk_ok E c' i oc" using inv' m by (auto simp: chunker_inv_def)
      ultimately have "oc_start_slot oc = oc_start_slot oc0" "oc_end_slot_exclusive oc = oc_end_slot_exclusive oc0"
        using inv' by (simp_all add: chunk_ok_def Let_def same_chunker_def)
      then show ?thesis using g oc0 by (auto simp: lane_good_def x)
    qed
    then have "\<forall>(i, oc) \<in> set (open_chunks c'). oc_start_slot oc div slots_per_chunk (ch_cfg c') = i \<and>
        \<not> on_disk d (oc_start_slot oc) (oc_end_slot_exclusive oc)"
      using inv' by (auto simp: same_chunker_def)
    then show ?thesis using g inv' by (simp add: lane_good_def x)
  qed
  then show ?thesis unfolding keeps_def x by auto
qed

lemma watermark_keeps: "keeps E (c, d) (c\<lparr>watermark_slot := w\<rparr>, d)"
  by (simp add: keeps_def lane_good_def chunker_inv_watermark)

interpretation kept: lane_relation E "keeps E" for E :: "'bm writer_env"
  using keeps_refl keeps_trans seal_keeps open_keeps append_keeps watermark_keeps
  by unfold_locales blast+

lemma lane_good_new:
  assumes "chunk_names d"
  shows "lane_good E (chunker_new st cfg, d)"
  using assms by (simp add: lane_good_def) (simp add: chunker_new_def)

section \<open>The range of a sealed chunk\<close>

text \<open>A message of a range on disk, to a chunker with nothing open: as a lane after a restart gets it.\<close>

lemma ingest_on_disk:
  assumes "open_chunks c = []" and "0 < max_open_chunks (ch_cfg c)" and "slots_per_chunk (ch_cfg c) \<noteq> 0"
    and s: "s = slot div slots_per_chunk (ch_cfg c) * slots_per_chunk (ch_cfg c)"
    and "on_disk d s (s + slots_per_chunk (ch_cfg c))"
  shows "ingest E now msg slot (c, d) = ((c\<lparr>watermark_slot := Some (opt_max (watermark_slot c) slot)\<rparr>, d), None)"
proof -
  define cw where "cw = c\<lparr>watermark_slot := Some (opt_max (watermark_slot c) slot)\<rparr>"
  let ?idx = "slot div slots_per_chunk (ch_cfg c)"
  have cw: "open_chunks cw = []" "ch_cfg cw = ch_cfg c" using assms(1) by (simp_all add: cw_def)
  have "make_room E now ?idx (cw, d) = ((cw, d), None)" using assms(2) cw by (simp add: make_room.simps)
  moreover have "open_chunk E now ?idx (cw, d) = ((cw, d), None)"
    using assms(5) cw by (simp add: open_chunk_def Let_def open_chunk_of_def on_disk_def s)
  ultimately have "place E now ?idx (cw, d) = ((cw, d), None)" using cw by (simp add: place_def)
  moreover have "append_to E now msg slot ?idx (cw, d) = ((cw, d), None)" using cw by (simp add: append_to_def)
  ultimately show ?thesis
    using assms(3) cw by (simp add: ingest_def Let_def cw_def [symmetric] behind_watermark_def)
qed

section \<open>Properties\<close>

text \<open>C9: Whatever a lane receives, no file of a chunk whose payload or metadata is on disk is ever
  written, renamed or removed by it: a sealed chunk is final, also for the chunks a run seals
  itself, for a run that ends with an error, and for any failing file operation.\<close>

theorem sealed_chunks_are_final:
  assumes "lane_good E (lane_state k)" and "consume E from_slot closed_at evs k = (k', r)"
    and "on_disk (snd (lane_state k)) s e"
  shows "map_of (snd (lane_state k')) (chunk_file s e x) = map_of (snd (lane_state k)) (chunk_file s e x) \<and>
    lane_good E (lane_state k')"
  using kept.consume_R [OF assms(2)] assms(1,3) by (simp add: keeps_def)

lemma sealed_chunks_are_final_witness:
  "\<exists>k r. consume example_env None 9 [Received 7 (example_msg 42), TickEvent 8]
      (consumer_new Block example_writer [(chunk_file 40 50 ''zst'', \<lparr>content = [1], mtime = 0\<rparr>)]) = (k, r) \<and>
     map_of (snd (lane_state k)) (chunk_file 40 50 ''zst'') = Some \<lparr>content = [1], mtime = 0\<rparr>"
proof -
  let ?d = "[(chunk_file 40 50 ''zst'', \<lparr>content = [1], mtime = 0\<rparr>)]"
  obtain k r where k: "consume example_env None 9 [Received 7 (example_msg 42), TickEvent 8]
      (consumer_new Block example_writer ?d) = (k, r)" by fastforce
  have names: "chunk_names ?d" by (auto simp: chunk_names_def exists_in_def WRITER_EXTS_def split: if_splits)
  have "lane_good example_env (lane_state (consumer_new Block example_writer ?d))"
    using lane_good_new [OF names] by (simp add: consumer_new_def)
  moreover have "on_disk (snd (lane_state (consumer_new Block example_writer ?d :: u32 list consumer))) 40 50"
    by (simp add: on_disk_def exists_in_def consumer_new_def)
  ultimately show ?thesis
    using sealed_chunks_are_final [OF _ k, of 40 50 "''zst''"] k by (simp add: consumer_new_def)
qed

end
