(* ===== verification/Writer.thy ===== *)
theory Writer
  imports Sealed Uploader
begin

text \<open>
  The writer as a process (\<open>sillage-writer/src/main.rs\<close>): recovery and the resume slots, the three
  lanes and the uploader on one file system, and their interleaving as a sequence of events. Each
  event names the file operations that fail in it, so an operation that fails and the
  \<open>WriterRestarts\<close> after it are a crash at that operation.

  A wake-up of a lane and a cycle of the uploader are each one event. Within a cycle the
  uploader reads only the files of chunks that were sealed before it, and no lane touches those
  (theory \<open>Sealed\<close>).
\<close>

section \<open>Start\<close>

text \<open>\<open>resume_slots.insert(..)\<close> for every stream, then \<open>get(..).copied().unwrap_or(None)\<close>.\<close>

definition resume_slots :: "recovery_report \<Rightarrow> (stream \<times> u64 option) list" where
  "resume_slots report = foldl (\<lambda>m s. AList.update (sr_stream s) (resume_slot s) m) [] (per_stream report)"

definition resume_slot_for :: "recovery_report \<Rightarrow> stream \<Rightarrow> u64 option" where
  "resume_slot_for report st = (case map_of (resume_slots report) st of Some r \<Rightarrow> r | None \<Rightarrow> None)"

record ('s, 'bm) writer =
  wr_store :: store
  wr_net :: 's
  wr_resume :: "stream \<Rightarrow> u64 option"
  wr_lanes :: "stream \<Rightarrow> 'bm consumer option"

text \<open>\<open>Chunker::new\<close> creates the directory of its stream.\<close>

definition dir_of :: "store \<Rightarrow> stream \<Rightarrow> dir" where
  "dir_of nvme st = (case nvme st of Some d \<Rightarrow> d | None \<Rightarrow> [])"

definition writer_start :: "(fs_op \<Rightarrow> bool) \<Rightarrow> writer_config \<Rightarrow> store \<times> 's \<Rightarrow> ('s, 'bm) writer" where
  "writer_start fails cfg w =
     (case run_recovery fails (fst w) of
        (report, nvme) \<Rightarrow>
          \<lparr>wr_store = (\<lambda>st. Some (dir_of nvme st)), wr_net = snd w,
           wr_resume = resume_slot_for report,
           wr_lanes = (\<lambda>st. Some (consumer_new st cfg (dir_of nvme st)))\<rparr>)"

section \<open>Events\<close>

definition lane_wake :: "'bm writer_env \<Rightarrow> u64 option \<Rightarrow> lane_event \<Rightarrow> 'bm consumer
    \<Rightarrow> 'bm consumer \<times> chunker_error option" where
  "lane_wake E from_slot ev k =
     (case ev of
        Heartbeat \<Rightarrow> (k, None)
      | TickEvent now \<Rightarrow> (case chunker_tick E now (lane_state k) of (x, r) \<Rightarrow> (k\<lparr>lane_state := x\<rparr>, r))
      | Received now msg \<Rightarrow> receive E from_slot now msg k)"

text \<open>The loop of the consumer task is these wake-ups up to the first error.\<close>

lemma consume_wake:
  "consume E from_slot closed_at (ev # evs) k =
     (case lane_wake E from_slot ev k of
        (k', Some e) \<Rightarrow> (k', Some e)
      | (k', None) \<Rightarrow> consume E from_slot closed_at evs k')"
  by (cases ev) (auto simp: lane_wake_def split: prod.splits option.splits)

datatype writer_input =
    LaneWakes stream lane_event "fs_op \<Rightarrow> bool"
  | LaneCloses stream nat "fs_op \<Rightarrow> bool"
  | UploaderWakes nat "fs_op \<Rightarrow> bool"
  | WriterRestarts "fs_op \<Rightarrow> bool"

text \<open>
  A lane acts on the directory as it is by then. One that ended with an error, or whose channel
  was closed, takes no more turns.
\<close>

definition lane_turn :: "('bm consumer \<Rightarrow> 'bm consumer \<times> chunker_error option) \<Rightarrow> bool \<Rightarrow> stream
    \<Rightarrow> ('s, 'bm) writer \<Rightarrow> ('s, 'bm) writer" where
  "lane_turn act goes_on st w =
     (case wr_lanes w st of
        None \<Rightarrow> w
      | Some k \<Rightarrow>
          (case act (k\<lparr>lane_state := (fst (lane_state k), dir_of (wr_store w) st)\<rparr>) of
             (k', r) \<Rightarrow>
               w\<lparr>wr_store := (wr_store w)(st := Some (snd (lane_state k'))),
                 wr_lanes := (wr_lanes w)(st := if goes_on \<and> r = None then Some k' else None)\<rparr>))"

record 's writer_setup =
  ws_put :: "'s put_object option"
  ws_writer :: writer_config
  ws_uploader :: uploader_config

definition writer_event :: "'bm writer_env \<Rightarrow> 's writer_setup \<Rightarrow> writer_input \<Rightarrow> ('s, 'bm) writer \<Rightarrow> ('s, 'bm) writer" where
  "writer_event E P ev w =
     (case ev of
        LaneWakes st lev fails \<Rightarrow> lane_turn (lane_wake (E\<lparr>io_fails := fails\<rparr>) (wr_resume w st) lev) True st w
      | LaneCloses st now fails \<Rightarrow> lane_turn (consume (E\<lparr>io_fails := fails\<rparr>) (wr_resume w st) now []) False st w
      | UploaderWakes now fails \<Rightarrow>
          (case snd (uploader_cycle fails (ws_put P) now (ws_uploader P) (wr_store w, wr_net w)) of
             (nvme, s) \<Rightarrow> w\<lparr>wr_store := nvme, wr_net := s\<rparr>)
      | WriterRestarts fails \<Rightarrow> writer_start fails (ws_writer P) (wr_store w, wr_net w))"

fun writer_run :: "'bm writer_env \<Rightarrow> 's writer_setup \<Rightarrow> writer_input list \<Rightarrow> ('s, 'bm) writer \<Rightarrow> ('s, 'bm) writer" where
  "writer_run E P [] w = w"
| "writer_run E P (ev # evs) w = writer_run E P evs (writer_event E P ev w)"

section \<open>What an upload leaves in the bucket\<close>

lemma put_with_retry_obj:
  assumes laws: "put_laws put obj" and p: "put_with_retry put key body cfg s = (r, s', ds)"
  shows "(\<forall>k. k \<noteq> key \<longrightarrow> obj s' k = obj s k) \<and> (obj s' key = obj s key \<or> obj s' key = body \<and> body \<noteq> None) \<and>
    (r = Inr () \<longrightarrow> obj s' key = body)"
proof -
  let ?I = "\<lambda>s1. (\<forall>k. k \<noteq> key \<longrightarrow> obj s1 k = obj s k) \<and> (obj s1 key = obj s key \<or> obj s1 key = body \<and> body \<noteq> None)"
  have put: "obj s1 key = obj s0 key \<or> obj s1 key = body \<and> body \<noteq> None" "\<And>k. k \<noteq> key \<Longrightarrow> obj s1 k = obj s0 k"
    if "put_file put key body s0 = (r0, s1)" for s0 r0 s1
    using that put_lawsD(2,3) [OF laws] by (auto simp: put_file_def split: option.splits prod.splits)
  have step: "\<forall>s0 r0 s1. ?I s0 \<longrightarrow> put_file put key body s0 = (r0, s1) \<longrightarrow> ?I s1"
    using put by metis
  note spec = retry_spec [where I = ?I, OF p [unfolded put_with_retry_def] _ step]
  show ?thesis using spec put_file_grows [OF laws] by fastforce
qed

lemma upload_files_obj:
  fixes chunk :: pending_chunk and d :: dir
  defines "key \<equiv> object_key (pc_stream chunk) (pc_start_slot chunk) (pc_end_slot chunk)"
    and "body \<equiv> \<lambda>x. map_option content (map_of d (with_extension (pc_base chunk) x))"
  assumes laws: "put_laws put obj"
  shows "upload_files put cfg chunk d exts s = (r, s') \<Longrightarrow> distinct exts \<Longrightarrow>
    (\<forall>k. (\<forall>x \<in> set exts. k \<noteq> key x) \<longrightarrow> obj s' k = obj s k) \<and>
    (\<forall>x \<in> set exts. obj s' (key x) = obj s (key x) \<or> obj s' (key x) = body x \<and> body x \<noteq> None) \<and>
    (r = Inr () \<longrightarrow> (\<forall>x \<in> set exts. obj s' (key x) = body x))"
proof (induction exts arbitrary: s)
  case (Cons x exts)
  obtain r1 s1 ds where p: "put_with_retry put (key x) (body x) cfg s = (r1, s1, ds)" by (metis surj_pair)
  note o1 = put_with_retry_obj [OF laws p]
  have inj: "key y \<noteq> key x" if "y \<in> set exts" for y
    using that Cons.prems(2) by (auto simp: key_def)
  show ?case
  proof (cases r1)
    case (Inl e)
    then have "s' = s1" "r \<noteq> Inr ()" using Cons.prems(1) p by (auto simp: key_def body_def)
    with o1 inj show ?thesis by auto
  next
    case (Inr u)
    then have "upload_files put cfg chunk d exts s1 = (r, s')" using Cons.prems(1) p by (simp add: key_def body_def)
    moreover have "distinct exts" using Cons.prems(2) by simp
    ultimately have IH: "(\<forall>k. (\<forall>x \<in> set exts. k \<noteq> key x) \<longrightarrow> obj s' k = obj s1 k) \<and>
        (\<forall>x \<in> set exts. obj s' (key x) = obj s1 (key x) \<or> obj s' (key x) = body x \<and> body x \<noteq> None) \<and>
        (r = Inr () \<longrightarrow> (\<forall>x \<in> set exts. obj s' (key x) = body x))" by (rule Cons.IH)
    have "\<forall>y \<in> set exts. key x \<noteq> key y" using inj by metis
    then have x: "obj s' (key x) = obj s1 (key x)" using IH by blast
    have "obj s1 (key x) = body x" using o1 Inr by simp
    moreover have "obj s1 (key y) = obj s (key y)" if "y \<in> set exts" for y using o1 inj that by simp
    ultimately show ?thesis using IH o1 x Cons.prems(2) by auto
  qed
qed simp

text \<open>The chunks the uploader finds in a directory of the writer carry their slots in the base name.\<close>

definition canonical :: "pending_chunk \<Rightarrow> bool" where
  "canonical c \<longleftrightarrow> pc_base c = stem (pc_start_slot c) (pc_end_slot c)"

lemma canonical_wf: "canonical c \<Longrightarrow> chunk_wf c"
  by (simp add: canonical_def chunk_wf_def base_slots_stem)

lemma scan_pending_canonical:
  assumes names: "\<forall>st d. nvme st = Some d \<longrightarrow> chunk_names d" and c: "c \<in> set (scan_pending nvme)"
  shows "canonical c"
proof -
  from c obtain st d n where d: "nvme st = Some d" and n: "n \<in> fst ` set d" and p: "pending_entry st d n = Some c"
    by (force simp: scan_pending_def set_map_filter split: option.splits)
  then have wf: "chunk_wf c" using pending_entry_wf by blast
  have n': "n = pc_base c @ ''.meta.json''"
    using p by (auto simp: pending_entry_def strip_suffix_Some Let_def split: option.splits if_splits prod.splits)
  have "exists_in d n" using n by (simp add: exists_in_iff)
  with names d obtain s e x where "n = chunk_file s e x" unfolding chunk_names_def by blast
  then have "split_once (CHR ''.'') (pc_base c @ (CHR ''.'') # ''meta.json'') = Some (stem s e, x)" using n' by simp
  moreover have "CHR ''.'' \<notin> set (pc_base c)" using wf base_slots_no_dot by (simp add: chunk_wf_def)
  ultimately have "pc_base c = stem s e" by (simp del: append_Cons)
  with wf show ?thesis by (simp add: canonical_def chunk_wf_def base_slots_stem)
qed

section \<open>One chunk through the events\<close>

text \<open>
  \<open>F\<close> gives the three files of the chunk. It is safe while they are on disk unchanged, and a marker
  is there only when the bucket has the same bytes.
\<close>

definition FILES :: "string list" where
  "FILES = [''zst'', ''idx'', ''meta.json'']"

definition bucket_has :: "'s objects \<Rightarrow> 's \<Rightarrow> stream \<Rightarrow> u64 \<Rightarrow> u64 \<Rightarrow> (string \<Rightarrow> bytes) \<Rightarrow> bool" where
  "bucket_has obj s st a e F \<longleftrightarrow> (\<forall>x \<in> set FILES. obj s (object_key st a e x) = Some (F x))"

definition disk_has :: "dir \<Rightarrow> u64 \<Rightarrow> u64 \<Rightarrow> (string \<Rightarrow> bytes) \<Rightarrow> bool" where
  "disk_has d a e F \<longleftrightarrow> (\<forall>x \<in> set FILES. map_option content (map_of d (chunk_file a e x)) = Some (F x))"

definition chunk_safe :: "'s objects \<Rightarrow> store \<times> 's \<Rightarrow> stream \<Rightarrow> u64 \<Rightarrow> u64 \<Rightarrow> (string \<Rightarrow> bytes) \<Rightarrow> bool" where
  "chunk_safe obj w st a e F \<longleftrightarrow>
     (\<exists>d. fst w st = Some d \<and> disk_has d a e F \<and>
        (exists_in d (chunk_file a e ''uploaded'') \<longrightarrow> bucket_has obj (snd w) st a e F))"

lemma disk_has_same:
  "disk_has d a e F \<Longrightarrow> \<forall>x \<in> set FILES. map_of d' (chunk_file a e x) = map_of d (chunk_file a e x) \<Longrightarrow> disk_has d' a e F"
  by (simp add: disk_has_def)

lemma disk_has_on_disk: "disk_has d a e F \<Longrightarrow> on_disk d a e"
  by (auto simp: disk_has_def on_disk_def FILES_def exists_in_def)

lemma marker_ops_own:
  assumes "canonical c" and "run_ops fails now (marker_ops c) d = (d', r)"
    and "n \<noteq> chunk_file (pc_start_slot c) (pc_end_slot c) ''uploaded''"
    and "n \<noteq> chunk_file (pc_start_slot c) (pc_end_slot c) ''uploaded.partial''"
  shows "map_of d' n = map_of d n"
  using assms(1,3,4) by (intro run_ops_untouched [OF assms(2)]) (auto simp: marker_ops_def canonical_def Let_def)

lemma upload_chunk_safe:
  assumes laws: "put_laws put obj" and can: "canonical c"
    and u: "upload_chunk fails put now cfg c (dir_of nvme (pc_stream c), s) = (r, d', s')"
    and safe: "chunk_safe obj (nvme, s) st a e F"
  shows "chunk_safe obj (nvme(pc_stream c := Some d'), s') st a e F"
proof -
  let ?d = "dir_of nvme (pc_stream c)"
  let ?key = "object_key (pc_stream c) (pc_start_slot c) (pc_end_slot c)"
  obtain r1 where f: "upload_files put cfg c ?d FILES s = (r1, s')"
    and d': "r1 \<noteq> Inr () \<longrightarrow> d' = ?d" and m: "r1 = Inr () \<longrightarrow> (\<exists>res. run_ops fails now (marker_ops c) ?d = (d', res))"
    using u by (auto simp: upload_chunk_def FILES_def split: prod.splits sum.splits option.splits)
  have "distinct FILES" by (simp add: FILES_def)
  note objs = upload_files_obj [OF laws f this]
  let ?body = "\<lambda>x. map_option content (map_of ?d (with_extension (pc_base c) x))"
  have o1: "obj s' k = obj s k" if "\<forall>x \<in> set FILES. k \<noteq> ?key x" for k using conjunct1 [OF objs] that by blast
  have o2: "obj s' (?key x) = obj s (?key x) \<or> obj s' (?key x) = ?body x" if "x \<in> set FILES" for x
    using conjunct1 [OF conjunct2 [OF objs]] that by blast
  have o3: "obj s' (?key x) = ?body x" if "r1 = Inr ()" "x \<in> set FILES" for x
    using conjunct2 [OF conjunct2 [OF objs]] that by blast
  have other: "map_of d' n = map_of ?d n" if "n \<noteq> chunk_file (pc_start_slot c) (pc_end_slot c) ''uploaded''"
    "n \<noteq> chunk_file (pc_start_slot c) (pc_end_slot c) ''uploaded.partial''" for n
    using d' m marker_ops_own [OF can _ that] by (cases "r1 = Inr ()") auto
  from safe obtain d where d: "nvme st = Some d" and has: "disk_has d a e F"
    and mark: "exists_in d (chunk_file a e ''uploaded'') \<longrightarrow> bucket_has obj s st a e F" by (auto simp: chunk_safe_def)
  show ?thesis
  proof (cases "pc_stream c = st \<and> pc_start_slot c = a \<and> pc_end_slot c = e")
    case False
    then have "obj s' (object_key st a e x) = obj s (object_key st a e x)" for x
      by (intro o1) auto
    then have "bucket_has obj s' st a e F = bucket_has obj s st a e F" by (simp add: bucket_has_def)
    moreover obtain d1 where d1: "(nvme(pc_stream c := Some d')) st = Some d1"
        "\<forall>x. map_of d1 (chunk_file a e x) = map_of d (chunk_file a e x)"
      using False other d by (cases "st = pc_stream c") (auto simp: dir_of_def)
    moreover have "disk_has d1 a e F" using d1(2) by (intro disk_has_same [OF has]) simp
    ultimately show ?thesis using mark unfolding chunk_safe_def exists_in_def by simp
  next
    case True
    then have dd: "?d = d" using d by (simp add: dir_of_def)
    have body: "map_option content (map_of d (with_extension (pc_base c) x)) = Some (F x)" if "x \<in> set FILES" for x
      using has that True can by (simp add: disk_has_def canonical_def)
    have has': "disk_has d' a e F"
      using other True dd by (intro disk_has_same [OF has]) (auto simp: FILES_def)
    have keep: "bucket_has obj s' st a e F" if "bucket_has obj s st a e F"
      unfolding bucket_has_def
    proof
      fix x assume x: "x \<in> set FILES"
      with that have "obj s (object_key st a e x) = Some (F x)" by (simp add: bucket_has_def)
      with o2 [OF x] body [OF x] True dd show "obj s' (object_key st a e x) = Some (F x)" by auto
    qed
    have new: "bucket_has obj s' st a e F" if "r1 = Inr ()"
      using o3 [OF that] body True dd by (simp add: bucket_has_def)
    have "exists_in d' (chunk_file a e ''uploaded'') \<longrightarrow> bucket_has obj s' st a e F"
      using keep new d' mark dd by (cases "r1 = Inr ()") auto
    with has' True show ?thesis by (auto simp: chunk_safe_def)
  qed
qed

lemma upload_all_safe:
  "put_laws put obj \<Longrightarrow> \<forall>c \<in> set cs. canonical c \<Longrightarrow> chunk_safe obj (nvme, s) st a e F \<Longrightarrow>
   upload_all fails put now cfg cs (nvme, s) = (n, w') \<Longrightarrow> chunk_safe obj w' st a e F"
proof (induction cs arbitrary: nvme s n)
  case (Cons c cs)
  obtain r d1 s1 where u: "upload_chunk fails put now cfg c (dir_of nvme (pc_stream c), s) = (r, d1, s1)" by (metis surj_pair)
  obtain n1 w1 where rec: "upload_all fails put now cfg cs (nvme(pc_stream c := Some d1), s1) = (n1, w1)" by (metis surj_pair)
  have w': "w1 = w'" using Cons.prems(4) u rec by (simp add: dir_of_def)
  have "chunk_safe obj (nvme(pc_stream c := Some d1), s1) st a e F"
    using upload_chunk_safe [OF Cons.prems(1) _ u Cons.prems(3)] Cons.prems(2) by simp
  from Cons.IH [OF Cons.prems(1) _ this rec [unfolded w']] Cons.prems(2) show ?case by simp
qed simp

text \<open>The uploader adds no file but markers.\<close>

definition markers_only :: "store \<Rightarrow> store \<Rightarrow> bool" where
  "markers_only nvme nvme' \<longleftrightarrow>
     (\<forall>st n. exists_in (dir_of nvme' st) n \<longrightarrow> exists_in (dir_of nvme st) n \<or>
        (\<exists>a e. n = chunk_file a e ''uploaded'' \<or> n = chunk_file a e ''uploaded.partial''))"

lemma markers_only_refl: "markers_only nvme nvme"
  by (simp add: markers_only_def)

lemma markers_only_trans: "markers_only a b \<Longrightarrow> markers_only b c \<Longrightarrow> markers_only a c"
  unfolding markers_only_def by blast

lemma exists_Nil [simp]: "\<not> exists_in [] n"
  by (simp add: exists_in_def)

lemma upload_chunk_markers:
  assumes can: "canonical c" and u: "upload_chunk fails put now cfg c (dir_of nvme (pc_stream c), s) = (r, d', s')"
  shows "markers_only nvme (nvme(pc_stream c := Some d'))"
proof -
  let ?d = "dir_of nvme (pc_stream c)"
  have "d' = ?d \<or> (\<exists>res. run_ops fails now (marker_ops c) ?d = (d', res))"
    using u by (auto simp: upload_chunk_def split: prod.splits sum.splits option.splits)
  then have "map_of d' n = map_of ?d n" if "n \<noteq> chunk_file (pc_start_slot c) (pc_end_slot c) ''uploaded''"
    "n \<noteq> chunk_file (pc_start_slot c) (pc_end_slot c) ''uploaded.partial''" for n
    using marker_ops_own [OF can _ that] by auto
  then have "exists_in ?d n \<or> (\<exists>a e. n = chunk_file a e ''uploaded'' \<or> n = chunk_file a e ''uploaded.partial'')"
    if "exists_in d' n" for n
    using that unfolding exists_in_def by metis
  then show ?thesis by (auto simp: markers_only_def dir_of_def)
qed

lemma upload_all_markers:
  "\<forall>c \<in> set cs. canonical c \<Longrightarrow> upload_all fails put now cfg cs (nvme, s) = (n, nvme', s') \<Longrightarrow> markers_only nvme nvme'"
proof (induction cs arbitrary: nvme s n)
  case Nil
  then show ?case by (simp add: markers_only_refl)
next
  case (Cons c cs)
  obtain r d1 s1 where u: "upload_chunk fails put now cfg c (dir_of nvme (pc_stream c), s) = (r, d1, s1)" by (metis surj_pair)
  obtain n1 nv1 t1 where rec: "upload_all fails put now cfg cs (nvme(pc_stream c := Some d1), s1) = (n1, nv1, t1)" by (metis surj_pair)
  have w': "nv1 = nvme'" "t1 = s'" using Cons.prems(2) u rec by (simp_all add: dir_of_def)
  have "markers_only nvme (nvme(pc_stream c := Some d1))"
    using upload_chunk_markers [OF _ u] Cons.prems(1) by simp
  moreover have "markers_only (nvme(pc_stream c := Some d1)) nvme'"
    using Cons.prems(1) by (intro Cons.IH [OF _ rec [unfolded w']]) simp
  ultimately show ?case by (rule markers_only_trans)
qed

lemma sweep_markers:
  assumes "uploader_sweep_retention fails now hours nvme = (r, nvme')"
  shows "markers_only nvme nvme'"
  unfolding markers_only_def
proof (intro allI impI disjI1)
  fix st n assume "exists_in (dir_of nvme' st) n"
  then obtain d' where "nvme' st = Some d'" "exists_in d' n" by (auto simp: dir_of_def split: option.splits)
  from exists_sweep_streams [OF assms [unfolded uploader_sweep_retention_def] this]
  show "exists_in (dir_of nvme st) n" by (auto simp: dir_of_def)
qed

lemma chunk_names_plain:
  assumes "chunk_names d"
  shows "plain_markers d"
  unfolding plain_markers_def
proof (intro allI impI)
  fix base assume "exists_in d (base @ ''.uploaded'')"
  with assms obtain s e x where x: "x \<in> WRITER_EXTS" and n: "base @ ''.uploaded'' = chunk_file s e x"
    unfolding chunk_names_def by blast
  have "last (chunk_file s e x) = CHR ''d''" unfolding n [symmetric] by simp
  with x have "x = ''uploaded''" by (auto simp: WRITER_EXTS_def chunk_file_def)
  with n have "base = stem s e" by (simp add: chunk_file_def)
  then show "CHR ''.'' \<notin> set base" by simp
qed

text \<open>A cycle of the uploader: the chunk stays, or the bucket had it before its files were evicted.\<close>

lemma sweep_safe:
  assumes inv: "uploader_inv obj (nvme, s)" and names: "\<forall>st d. nvme st = Some d \<longrightarrow> chunk_names d"
    and sw: "uploader_sweep_retention fails now hours nvme = (r, nvme')"
    and safe: "chunk_safe obj (nvme, s) st a e F"
  shows "chunk_safe obj (nvme', s) st a e F \<or> bucket_has obj s st a e F"
proof (cases "\<exists>d. nvme st = Some d \<and> exists_in d (chunk_file a e ''uploaded'')")
  case True
  with safe show ?thesis by (auto simp: chunk_safe_def)
next
  case False
  from safe obtain d where d: "nvme st = Some d" and has: "disk_has d a e F" by (auto simp: chunk_safe_def)
  have plain: "plain_markers d" using names d chunk_names_plain by blast
  obtain d' where d': "nvme' st = Some d'"
    using sweep_streams_removes [OF sw [unfolded uploader_sweep_retention_def] distinct_all_streams d plain] by blast
  have same: "map_of d' (chunk_file a e x) = map_of d (chunk_file a e x)" for x
  proof (rule ccontr)
    assume "map_of d' (chunk_file a e x) \<noteq> map_of d (chunk_file a e x)"
    with d' have "\<exists>d'. nvme' st = Some d' \<and> map_of d' (chunk_file a e x) \<noteq> map_of d (chunk_file a e x)" by blast
    from evicted_in_bucket [OF inv d plain sw this] False d show False by (auto simp: exists_in_def)
  qed
  then have "disk_has d' a e F" "\<not> exists_in d' (chunk_file a e ''uploaded'')"
    using disk_has_same [OF has] False d by (simp_all add: exists_in_def)
  with d' show ?thesis by (auto simp: chunk_safe_def)
qed

lemma cycle_safe:
  assumes laws: "\<And>put. r2 = Some put \<Longrightarrow> put_laws put obj"
    and inv: "uploader_inv obj (nvme, s)" and names: "\<forall>st d. nvme st = Some d \<longrightarrow> chunk_names d"
    and cyc: "snd (uploader_cycle fails r2 now cfg (nvme, s)) = (nvme', s')"
  shows "markers_only nvme nvme'"
    and "chunk_safe obj (nvme, s) st a e F \<Longrightarrow> chunk_safe obj (nvme', s') st a e F \<or> bucket_has obj s st a e F"
proof -
  have "markers_only nvme nvme' \<and>
      (chunk_safe obj (nvme, s) st a e F \<longrightarrow> chunk_safe obj (nvme', s') st a e F \<or> bucket_has obj s st a e F)"
  proof (cases r2)
    case None
    with cyc show ?thesis by (simp add: uploader_cycle_def markers_only_refl)
  next
    case (Some put)
    obtain r nv1 where sw: "uploader_sweep_retention fails now (u_local_retention_hours cfg) nvme = (r, nv1)" by fastforce
    have can: "\<forall>c \<in> set (scan_pending nvme). canonical c" using scan_pending_canonical [OF names] by blast
    obtain n where up: "upload_all fails put now cfg (scan_pending nvme) (nv1, s) = (n, nvme', s')"
      using cyc Some sw by (auto simp: uploader_cycle_def Let_def split: prod.splits)
    have "markers_only nvme nvme'"
      using markers_only_trans [OF sweep_markers [OF sw] upload_all_markers [OF can up]] .
    then show ?thesis
      using sweep_safe [OF inv names sw] upload_all_safe [OF laws [OF Some] can _ up] by blast
  qed
  then show "markers_only nvme nvme'"
    "chunk_safe obj (nvme, s) st a e F \<Longrightarrow> chunk_safe obj (nvme', s') st a e F \<or> bucket_has obj s st a e F" by blast+
qed

section \<open>Recovery\<close>

lemma sweep_entries_map:
  "sweep_entries doomed fails ns (d, k) = (d', k') \<Longrightarrow>
   map_of d' n = map_of d n \<or> doomed n \<and> map_of d' n = None"
proof (induction ns arbitrary: d k)
  case (Cons x ns)
  consider k1 where "sweep_entries doomed fails ns (d, k1) = (d', k')"
    | k1 where "doomed x" "sweep_entries doomed fails ns (remove_file x d, k1) = (d', k')"
    using Cons.prems by (auto simp: try_remove_def split: if_splits)
  then show ?case
  proof cases
    case 1
    from Cons.IH [OF this] show ?thesis .
  next
    case 2
    from Cons.IH [OF 2(2)] 2(1) show ?thesis by (auto split: if_splits)
  qed
qed simp

lemma sweep_streams_map:
  "sweep_streams doomed fails sts (nvme, k) = (nvme', k') \<Longrightarrow>
   map_of (dir_of nvme' st) n = map_of (dir_of nvme st) n \<or> doomed n \<and> map_of (dir_of nvme' st) n = None"
proof (induction sts arbitrary: nvme k)
  case (Cons x sts)
  show ?case
  proof (cases "nvme x")
    case None
    with Cons show ?thesis by simp
  next
    case (Some d)
    obtain d1 k1 where s: "sweep_entries doomed fails (map fst d) (d, k) = (d1, k1)" by fastforce
    with Cons.prems Some have "sweep_streams doomed fails sts (nvme(x := Some d1), k1) = (nvme', k')" by simp
    from Cons.IH [OF this] sweep_entries_map [OF s, of n] Some show ?thesis
      by (cases "x = st") (auto simp: dir_of_def)
  qed
qed simp

lemma recovery_files:
  assumes "run_recovery fails nvme = (report, nvme')"
  shows "map_of (dir_of nvme' st) n = map_of (dir_of nvme st) n \<or> reader_partial n \<and> map_of (dir_of nvme' st) n = None"
proof -
  obtain k where "sweep_streams writer_partial fails all_streams (nvme, 0) = (nvme', k)"
    using assms by (auto simp: run_recovery_def writer_sweep_partials_def split: prod.splits)
  from sweep_streams_map [OF this] writer_partial_reader show ?thesis by blast
qed

section \<open>The invariant of the process\<close>

lemma lane_good_io [simp]: "lane_good (E\<lparr>io_fails := fails\<rparr>) x = lane_good E x"
  by (simp add: lane_good_def chunker_inv_def chunk_ok_def oc_holds_def)

lemma lane_wake_R: "lane_wake E from_slot ev k = (k', r) \<Longrightarrow> keeps E (lane_state k) (lane_state k')"
  by (auto simp: lane_wake_def keeps_refl split: lane_event.splits prod.splits dest: kept.tick_R kept.receive_R)

definition writer_ok :: "'s objects \<Rightarrow> 'bm writer_env \<Rightarrow> ('s, 'bm) writer \<Rightarrow> bool" where
  "writer_ok obj E w \<longleftrightarrow>
     uploader_inv obj (wr_store w, wr_net w) \<and>
     (\<forall>st d. wr_store w st = Some d \<longrightarrow> chunk_names d) \<and>
     (\<forall>st k. wr_lanes w st = Some k \<longrightarrow> lane_good E (fst (lane_state k), dir_of (wr_store w) st))"

lemma lane_turn_ok:
  assumes ok: "writer_ok obj E w"
    and act: "\<And>k k' r. act k = (k', r) \<Longrightarrow> keeps E (lane_state k) (lane_state k')"
  shows "writer_ok obj E (lane_turn act goes_on st w)"
    and "chunk_safe obj (wr_store w, wr_net w) st' a e F \<Longrightarrow>
      chunk_safe obj (wr_store (lane_turn act goes_on st w), wr_net (lane_turn act goes_on st w)) st' a e F"
proof -
  let ?w = "lane_turn act goes_on st w"
  have "writer_ok obj E ?w \<and>
      (chunk_safe obj (wr_store w, wr_net w) st' a e F \<longrightarrow> chunk_safe obj (wr_store ?w, wr_net ?w) st' a e F)"
  proof (cases "wr_lanes w st")
    case None
    with ok show ?thesis by (simp add: lane_turn_def)
  next
    case (Some k)
    let ?d = "dir_of (wr_store w) st"
    obtain k' r where a: "act (k\<lparr>lane_state := (fst (lane_state k), ?d)\<rparr>) = (k', r)" by fastforce
    let ?d' = "snd (lane_state k')"
    have w': "?w = w\<lparr>wr_store := (wr_store w)(st := Some ?d'),
        wr_lanes := (wr_lanes w)(st := if goes_on \<and> r = None then Some k' else None)\<rparr>"
      using Some a by (simp add: lane_turn_def)
    have "lane_good E (fst (lane_state k), ?d)" using ok Some by (simp add: writer_ok_def)
    with act [OF a] have good: "lane_good E (lane_state k')"
      and files: "\<And>s e x. on_disk ?d s e \<Longrightarrow> map_of ?d' (chunk_file s e x) = map_of ?d (chunk_file s e x)"
      and marks: "\<And>s e. map_of ?d' (chunk_file s e ''uploaded'') = map_of ?d (chunk_file s e ''uploaded'')"
      by (auto simp: keeps_def)
    have mk: "exists_in ?d' (chunk_file s e ''uploaded'') \<Longrightarrow>
        \<exists>d. wr_store w st = Some d \<and> exists_in d (chunk_file s e ''uploaded'')" for s e
      using marks [of s e] by (auto simp: exists_in_def dir_of_def split: option.splits)
    have inv: "uploader_inv obj (wr_store w, wr_net w)" using ok by (simp add: writer_ok_def)
    have "in_bucket obj (wr_net w) st1 a1 e1 {''zst'', ''idx'', ''meta.json''}"
      if "((wr_store w)(st := Some ?d')) st1 = Some d1" "exists_in d1 (chunk_file a1 e1 ''uploaded'')" for st1 d1 a1 e1
    proof -
      have "\<exists>d. wr_store w st1 = Some d \<and> exists_in d (chunk_file a1 e1 ''uploaded'')"
        using that mk by (cases "st1 = st") auto
      with inv show ?thesis by (auto simp: uploader_inv_def marked_def)
    qed
    then have "uploader_inv obj (wr_store ?w, wr_net ?w)"
      using inv by (simp add: w' uploader_inv_def marked_def)
    moreover have "chunk_names d" if "wr_store ?w st1 = Some d" for st1 d
      using that ok good by (auto simp: w' writer_ok_def lane_good_def split: if_splits)
    moreover have "lane_good E (fst (lane_state k1), dir_of (wr_store ?w) st1)" if "wr_lanes ?w st1 = Some k1" for st1 k1
      using that ok good by (cases "st1 = st") (auto simp: w' writer_ok_def dir_of_def split: if_splits)
    moreover have "chunk_safe obj (wr_store ?w, wr_net ?w) st' a e F" if safe: "chunk_safe obj (wr_store w, wr_net w) st' a e F"
    proof (cases "st' = st")
      case False
      with safe show ?thesis by (simp add: w' chunk_safe_def)
    next
      case True
      from safe True obtain d where d: "wr_store w st = Some d" "disk_has d a e F"
          "exists_in d (chunk_file a e ''uploaded'') \<longrightarrow> bucket_has obj (wr_net w) st a e F"
        by (auto simp: chunk_safe_def)
      then have dd: "?d = d" by (simp add: dir_of_def)
      have "map_of ?d' (chunk_file a e x) = map_of d (chunk_file a e x)" for x
        using files disk_has_on_disk [OF d(2)] dd by simp
      with disk_has_same [OF d(2)] d(3) True show ?thesis by (simp add: w' chunk_safe_def exists_in_def)
    qed
    ultimately show ?thesis unfolding writer_ok_def by blast
  qed
  then show "writer_ok obj E ?w" "chunk_safe obj (wr_store w, wr_net w) st' a e F \<Longrightarrow> chunk_safe obj (wr_store ?w, wr_net ?w) st' a e F"
    by blast+
qed

lemma markers_only_good:
  assumes m: "markers_only nvme nvme'" and good: "lane_good E (c, dir_of nvme st)"
  shows "lane_good E (c, dir_of nvme' st)"
proof -
  have ex: "exists_in (dir_of nvme' st) n \<Longrightarrow> exists_in (dir_of nvme st) n \<or>
      (\<exists>a e. n = chunk_file a e ''uploaded'' \<or> n = chunk_file a e ''uploaded.partial'')" for n
    using m by (simp add: markers_only_def)
  have "chunk_names (dir_of nvme' st)"
    using good ex unfolding chunk_names_def lane_good_def by (fastforce simp: WRITER_EXTS_def)
  moreover have "on_disk (dir_of nvme' st) s e \<Longrightarrow> on_disk (dir_of nvme st) s e" for s e
    using ex [of "chunk_file s e ''zst''"] ex [of "chunk_file s e ''meta.json''"] by (simp add: on_disk_def) blast
  ultimately show ?thesis using good by (auto simp: lane_good_def)
qed

lemma markers_only_names:
  assumes "markers_only nvme nvme'" and "\<forall>st d. nvme st = Some d \<longrightarrow> chunk_names d" and "nvme' st = Some d'"
  shows "chunk_names d'"
  unfolding chunk_names_def
proof (intro allI impI)
  fix n assume "exists_in d' n"
  with assms(1,3) have "exists_in (dir_of nvme st) n \<or>
      (\<exists>a e. n = chunk_file a e ''uploaded'' \<or> n = chunk_file a e ''uploaded.partial'')"
    by (simp add: markers_only_def dir_of_def)
  then show "\<exists>s e. \<exists>x \<in> WRITER_EXTS. n = chunk_file s e x"
  proof
    assume "exists_in (dir_of nvme st) n"
    with assms(2) show ?thesis by (auto simp: dir_of_def chunk_names_def split: option.splits)
  qed (auto simp: WRITER_EXTS_def)
qed

lemma writer_start_ok:
  fixes E :: "'bm writer_env"
  assumes inv: "uploader_inv obj (nvme, s)" and names: "\<forall>st d. nvme st = Some d \<longrightarrow> chunk_names d"
  shows "writer_ok obj E (writer_start fails cfg (nvme, s))"
    and "chunk_safe obj (nvme, s) st a e F \<Longrightarrow>
      chunk_safe obj (wr_store (writer_start fails cfg (nvme, s) :: ('s, 'bm) writer), s) st a e F"
proof -
  obtain report nvme' where r: "run_recovery fails nvme = (report, nvme')" by fastforce
  note f = recovery_files [OF r]
  let ?w = "writer_start fails cfg (nvme, s) :: ('s, 'bm) writer"
  have w: "wr_store ?w = (\<lambda>st. Some (dir_of nvme' st))" "wr_net ?w = s"
    "wr_lanes ?w = (\<lambda>st. Some (consumer_new st cfg (dir_of nvme' st)))" "\<And>st. dir_of (wr_store ?w) st = dir_of nvme' st"
    by (simp_all add: writer_start_def r dir_of_def)
  have ex: "exists_in (dir_of nvme' st) n \<Longrightarrow> exists_in (dir_of nvme st) n" for st n
    using f [of st n] by (auto simp: exists_in_def)
  have names': "chunk_names (dir_of nvme' st)" for st
    using names ex [of st] by (fastforce simp: chunk_names_def dir_of_def split: option.splits)
  have "uploader_inv obj (wr_store ?w, wr_net ?w)"
    unfolding uploader_inv_def marked_def
  proof (intro conjI allI impI)
    show "remote_complete obj (snd (wr_store ?w, wr_net ?w))" using inv by (simp add: uploader_inv_def w)
    fix st d a e assume "fst (wr_store ?w, wr_net ?w) st = Some d" "exists_in d (chunk_file a e ''uploaded'')"
    then have "exists_in (dir_of nvme st) (chunk_file a e ''uploaded'')" using ex by (simp add: w)
    with inv show "in_bucket obj (snd (wr_store ?w, wr_net ?w)) st a e {''zst'', ''idx'', ''meta.json''}"
      by (auto simp: uploader_inv_def marked_def w dir_of_def split: option.splits)
  qed
  then show "writer_ok obj E ?w"
    using names' lane_good_new [OF names'] by (simp add: writer_ok_def w(3,4)) (auto simp: w(1) consumer_new_def)
  show "chunk_safe obj (wr_store ?w, s) st a e F" if safe: "chunk_safe obj (nvme, s) st a e F"
  proof -
    from safe obtain d where d: "dir_of nvme st = d" "disk_has d a e F"
        "exists_in d (chunk_file a e ''uploaded'') \<longrightarrow> bucket_has obj s st a e F"
      by (auto simp: chunk_safe_def dir_of_def)
    have "map_of (dir_of nvme' st) (chunk_file a e x) = map_of d (chunk_file a e x)" if "x \<in> set FILES \<or> x = ''uploaded''" for x
      using f [of st "chunk_file a e x"] that d(1) by (auto simp: FILES_def)
    with disk_has_same [OF d(2)] d(3) show ?thesis by (simp add: chunk_safe_def w exists_in_def)
  qed
qed

lemma event_ok:
  fixes w :: "('s, 'bm) writer"
  assumes "\<forall>put. ws_put P = Some put \<longrightarrow> put_laws put obj" and ok: "writer_ok obj E w"
  shows "writer_ok obj E (writer_event E P ev w)"
    and "chunk_safe obj (wr_store w, wr_net w) st a e F \<Longrightarrow>
      chunk_safe obj (wr_store (writer_event E P ev w), wr_net (writer_event E P ev w)) st a e F \<or>
      bucket_has obj (wr_net w) st a e F"
proof -
  have laws: "put_laws put obj" if "ws_put P = Some put" for put using assms(1) that by blast
  let ?w = "writer_event E P ev w"
  have inv: "uploader_inv obj (wr_store w, wr_net w)" and names: "\<forall>st d. wr_store w st = Some d \<longrightarrow> chunk_names d"
    and lanes: "\<And>st k. wr_lanes w st = Some k \<Longrightarrow> lane_good E (fst (lane_state k), dir_of (wr_store w) st)"
    using ok by (simp_all add: writer_ok_def)
  have "writer_ok obj E ?w \<and> (chunk_safe obj (wr_store w, wr_net w) st a e F \<longrightarrow>
      chunk_safe obj (wr_store ?w, wr_net ?w) st a e F \<or> bucket_has obj (wr_net w) st a e F)"
  proof (cases ev)
    case (LaneWakes st1 lev fails)
    have "keeps E (lane_state k) (lane_state k')"
      if "lane_wake (E\<lparr>io_fails := fails\<rparr>) (wr_resume w st1) lev k = (k', r)" for k k' r
      using lane_wake_R [OF that] by (simp add: keeps_def)
    from lane_turn_ok [OF ok this] LaneWakes show ?thesis by (simp add: writer_event_def)
  next
    case (LaneCloses st1 now fails)
    have "keeps E (lane_state k) (lane_state k')"
      if "consume (E\<lparr>io_fails := fails\<rparr>) (wr_resume w st1) now [] k = (k', r)" for k k' r
      using kept.consume_R [OF that] by (simp add: keeps_def)
    from lane_turn_ok [OF ok this] LaneCloses show ?thesis by (simp add: writer_event_def del: consume.simps)
  next
    case (UploaderWakes now fails)
    obtain nvme s where c: "snd (uploader_cycle fails (ws_put P) now (ws_uploader P) (wr_store w, wr_net w)) = (nvme, s)"
      by fastforce
    then have w: "?w = w\<lparr>wr_store := nvme, wr_net := s\<rparr>" using UploaderWakes by (simp add: writer_event_def)
    note safe = cycle_safe [OF laws inv names c]
    have "uploader_inv obj (nvme, s)"
      using uploader_cycle_inv [of "ws_put P" obj "(wr_store w, wr_net w)" fails now "ws_uploader P"] laws inv c by simp
    moreover have "chunk_names d" if "nvme st = Some d" for st d by (rule markers_only_names [OF safe(1) names that])
    moreover have "lane_good E (fst (lane_state k), dir_of nvme st)" if "wr_lanes w st = Some k" for st k
      by (rule markers_only_good [OF safe(1) lanes [OF that]])
    ultimately show ?thesis using safe(2) by (auto simp: writer_ok_def w)
  next
    case (WriterRestarts fails)
    then have w: "writer_start fails (ws_writer P) (wr_store w, wr_net w) = ?w" by (simp add: writer_event_def)
    have net: "wr_net ?w = wr_net w" unfolding w [symmetric] by (simp add: writer_start_def split: prod.splits)
    note st = writer_start_ok [OF inv names, where ?'bm = 'bm and cfg = "ws_writer P" and fails = fails, unfolded w]
    show ?thesis using st(1) st(2) [of st a e F] net by simp
  qed
  then show "writer_ok obj E ?w" "chunk_safe obj (wr_store w, wr_net w) st a e F \<Longrightarrow>
      chunk_safe obj (wr_store ?w, wr_net ?w) st a e F \<or> bucket_has obj (wr_net w) st a e F" by blast+
qed

lemma run_ok:
  assumes laws: "\<forall>put. ws_put P = Some put \<longrightarrow> put_laws put obj"
  shows "writer_ok obj E w \<Longrightarrow> writer_ok obj E (writer_run E P evs w) \<and>
    (chunk_safe obj (wr_store w, wr_net w) st a e F \<longrightarrow>
       chunk_safe obj (wr_store (writer_run E P evs w), wr_net (writer_run E P evs w)) st a e F \<or>
       (\<exists>n. bucket_has obj (wr_net (writer_run E P (take n evs) w)) st a e F))"
proof (induction evs arbitrary: w)
  case (Cons ev evs)
  note ev = event_ok [OF laws Cons.prems, where ev = ev]
  note IH = Cons.IH [OF ev(1)]
  have "\<exists>n. bucket_has obj (wr_net (writer_run E P (take n (ev # evs)) w)) st a e F"
    if "bucket_has obj (wr_net w) st a e F \<or>
      (\<exists>n. bucket_has obj (wr_net (writer_run E P (take n evs) (writer_event E P ev w))) st a e F)"
    using that
  proof
    assume "bucket_has obj (wr_net w) st a e F"
    then show ?thesis by (intro exI [of _ 0]) simp
  next
    assume "\<exists>n. bucket_has obj (wr_net (writer_run E P (take n evs) (writer_event E P ev w))) st a e F"
    then obtain n where "bucket_has obj (wr_net (writer_run E P (take n evs) (writer_event E P ev w))) st a e F" ..
    then show ?thesis by (intro exI [of _ "Suc n"]) simp
  qed
  with IH ev(2) [of st a e F] show ?case by auto
qed simp

section \<open>Properties\<close>

text \<open>C4: A sealed chunk is never lost. Take the writer at any moment of any life: started on
  directories of its own, then any interleaving of messages, ticks and ends of the three lanes,
  uploader cycles, failing or crashing operations and restarts. From a moment at which the three files of
  a chunk are on disk and not yet marked, its bytes stay on disk exactly as they are, or there was a
  moment at which the bucket held exactly these bytes. The bucket never holds the metadata of a
  chunk without its data and index.\<close>

theorem sealed_chunk_is_never_lost:
  assumes "\<forall>put. ws_put P = Some put \<longrightarrow> put_laws put obj"
    and "\<forall>st d. nvme st = Some d \<longrightarrow> chunk_names d" and "remote_complete obj s" and "marked obj (nvme, s)"
    and w: "w = writer_run E P evs (writer_start fails (ws_writer P) (nvme, s))"
    and d: "wr_store w st = Some d" "disk_has d a e F" "\<not> exists_in d (chunk_file a e ''uploaded'')"
  shows "((\<exists>d'. wr_store (writer_run E P evs' w) st = Some d' \<and> disk_has d' a e F) \<or>
      (\<exists>n. bucket_has obj (wr_net (writer_run E P (take n evs') w)) st a e F)) \<and>
    remote_complete obj (wr_net (writer_run E P evs' w))"
proof -
  have "uploader_inv obj (nvme, s)" using assms(3,4) by (simp add: uploader_inv_def)
  then have "writer_ok obj E (writer_start fails (ws_writer P) (nvme, s))" by (rule writer_start_ok(1) [OF _ assms(2)])
  from run_ok [OF assms(1) this, of evs] have ok: "writer_ok obj E w" unfolding w by blast
  have "chunk_safe obj (wr_store w, wr_net w) st a e F" using d by (simp add: chunk_safe_def)
  with run_ok [OF assms(1) ok, of evs' st a e F]
  show ?thesis by (auto simp: chunk_safe_def writer_ok_def uploader_inv_def)
qed

definition example_setup :: "list_bucket writer_setup" where
  "example_setup = \<lparr>ws_put = Some list_put, ws_writer = example_writer, ws_uploader = example_uploader\<rparr>"

lemma example_sealed_start:
  "\<exists>d. wr_store (writer_start (\<lambda>_. False) (ws_writer example_setup) (example_sealed, ([], [Some False]))
       :: (list_bucket, u32 list) writer) Tx = Some d \<and> disk_has d 10 20 (\<lambda>_. [1]) \<and>
     \<not> exists_in d (chunk_file 10 20 ''uploaded'')"
proof -
  obtain report nvme' where r: "run_recovery (\<lambda>_. False) example_sealed = (report, nvme')" by fastforce
  have m: "map_of (dir_of nvme' Tx) (chunk_file 10 20 x) = map_of (dir_of example_sealed Tx) (chunk_file 10 20 x)"
    if "x \<in> set FILES \<or> x = ''uploaded''" for x
    using recovery_files [OF r, of Tx "chunk_file 10 20 x"] that by (auto simp: FILES_def)
  have "disk_has (dir_of nvme' Tx) 10 20 (\<lambda>_. [1])"
    using m by (simp add: disk_has_def) (simp add: FILES_def dir_of_def example_sealed_def)
  moreover have "\<not> exists_in (dir_of nvme' Tx) (chunk_file 10 20 ''uploaded'')"
    using m [of "''uploaded''"] by (simp add: exists_in_def) (simp add: dir_of_def example_sealed_def)
  ultimately show ?thesis by (simp add: writer_start_def r)
qed

lemma sealed_chunk_is_never_lost_witness:
  "let w = writer_start (\<lambda>_. False) (ws_writer example_setup) (example_sealed, ([], [Some False]));
       w' = writer_run example_env example_setup [UploaderWakes 5 (\<lambda>_. False), UploaderWakes (10 ^ 18) (\<lambda>_. False)] w
   in ((\<exists>d'. wr_store w' Tx = Some d' \<and> disk_has d' 10 20 (\<lambda>_. [1])) \<or>
       (\<exists>n. bucket_has list_obj (wr_net (writer_run example_env example_setup
          (take n [UploaderWakes 5 (\<lambda>_. False), UploaderWakes (10 ^ 18) (\<lambda>_. False)]) w)) Tx 10 20 (\<lambda>_. [1]))) \<and>
      remote_complete list_obj (wr_net w')"
proof -
  have laws: "\<forall>put. ws_put example_setup = Some put \<longrightarrow> put_laws put list_obj"
    using list_put_laws by (simp add: example_setup_def)
  have names: "\<forall>st d. example_sealed st = Some d \<longrightarrow> chunk_names d"
    by (auto simp: example_sealed_def chunk_names_def exists_in_def WRITER_EXTS_def split: if_splits)
  have rc: "remote_complete list_obj ([], [Some False])"
    by (simp add: remote_complete_def in_bucket_def list_obj_def)
  have mk: "marked list_obj (example_sealed, ([], [Some False]))"
    by (simp add: marked_def example_sealed_def exists_in_def)
  let ?w = "writer_start (\<lambda>_. False) (ws_writer example_setup) (example_sealed, ([], [Some False])) :: (list_bucket, u32 list) writer"
  have w: "?w = writer_run example_env example_setup [] ?w" by simp
  obtain d where d: "wr_store ?w Tx = Some d" "disk_has d 10 20 (\<lambda>_. [1])"
      "\<not> exists_in d (chunk_file 10 20 ''uploaded'')" 
    using example_sealed_start by (elim exE conjE) (rule that)
  show ?thesis
    unfolding Let_def by (rule sealed_chunk_is_never_lost [OF laws names rc mk w d])
qed

section \<open>A restart within a chunk\<close>

lemma resume_slot_for_recovery:
  assumes "run_recovery fails nvme = (report, nvme')"
  shows "resume_slot_for report st = latest_sealed_end_slot nvme' st"
  using assms
  by (cases st) (auto simp: resume_slot_for_def resume_slots_def run_recovery_def all_streams_def update_conv' split: prod.splits)

lemma resume_at_least:
  assumes r: "run_recovery fails nvme = (report, nvme')" and m: "exists_in (dir_of nvme st) (chunk_file s e ''meta.json'')"
  shows "\<exists>resume. resume_slot_for report st = Some resume \<and> e \<le> resume"
proof -
  have "exists_in (dir_of nvme' st) (chunk_file s e ''meta.json'')"
    using recovery_files [OF r, of st "chunk_file s e ''meta.json''"] m by (auto simp: exists_in_def)
  then obtain d where d: "nvme' st = Some d" "chunk_file s e ''meta.json'' \<in> fst ` set d"
    by (cases "nvme' st") (simp_all add: dir_of_def exists_in_iff)
  then have "e \<in> set (List.map_filter sealed_end (map fst d))"
    by (force simp: set_map_filter intro: exI [of _ "chunk_file s e ''meta.json''"])
  then show ?thesis
    by (auto simp: resume_slot_for_recovery [OF r] latest_sealed_end_slot_Max d(1) max_opt_Max)
qed


definition example_restart :: store where
  "example_restart st = (if st = Block then Some [(chunk_file 40 50 ''meta.json'', \<lparr>content = [1], mtime = 0\<rparr>)] else None)"


end
