(* ===== verification/Processes.thy ===== *)
theory Processes
  imports Sync Customer Writer
begin

text \<open>
  The two processes around their parts: the shutdown signal
  (\<open>sillage-common/src/shutdown.rs\<close>), the listener of the reader
  (\<open>sillage-reader/src/server.rs\<close>), the reader from its settings to its exit code
  (\<open>sillage-reader/src/main.rs\<close>) and the end of the writer (\<open>sillage-writer/src/main.rs\<close>).

  A process is a step relation: signals, tasks that end, catalog updates and calls happen in any
  order, and \<open>main\<close> goes on when what it waits for has happened. The files read at start, what
  the listener of the \<open>tonic\<close> package answers and whether a task panics are not fixed.
\<close>

section \<open>Shutdown signals\<close>

text \<open>
  A signal is whether its token is cancelled. \<open>first\<close> is the result of the branch of the \<open>select!\<close> that
  completes; on an error the signal is left alone.
\<close>

definition wait_for_shutdown :: "'e + unit \<Rightarrow> bool \<Rightarrow> ('e + unit) \<times> bool" where
  "wait_for_shutdown first_branch signal =
     (case first_branch of Inl e \<Rightarrow> (Inl e, signal) | Inr _ \<Rightarrow> (Inr (), True))"

text \<open>The tasks both processes spawn around it: the writer cancels both signals when the handler failed.\<close>

definition reader_signal_task :: "'e + unit \<Rightarrow> bool \<Rightarrow> bool" where
  "reader_signal_task first_branch server =
     (case wait_for_shutdown first_branch server of (Inl _, _) \<Rightarrow> True | (Inr _, s) \<Rightarrow> s)"

definition writer_signal_task :: "'e + unit \<Rightarrow> bool \<times> bool \<Rightarrow> bool \<times> bool" where
  "writer_signal_task first_branch signals =
     (case signals of (lane, upl) \<Rightarrow>
        (case wait_for_shutdown first_branch lane of (Inl _, _) \<Rightarrow> (True, True) | (Inr _, l) \<Rightarrow> (l, upl)))"

lemma signal_tasks [simp]:
  "reader_signal_task r s = True"
  "writer_signal_task r (l, u) = (True, isl r \<or> u)"
  by (auto simp: reader_signal_task_def writer_signal_task_def wait_for_shutdown_def split: sum.splits)

section \<open>The listener\<close>

datatype server_error =
    CertificateUnreadable string
  | KeyUnreadable string
  | TlsRejected
  | ServeFailed

definition load_identity :: "(string \<Rightarrow> bytes option) \<Rightarrow> tls_config \<Rightarrow> server_error + bytes \<times> bytes" where
  "load_identity read_file tls =
     (case read_file (cert_path tls) of
        None \<Rightarrow> Inl (CertificateUnreadable (cert_path tls))
      | Some cert \<Rightarrow>
          (case read_file (key_path tls) of
             None \<Rightarrow> Inl (KeyUnreadable (key_path tls))
           | Some key \<Rightarrow> Inr (cert, key)))"

text \<open>\<open>tls_accepts\<close>: the builder takes the identity. \<open>serves\<close>: \<open>serve_with_shutdown\<close> ends without an error.\<close>

definition start_server :: "(string \<Rightarrow> bytes option) \<Rightarrow> (bytes \<times> bytes \<Rightarrow> bool) \<Rightarrow> bool \<Rightarrow> tls_config
    \<Rightarrow> server_error + unit" where
  "start_server read_file tls_accepts serves tls =
     (let serve = (if serves then Inr () else Inl ServeFailed)
      in if tls_enabled tls
         then (case load_identity read_file tls of
                 Inl e \<Rightarrow> Inl e
               | Inr ident \<Rightarrow> if tls_accepts ident then serve else Inl TlsRejected)
         else serve)"

text \<open>The server task gives whether it ended well.\<close>

definition server_task :: "(string \<Rightarrow> bytes option) \<Rightarrow> (bytes \<times> bytes \<Rightarrow> bool) \<Rightarrow> bool \<Rightarrow> tls_config \<Rightarrow> bool" where
  "server_task read_file tls_accepts serves tls =
     (case start_server read_file tls_accepts serves tls of Inr _ \<Rightarrow> True | Inl _ \<Rightarrow> False)"

lemma server_task_needs_files:
  assumes "tls_enabled tls" and "read_file (cert_path tls) = None \<or> read_file (key_path tls) = None"
  shows "\<not> server_task read_file tls_accepts serves tls"
  using assms by (auto simp: server_task_def start_server_def load_identity_def split: option.splits)

section \<open>The reader\<close>

datatype reader_failure =
    LoadFailed config_error
  | BadListenAddr string
  | BadMetricsListenAddr string

text \<open>The ways to end with exit code 1 before the tasks are waited for.\<close>

definition reader_startup :: "(string \<Rightarrow> bool) \<Rightarrow> config_error + settings \<Rightarrow> reader_failure + settings" where
  "reader_startup is_addr loaded =
     (case loaded of
        Inl e \<Rightarrow> Inl (LoadFailed e)
      | Inr cfg \<Rightarrow>
          let mc = r_metrics (s_reader cfg)
          in if \<not> is_addr (listen_addr (s_server cfg)) then Inl (BadListenAddr (listen_addr (s_server cfg)))
             else if metrics_enabled mc \<and> \<not> is_addr (metrics_listen_addr mc)
                  then Inl (BadMetricsListenAddr (metrics_listen_addr mc))
             else Inr cfg)"

text \<open>Settings that were loaded have a metrics address that parses: only the listen address can still be bad.\<close>

lemma reader_startup_loaded:
  assumes "settings_load is_addr build var = Inr cfg"
  shows "reader_startup is_addr (Inr cfg) =
    (if is_addr (listen_addr (s_server cfg)) then Inr cfg else Inl (BadListenAddr (listen_addr (s_server cfg))))"
proof -
  have "validate is_addr cfg = Inr ()"
    using assms by (auto simp: settings_load_def load_settings_def split: option.splits sum.splits)
  then show ?thesis by (auto simp: reader_startup_def validate_def Let_def split: if_splits)
qed

definition service_config_of :: "settings \<Rightarrow> service_config" where
  "service_config_of cfg =
     (let r = s_reader cfg
      in \<lparr>sc_auth_tokens = auth_tokens r, sc_channel_capacity = subscription_channel_capacity r,
          sc_follow_idle_timeout = unat (follow_idle_timeout_secs r) * NS_PER_SEC,
          sc_limits = \<lparr>lim_total = max_connections_total r, lim_per_token = max_connections_per_token r\<rparr>,
          sc_pacing = r_pacing r\<rparr>)"

datatype syncer_phase = Sweeping | Cycling | SyncerEnded

datatype reader_phase = AwaitServer | AwaitSyncer bool | ReaderExited nat

text \<open>
  \<open>rd_server\<close> is the result of the server task once it has ended. The catalog cell is shared: the
  syncer and the service each show it as a field.
\<close>

record 's reader =
  rd_syncer :: "'s syncer"
  rd_sync_phase :: syncer_phase
  rd_service :: geyser_service
  rd_server :: "bool option"
  rd_server_shutdown :: bool
  rd_sync_shutdown :: bool
  rd_main :: reader_phase

definition reader_start :: "(bytes \<Rightarrow> chunk_meta option) \<Rightarrow> settings \<Rightarrow> store \<Rightarrow> 's \<Rightarrow> 's reader" where
  "reader_start parse_meta cfg nvme net =
     (let catalog = \<lparr>current = scan parse_meta nvme\<rparr>
      in \<lparr>rd_syncer = \<lparr>sy_store = nvme, sy_net = net, sy_catalog = catalog\<rparr>, rd_sync_phase = Sweeping,
          rd_service = service_new catalog (service_config_of cfg) 0, rd_server = None,
          rd_server_shutdown = False, rd_sync_shutdown = False, rd_main = AwaitServer\<rparr>)"

definition running :: "'s reader \<Rightarrow> bool" where
  "running p \<longleftrightarrow> (case rd_main p of ReaderExited _ \<Rightarrow> False | _ \<Rightarrow> True)"

inductive reader_step :: "(bytes \<Rightarrow> chunk_meta option) \<Rightarrow>
    (('s \<Rightarrow> (list_error + r2_chunk list) \<times> 's) \<times> 's get_object) option \<Rightarrow> reader_config
    \<Rightarrow> 's reader \<Rightarrow> 's reader \<Rightarrow> bool" for parse_meta r2 cfg where
  rd_signal: "running p \<Longrightarrow>
    reader_step parse_meta r2 cfg p (p\<lparr>rd_server_shutdown := reader_signal_task (outcome :: io_kind + unit) (rd_server_shutdown p)\<rparr>)"
| rd_sweep: "running p \<Longrightarrow> rd_sync_phase p = Sweeping \<Longrightarrow>
    reader_step parse_meta r2 cfg p (p\<lparr>rd_syncer := syncer_start fails (rd_syncer p), rd_sync_phase := Cycling\<rparr>)"
| rd_cycle: "running p \<Longrightarrow> rd_sync_phase p = Cycling \<Longrightarrow> \<not> rd_sync_shutdown p \<Longrightarrow>
    y = syncer_cycle parse_meta fails r2 now cfg (rd_syncer p) \<Longrightarrow>
    reader_step parse_meta r2 cfg p
      (p\<lparr>rd_syncer := y, rd_service := (rd_service p)\<lparr>sv_catalog := sy_catalog y\<rparr>\<rparr>)"
| rd_syncer_stops: "running p \<Longrightarrow> rd_sync_phase p = Cycling \<Longrightarrow> rd_sync_shutdown p \<Longrightarrow>
    reader_step parse_meta r2 cfg p (p\<lparr>rd_sync_phase := SyncerEnded\<rparr>)"
| rd_syncer_panics: "running p \<Longrightarrow> rd_sync_phase p \<noteq> SyncerEnded \<Longrightarrow>
    reader_step parse_meta r2 cfg p (p\<lparr>rd_sync_phase := SyncerEnded\<rparr>)"
| rd_call: "running p \<Longrightarrow> rd_server p = None \<Longrightarrow> subscribe parse_f64 md m now (rd_service p) = (r, sv) \<Longrightarrow>
    reader_step parse_meta r2 cfg p (p\<lparr>rd_service := sv\<rparr>)"
| rd_leave: "running p \<Longrightarrow>
    reader_step parse_meta r2 cfg p (p\<lparr>rd_service := remove_from_registry customer_id (rd_service p)\<rparr>)"
| rd_server_ends: "running p \<Longrightarrow> rd_server p = None \<Longrightarrow>
    reader_step parse_meta r2 cfg p (p\<lparr>rd_server := Some ok\<rparr>)"
| rd_drain: "rd_main p = AwaitServer \<Longrightarrow> rd_server p = Some ok \<Longrightarrow>
    reader_step parse_meta r2 cfg p (p\<lparr>rd_sync_shutdown := True, rd_main := AwaitSyncer ok\<rparr>)"
| rd_exit: "rd_main p = AwaitSyncer ok \<Longrightarrow> rd_sync_phase p = SyncerEnded \<Longrightarrow>
    reader_step parse_meta r2 cfg p (p\<lparr>rd_main := ReaderExited (if ok then 0 else 1)\<rparr>)"

section \<open>The catalog while the reader runs\<close>

text \<open>The sweep of partial files at the start of the syncer shows the scan nothing.\<close>

lemma sweep_entries_view:
  "sweep_entries reader_partial fails ns (d, k) = (d', k') \<Longrightarrow> same_view d d'"
proof (induction ns arbitrary: d k)
  case (Cons x ns)
  consider k1 where "sweep_entries reader_partial fails ns (d, k1) = (d', k')"
    | k1 where "reader_partial x" "sweep_entries reader_partial fails ns (remove_file x d, k1) = (d', k')"
    using Cons.prems by (auto simp: try_remove_def split: if_splits)
  then show ?case
  proof cases
    case 1
    from Cons.IH [OF this] show ?thesis .
  next
    case 2
    have "same_view d (remove_file x d)" by (rule same_view_remove [OF unseen_partial [OF 2(1)]])
    from same_view_trans [OF this Cons.IH [OF 2(2)]] show ?thesis .
  qed
qed simp

lemma sweep_streams_view:
  "sweep_streams reader_partial fails sts (nvme, k) = (nvme', k') \<Longrightarrow> store_view nvme nvme'"
proof (induction sts arbitrary: nvme k)
  case (Cons x sts)
  show ?case
  proof (cases "nvme x")
    case None
    with Cons show ?thesis by simp
  next
    case (Some d)
    obtain d1 k1 where s: "sweep_entries reader_partial fails (map fst d) (d, k) = (d1, k1)" by fastforce
    with Cons.prems Some have "sweep_streams reader_partial fails sts (nvme(x := Some d1), k1) = (nvme', k')" by simp
    moreover have "store_view nvme (nvme(x := Some d1))"
      using sweep_entries_view [OF s] Some by (intro store_view_update) simp
    ultimately show ?thesis using Cons.IH store_view_trans by blast
  qed
qed simp

lemma start_fresh:
  assumes "fresh parse_meta y"
  shows "fresh parse_meta (syncer_start fails y)"
proof -
  obtain nvme k where "reader_sweep_partials fails (sy_store y) = (nvme, k)" by fastforce
  then have "store_view (sy_store y) nvme" "sy_store (syncer_start fails y) = nvme"
    using sweep_streams_view by (auto simp: reader_sweep_partials_def syncer_start_def)
  with scan_store_view assms show ?thesis by (auto simp: fresh_def syncer_start_def)
qed

lemma subscribe_catalog: "subscribe parse_f64 md m now sv = (r, sv') \<Longrightarrow> sv_catalog sv' = sv_catalog sv"
  by (auto simp: subscribe_def next_customer_id_def admit_def Let_def split: sum.splits if_splits prod.splits)

text \<open>
  \<open>reader_inv sc\<close>: the service has the configuration \<open>sc\<close>, serves the scan of the disk and keeps its caps;
  \<open>main\<close> cancels the syncer only after the server ended, and ends only after both did.
\<close>

definition main_order :: "'s reader \<Rightarrow> bool" where
  "main_order p \<longleftrightarrow>
     (case rd_main p of
        AwaitServer \<Rightarrow> \<not> rd_sync_shutdown p
      | AwaitSyncer ok \<Rightarrow> rd_sync_shutdown p \<and> rd_server p = Some ok
      | ReaderExited code \<Rightarrow> rd_sync_shutdown p \<and> rd_sync_phase p = SyncerEnded \<and>
          (\<exists>ok. rd_server p = Some ok \<and> code = (if ok then 0 else 1)))"

definition reader_inv :: "(bytes \<Rightarrow> chunk_meta option) \<Rightarrow> service_config \<Rightarrow> 's reader \<Rightarrow> bool" where
  "reader_inv parse_meta sc p \<longleftrightarrow>
     fresh parse_meta (rd_syncer p) \<and> sv_catalog (rd_service p) = sy_catalog (rd_syncer p) \<and>
     sv_cfg (rd_service p) = sc \<and> registry_ok (rd_service p) \<and> main_order p"

lemma reader_inv_start: "reader_inv parse_meta (service_config_of cfg) (reader_start parse_meta cfg nvme net)"
  by (simp add: reader_inv_def reader_start_def Let_def fresh_def snapshot_def service_new_def registry_ok_def
      per_client_def main_order_def)

lemma reader_step_main:
  assumes "reader_step parse_meta r2 cfg p q" and "main_order p"
  shows "main_order q"
  using assms by (induction rule: reader_step.induct) (auto simp: main_order_def running_def split: reader_phase.splits)

text \<open>The counters of a cycle do not wrap.\<close>

definition few :: "'s reader \<Rightarrow> bool" where
  "few p \<longleftrightarrow> length (local_chunks (sy_store (rd_syncer p))) < 2 ^ 32"

lemma reader_step_inv:
  assumes step: "reader_step parse_meta r2 cfg p q" and inv: "reader_inv parse_meta sc p" and few: "few p"
    and listing: "\<forall>list_r2 get s remote s'. r2 = Some (list_r2, get) \<longrightarrow> list_r2 s = (Inr remote, s') \<longrightarrow> length remote < 2 ^ 32"
  shows "reader_inv parse_meta sc q"
proof -
  have main: "main_order q" using reader_step_main [OF step] inv by (simp add: reader_inv_def)
  have "fresh parse_meta (rd_syncer q) \<and> sv_catalog (rd_service q) = sy_catalog (rd_syncer q) \<and>
      sv_cfg (rd_service q) = sc \<and> registry_ok (rd_service q)"
    using step inv few
  proof (induction rule: reader_step.induct)
    case (rd_sweep p fails)
    then show ?case using start_fresh [of parse_meta "rd_syncer p" fails]
      by (simp add: reader_inv_def) (simp add: syncer_start_def)
  next
    case (rd_cycle p y fails now)
    have "fresh parse_meta y"
      unfolding rd_cycle.hyps(4) using rd_cycle.prems listing
      by (intro cycle_fresh) (auto simp: reader_inv_def few_def)
    with rd_cycle.prems show ?case by (auto simp: reader_inv_def registry_ok_def per_client_def)
  next
    case (rd_call p parse_f64 md m now r sv)
    then show ?case
      using registry_ok_subscribe [OF _ rd_call.hyps(3)] subscribe_cases [OF rd_call.hyps(3)]
        subscribe_catalog [OF rd_call.hyps(3)] by (simp add: reader_inv_def)
  next
    case (rd_leave p customer_id)
    then show ?case
      using registry_ok_remove [of "rd_service p" customer_id] by (simp add: reader_inv_def) (simp add: remove_from_registry_def)
  qed (simp_all add: reader_inv_def)
  with main show ?thesis by (simp add: reader_inv_def)
qed

text \<open>From any state that is still running and whose server ended, \<open>main\<close> can come to its end.\<close>

lemma reader_can_exit:
  assumes "main_order p" and "rd_server p = Some ok"
  shows "\<exists>q. (reader_step parse_meta r2 cfg)\<^sup>*\<^sup>* p q \<and> rd_main q = ReaderExited (if ok then 0 else 1)"
proof -
  define ends where "ends p \<longleftrightarrow> (\<exists>q. (reader_step parse_meta r2 cfg)\<^sup>*\<^sup>* p q \<and> rd_main q = ReaderExited (if ok then 0 else 1))"
    for p
  have via: "ends p" if "reader_step parse_meta r2 cfg p q" "ends q" for p q
    using that unfolding ends_def by (blast intro: converse_rtranclp_into_rtranclp)
  have exited: "ends p" if "rd_main p = ReaderExited (if ok then 0 else 1)" for p
    using that unfolding ends_def by blast
  have ended: "ends p" if "rd_main p = AwaitSyncer ok" "rd_sync_phase p = SyncerEnded" for p
    by (rule via [OF reader_step.rd_exit [OF that] exited]) simp
  have waiting: "ends p" if m: "rd_main p = AwaitSyncer ok" for p
  proof (cases "rd_sync_phase p = SyncerEnded")
    case False
    then have r: "reader_step parse_meta r2 cfg p (p\<lparr>rd_sync_phase := SyncerEnded\<rparr>)"
      using m by (intro reader_step.rd_syncer_panics) (simp_all add: running_def)
    show ?thesis by (rule via [OF r ended]) (simp_all add: m)
  qed (use ended m in blast)
  have "ends p"
  proof (cases "rd_main p")
    case AwaitServer
    show ?thesis by (rule via [OF reader_step.rd_drain [OF AwaitServer assms(2)] waiting]) simp
  next
    case (AwaitSyncer ok')
    with assms waiting [of p] show ?thesis by (simp add: main_order_def)
  next
    case (ReaderExited code)
    with assms exited [of p] show ?thesis by (auto simp: main_order_def)
  qed
  then show ?thesis by (simp add: ends_def)
qed

section \<open>The end of the writer\<close>

datatype writer_failure = SettingsFailed config_error | NoGeyserSection

text \<open>What the writer needs before recovery and the lanes (theory \<open>Writer\<close>) start.\<close>

definition writer_startup :: "config_error + settings \<Rightarrow> writer_failure + geyser_config \<times> settings" where
  "writer_startup loaded =
     (case loaded of
        Inl e \<Rightarrow> Inl (SettingsFailed e)
      | Inr cfg \<Rightarrow> (case s_geyser cfg of None \<Rightarrow> Inl NoGeyserSection | Some g \<Rightarrow> Inr (g, cfg)))"

datatype lane_end = LaneOk | LaneFailed | LanePanicked

text \<open>The loop over the joined results stops at the first lane that did not end well.\<close>

fun first_failure :: "(stream \<times> lane_end) list \<Rightarrow> stream option" where
  "first_failure [] = None"
| "first_failure ((st, res) # rest) =
     (case res of LaneOk \<Rightarrow> first_failure rest | LaneFailed \<Rightarrow> Some st | LanePanicked \<Rightarrow> Some st)"

definition grace_ns :: "uploader_config \<Rightarrow> nat" where
  "grace_ns cfg = unat (u_scan_interval_secs cfg + 3) * NS_PER_SEC"

datatype writer_phase = AwaitLanes | Grace nat | AwaitUploader | WriterExited nat

record writer_main =
  wm_now :: nat
  wm_lane_shutdown :: bool
  wm_uploader_shutdown :: bool
  wm_lanes :: "stream \<Rightarrow> lane_end option"
  wm_uploader_ended :: bool
  wm_phase :: writer_phase

definition writer_main_start :: "nat \<Rightarrow> writer_main" where
  "writer_main_start now =
     \<lparr>wm_now = now, wm_lane_shutdown = False, wm_uploader_shutdown = False, wm_lanes = (\<lambda>_. None),
      wm_uploader_ended = False, wm_phase = AwaitLanes\<rparr>"

definition writer_running :: "writer_main \<Rightarrow> bool" where
  "writer_running m \<longleftrightarrow> (case wm_phase m of WriterExited _ \<Rightarrow> False | _ \<Rightarrow> True)"

text \<open>\<open>join_all\<close> gives the results when every lane has ended, in the order of \<open>Stream::all()\<close>.\<close>

definition joined_lanes :: "writer_main \<Rightarrow> (stream \<times> lane_end) list option" where
  "joined_lanes m =
     (if \<forall>st \<in> set all_streams. wm_lanes m st \<noteq> None
      then Some (map (\<lambda>st. (st, the (wm_lanes m st))) all_streams) else None)"

inductive writer_step :: "uploader_config \<Rightarrow> writer_main \<Rightarrow> writer_main \<Rightarrow> bool" for cfg where
  wm_time: "writer_running m \<Longrightarrow> writer_step cfg m (m\<lparr>wm_now := wm_now m + t\<rparr>)"
| wm_signal: "writer_running m \<Longrightarrow>
    writer_signal_task (outcome :: io_kind + unit) (wm_lane_shutdown m, wm_uploader_shutdown m) = (lane, upl) \<Longrightarrow>
    writer_step cfg m (m\<lparr>wm_lane_shutdown := lane, wm_uploader_shutdown := upl\<rparr>)"
| wm_lane_ends: "writer_running m \<Longrightarrow> wm_lanes m st = None \<Longrightarrow>
    writer_step cfg m (m\<lparr>wm_lanes := (wm_lanes m)(st := Some res)\<rparr>)"
| wm_uploader_ends: "writer_running m \<Longrightarrow> \<not> wm_uploader_ended m \<Longrightarrow>
    writer_step cfg m (m\<lparr>wm_uploader_ended := True\<rparr>)"
| wm_join_failed: "wm_phase m = AwaitLanes \<Longrightarrow> joined_lanes m = Some results \<Longrightarrow> first_failure results = Some st \<Longrightarrow>
    writer_step cfg m (m\<lparr>wm_uploader_shutdown := True, wm_phase := WriterExited 1\<rparr>)"
| wm_join_ok: "wm_phase m = AwaitLanes \<Longrightarrow> joined_lanes m = Some results \<Longrightarrow> first_failure results = None \<Longrightarrow>
    writer_step cfg m (m\<lparr>wm_phase := Grace (wm_now m + grace_ns cfg)\<rparr>)"
| wm_grace_over: "wm_phase m = Grace t \<Longrightarrow> t \<le> wm_now m \<Longrightarrow>
    writer_step cfg m (m\<lparr>wm_uploader_shutdown := True, wm_phase := AwaitUploader\<rparr>)"
| wm_exit: "wm_phase m = AwaitUploader \<Longrightarrow> wm_uploader_ended m \<Longrightarrow>
    writer_step cfg m (m\<lparr>wm_phase := WriterExited 0\<rparr>)"

lemma first_failure_None: "first_failure rs = None \<longleftrightarrow> (\<forall>(st, r) \<in> set rs. r = LaneOk)"
  by (induction rs rule: first_failure.induct) (auto split: lane_end.splits)

lemma set_all_streams: "set all_streams = UNIV"
  unfolding all_streams_def using stream.exhaust by auto

lemma joined_ok: "joined_lanes m = Some rs \<Longrightarrow> first_failure rs = None \<longleftrightarrow> (\<forall>st. wm_lanes m st = Some LaneOk)"
  by (auto simp: joined_lanes_def first_failure_None set_all_streams split: if_splits) (metis option.sel)

text \<open>
  What \<open>main\<close> has seen in each phase. Before the lanes are joined the uploader is cancelled only by a
  failed signal handler, which cancels the lanes with it.
\<close>

definition writer_order :: "writer_main \<Rightarrow> bool" where
  "writer_order m \<longleftrightarrow>
     (case wm_phase m of
        AwaitLanes \<Rightarrow> wm_uploader_shutdown m \<longrightarrow> wm_lane_shutdown m
      | Grace t \<Rightarrow> (\<forall>st. wm_lanes m st = Some LaneOk) \<and> (wm_uploader_shutdown m \<longrightarrow> wm_lane_shutdown m)
      | AwaitUploader \<Rightarrow> (\<forall>st. wm_lanes m st = Some LaneOk) \<and> wm_uploader_shutdown m
      | WriterExited code \<Rightarrow>
          wm_uploader_shutdown m \<and> (\<forall>st. wm_lanes m st \<noteq> None) \<and>
          (code = 0 \<longrightarrow> (\<forall>st. wm_lanes m st = Some LaneOk) \<and> wm_uploader_ended m) \<and>
          (code \<noteq> 0 \<longrightarrow> code = 1 \<and> (\<exists>st. wm_lanes m st \<noteq> Some LaneOk)))"

lemma writer_step_order:
  assumes "writer_step cfg m m'" and "writer_order m"
  shows "writer_order m'"
  using assms
proof (induction rule: writer_step.induct)
  case (wm_join_failed m results st)
  then show ?case
    using joined_ok [OF wm_join_failed.hyps(2)]
    by (auto simp: writer_order_def joined_lanes_def set_all_streams split: if_splits)
next
  case (wm_join_ok m results)
  then show ?case using joined_ok [OF wm_join_ok.hyps(2)] by (simp add: writer_order_def)
next
  case (wm_lane_ends m st res)
  then show ?case by (auto simp: writer_order_def writer_running_def split: writer_phase.splits)
qed (auto simp: writer_order_def writer_running_def split: writer_phase.splits)

text \<open>
  A lane that failed is not noticed while another one runs: \<open>main\<close> stays in the join, whatever happens.
\<close>

lemma failed_lane_unnoticed:
  assumes "writer_step cfg m m'" and "wm_phase m = AwaitLanes" and "wm_lanes m st = None"
  shows "wm_phase m' = AwaitLanes"
proof -
  have "joined_lanes m = None" using assms(3) by (auto simp: joined_lanes_def set_all_streams)
  with assms show ?thesis by (induction rule: writer_step.induct) auto
qed

section \<open>Properties\<close>

lemma reader_run_inv:
  assumes "(\<lambda>p q. reader_step parse_meta r2 cfg p q \<and> few q)\<^sup>*\<^sup>* p q" and "few p" and "reader_inv parse_meta sc p"
    and "\<forall>list_r2 get s remote s'. r2 = Some (list_r2, get) \<longrightarrow> list_r2 s = (Inr remote, s') \<longrightarrow> length remote < 2 ^ 32"
  shows "reader_inv parse_meta sc q \<and> few q"
  using assms(1-3)
proof (induction rule: rtranclp_induct)
  case (step q q')
  then show ?case using reader_step_inv [OF _ _ _ assms(4)] by blast
qed simp


definition example_reader_settings :: settings where
  "example_reader_settings = \<lparr>s_server = default_server,
     s_r2 = \<lparr>r2_bucket = ''b'', r2_region = ''auto'', r2_endpoint_url = [], access_key_id = ''k'', secret_access_key = ''s''\<rparr>,
     s_storage = default_storage, s_log = default_log, s_geyser = None, s_writer = default_writer,
     s_uploader = default_uploader, s_reader = default_reader\<rparr>"


text \<open>
  The end of the writer. Until the lanes have joined, only a failed signal handler cancels the
  uploader, and the lanes with it. The exit code is 0 only when every lane ended well and the uploader has
  ended after its grace time; it is 1 exactly when some lane did not, and by then every lane has ended.
\<close>

lemma writer_order_holds:
  assumes "(writer_step cfg)\<^sup>*\<^sup>* (writer_main_start now) m"
  shows "writer_order m"
  using assms
proof (induction rule: rtranclp_induct)
  case base
  show ?case by (simp add: writer_order_def writer_main_start_def)
next
  case (step m m')
  from writer_step_order [OF step.hyps(2) step.IH] show ?case .
qed

end
