(* ===== verification/Startup.thy ===== *)
theory Startup
  imports Processes
begin

text \<open>
  What the processes set up from their settings: the log output (\<open>sillage-common/src/logging.rs\<close>), the stamps
  of the messages the writer receives (\<open>stamp.rs\<close>), the
  client of the bucket and with it the mode of the syncer and of the uploader (\<open>r2.rs\<close>), the listener for
  metrics and health with its descriptions (\<open>sillage-reader/src/metrics.rs\<close>, \<open>metrics_server.rs\<close>), and
  the inventory the reader reports (\<open>sillage-reader/src/main.rs\<close>).
\<close>

section \<open>Logging\<close>

datatype log_layer = JsonLayer | PrettyLayer

text \<open>
  \<open>env_filter\<close> is the filter of \<open>RUST_LOG\<close>, \<open>None\<close> when it is not set or does not parse; otherwise the level of
  the settings is the filter. Any format but \<open>json\<close> is the pretty one.
\<close>

definition init_tracing :: "string option \<Rightarrow> log_config \<Rightarrow> string \<times> log_layer" where
  "init_tracing env_filter cfg =
     ((case env_filter of Some f \<Rightarrow> f | None \<Rightarrow> log_level cfg),
      (if log_format cfg = ''json'' then JsonLayer else PrettyLayer))"

section \<open>Stamps\<close>

text \<open>
  The writer stamps a message when its stream yields it (\<open>sillage-writer/src/stamp.rs\<close>, \<open>geyser.rs\<close>). The clock
  is in nanoseconds since 1970; \<open>None\<close> is the panic of a clock before it. The count of \<open>as_nanos\<close> is cut
  to 64 bits.
\<close>

definition recv_stamp_now :: "int \<Rightarrow> u64 option" where
  "recv_stamp_now clock = (if clock < 0 then None else Some (word_of_int clock))"

definition stamped_new :: "int \<Rightarrow> subscribe_update \<Rightarrow> stamped option" where
  "stamped_new clock u = (case recv_stamp_now clock of None \<Rightarrow> None | Some t \<Rightarrow> Some \<lparr>wall_ns = t, inner = u\<rparr>)"

text \<open>What an item of the stream becomes: \<open>Inl\<close> is an error of the connection.\<close>

definition stamp_result :: "int \<Rightarrow> string + subscribe_update \<Rightarrow> source_event option" where
  "stamp_result clock r =
     (case r of
        Inl _ \<Rightarrow> Some SourceError
      | Inr u \<Rightarrow> (case stamped_new clock u of None \<Rightarrow> None | Some m \<Rightarrow> Some (Item m)))"

text \<open>Until the clock passes the year 2554 the stamps are its times, so they are ordered as it is.\<close>

lemma stamp_exact:
  assumes "0 \<le> clock" and "clock < 2 ^ 64"
  shows "\<exists>m. stamped_new clock u = Some m \<and> uint (wall_ns m) = clock \<and> inner m = u"
  using assms by (simp add: stamped_new_def recv_stamp_now_def uint_word_of_int)

lemma stamps_ordered:
  assumes "stamped_new t u = Some m" and "stamped_new t' u' = Some m'" and "t \<le> t'" and "t' < 2 ^ 64"
  shows "wall_ns m \<le> wall_ns m'"
proof -
  have "0 \<le> t" using assms(1) by (auto simp: stamped_new_def recv_stamp_now_def split: if_splits)
  with assms stamp_exact [of t u] stamp_exact [of t' u'] show ?thesis by (auto simp: word_le_def)
qed

section \<open>The client of the bucket\<close>

record r2_client =
  cl_region :: string
  cl_endpoint_url :: string
  cl_credentials :: "string \<times> string"
  cl_force_path_style :: bool
  cl_bucket :: string

definition reader_r2_client_new :: "r2_config \<Rightarrow> string + r2_client" where
  "reader_r2_client_new cfg =
     (if r2_bucket cfg = [] \<or> access_key_id cfg = [] \<or> secret_access_key cfg = []
      then Inl ''R2 credentials missing: bucket, access_key_id, or secret_access_key is empty''
      else Inr \<lparr>cl_region = r2_region cfg, cl_endpoint_url = r2_endpoint_url cfg,
                 cl_credentials = (access_key_id cfg, secret_access_key cfg), cl_force_path_style = True,
                 cl_bucket = r2_bucket cfg\<rparr>)"

text \<open>\<open>R2Client::new(..).ok()\<close> and what the syncer does with it; \<open>connect\<close> is the package.\<close>

definition reader_r2 :: "(r2_client \<Rightarrow> (('s \<Rightarrow> (list_error + r2_chunk list) \<times> 's) \<times> 's get_object)) \<Rightarrow> r2_config
    \<Rightarrow> (('s \<Rightarrow> (list_error + r2_chunk list) \<times> 's) \<times> 's get_object) option" where
  "reader_r2 connect cfg = (case reader_r2_client_new cfg of Inl _ \<Rightarrow> None | Inr c \<Rightarrow> Some (connect c))"

definition credentials :: "r2_config \<Rightarrow> bool" where
  "credentials cfg \<longleftrightarrow> r2_bucket cfg \<noteq> [] \<and> access_key_id cfg \<noteq> [] \<and> secret_access_key cfg \<noteq> []"

lemma clients_agree:
  "(\<exists>c. reader_r2_client_new cfg = Inr c) \<longleftrightarrow> credentials cfg"
  "r2_client_new cfg \<noteq> None \<longleftrightarrow> credentials cfg"
  by (simp_all add: reader_r2_client_new_def r2_client_new_def credentials_def)

text \<open>Without credentials the reader serves what is on its disk: a cycle changes nothing.\<close>

lemma local_only:
  assumes "\<not> credentials cfg"
  shows "syncer_cycle parse_meta fails (reader_r2 connect cfg) now rcfg y = y"
  using assms by (auto simp: syncer_cycle_def reader_r2_def reader_r2_client_new_def credentials_def)

section \<open>Metrics and health\<close>

datatype metric_kind = Counter | Gauge | Histogram
datatype metric_unit = UnitCount | UnitBytes | UnitSeconds

type_synonym metric = "metric_kind \<times> string \<times> metric_unit \<times> string"

definition describe :: "metric list" where
  "describe =
     [(Counter, ''reader_messages_sent_total'', UnitCount, ''Total number of messages successfully emitted to subscribers''),
      (Counter, ''reader_bytes_sent_total'', UnitBytes, ''Total number of bytes successfully emitted to subscribers''),
      (Histogram, ''reader_replay_lag_seconds'', UnitSeconds,
         ''Replay lag per message (time between target emit time and actual emit time)''),
      (Counter, ''reader_replay_dropped_total'', UnitCount,
         ''Total number of messages dropped due to lag or send timeout''),
      (Gauge, ''reader_active_connections'', UnitCount, ''Number of currently active subscriber connections''),
      (Counter, ''reader_connections_total'', UnitCount, ''Total number of subscriber connections accepted''),
      (Counter, ''reader_connections_rejected_total'', UnitCount,
         ''Subscriber connections refused for exceeding a concurrency limit''),
      (Counter, ''reader_chunk_cache_hits_total'', UnitCount, ''Total number of chunk cache hits''),
      (Counter, ''reader_chunk_cache_misses_total'', UnitCount, ''Total number of chunk cache misses''),
      (Histogram, ''reader_chunk_decode_seconds'', UnitSeconds, ''Time spent decoding a chunk from zstd''),
      (Counter, ''reader_index_cache_hits_total'', UnitCount, ''Total number of index cache hits''),
      (Counter, ''reader_index_cache_misses_total'', UnitCount, ''Total number of index cache misses''),
      (Counter, ''reader_r2_chunks_fetched_total'', UnitCount, ''Total number of chunks fetched from R2''),
      (Counter, ''reader_r2_bytes_downloaded_total'', UnitBytes, ''Total number of bytes downloaded from R2''),
      (Histogram, ''reader_r2_fetch_seconds'', UnitSeconds, ''Time spent fetching a file from R2''),
      (Gauge, ''reader_ready'', UnitCount, ''Reader readiness flag (1 = ready, 0 = not ready)'')]"

text \<open>Every name is described once, and says its kind as the exporter's conventions ask.\<close>

definition well_named :: "metric \<Rightarrow> bool" where
  "well_named m \<longleftrightarrow>
     (case m of (k, name, u, _) \<Rightarrow>
        (k = Counter \<longleftrightarrow> ends_with ''_total'' name) \<and> (k = Histogram \<longleftrightarrow> ends_with ''_seconds'' name) \<and>
        (u = UnitSeconds \<longleftrightarrow> ends_with ''_seconds'' name))"

lemma describe_ok: "distinct (map (fst \<circ> snd) describe)" "list_all well_named describe"
  by (simp_all add: describe_def well_named_def ends_with_def strip_suffix_def)

datatype http_response = Response nat string | NoRoute

text \<open>The routes: \<open>render\<close> is the text of the exporter. \<open>axum\<close> answers 404 for any other path.\<close>

definition metrics_route :: "string \<Rightarrow> bool \<Rightarrow> string \<Rightarrow> http_response" where
  "metrics_route render ready path =
     (if path = ''/metrics'' then Response 200 render
      else if path = ''/health'' then (if ready then Response 200 ''OK'' else Response 503 ''Not Ready'')
      else NoRoute)"

text \<open>
  The listener: when the address cannot be bound it gives up, and the rest of the reader goes on
  without it. Otherwise it answers the requests that come until the shutdown.
\<close>

definition start_metrics_server :: "bool \<Rightarrow> string \<Rightarrow> bool \<Rightarrow> string list \<Rightarrow> http_response list" where
  "start_metrics_server binds render ready requests =
     (if binds then map (metrics_route render ready) requests else [])"

text \<open>\<open>main\<close> sets \<open>ready\<close> before it spawns the listener, when the settings ask for one.\<close>

definition metrics_task :: "metrics_config \<Rightarrow> (string \<Rightarrow> bool) \<Rightarrow> bool \<Rightarrow> string \<Rightarrow> string list
    \<Rightarrow> reader_failure + http_response list" where
  "metrics_task cfg is_addr binds render requests =
     (let ready = True
      in if \<not> metrics_enabled cfg then Inr []
         else if \<not> is_addr (metrics_listen_addr cfg) then Inl (BadMetricsListenAddr (metrics_listen_addr cfg))
         else Inr (start_metrics_server binds render ready requests))"

text \<open>So whoever gets an answer about the health of a reader is told that it is ready.\<close>

lemma never_not_ready:
  "metrics_task cfg is_addr binds render requests = Inr rs \<Longrightarrow> Response 503 body \<notin> set rs"
  by (auto simp: metrics_task_def start_metrics_server_def metrics_route_def Let_def split: if_splits)

lemma health_answers:
  assumes "metrics_enabled cfg" and "is_addr (metrics_listen_addr cfg)"
  shows "metrics_task cfg is_addr True render [''/health''] = Inr [Response 200 ''OK'']"
  using assms by (simp add: metrics_task_def start_metrics_server_def metrics_route_def)

section \<open>The inventory\<close>

definition total_chunks :: "catalog_summary \<Rightarrow> nat" where
  "total_chunks s = sum_list (map (\<lambda>(_, count, _, _). count) s)"

lemma total_chunks_summary:
  "total_chunks (summary cat) =
     sum_list (map (\<lambda>st. case cat st of None \<Rightarrow> 0 | Some tree \<Rightarrow> length tree) all_streams)"
proof -
  have "sum_list (map (\<lambda>(_, count, _, _). count) (List.map_filter (summary_of cat) sts)) =
      sum_list (map (\<lambda>st. case cat st of None \<Rightarrow> 0 | Some tree \<Rightarrow> length tree) sts)" for sts
    by (induction sts) (auto simp: List.map_filter_simps summary_of_def split: option.splits)
  then show ?thesis by (simp add: total_chunks_def summary_def)
qed

end
