(* ===== verification/System.thy ===== *)
theory System
  imports Writer Processes
begin

text \<open>
  The whole system: the process of the writer (theory \<open>Writer\<close>), the process of the reader (theory
  \<open>Processes\<close>) and the bucket between them, which each reads and writes only by its own client. The
  steps of the two processes interleave in any order, with any failing operation, and either may be
  restarted at any time.

  The lemmas follow the three files of one chunk. \<open>F\<close> gives their bytes; the writer's disk, the
  bucket and the reader's disk each have a file with these bytes or do not have it.
\<close>

section \<open>The files of one chunk\<close>

definition part_of :: "dir \<Rightarrow> u64 \<Rightarrow> u64 \<Rightarrow> (string \<Rightarrow> bytes) \<Rightarrow> bool" where
  "part_of d a e F \<longleftrightarrow> (\<forall>x \<in> set FILES. \<forall>f. map_of d (chunk_file a e x) = Some f \<longrightarrow> content f = F x)"

definition bucket_part :: "'s objects \<Rightarrow> 's \<Rightarrow> stream \<Rightarrow> u64 \<Rightarrow> u64 \<Rightarrow> (string \<Rightarrow> bytes) \<Rightarrow> bool" where
  "bucket_part obj s st a e F \<longleftrightarrow>
     (\<forall>x \<in> set FILES. obj s (object_key st a e x) = None \<or> obj s (object_key st a e x) = Some (F x))"

lemma part_ofD: "part_of d a e F \<Longrightarrow> x \<in> set FILES \<Longrightarrow> map_of d (chunk_file a e x) = Some f \<Longrightarrow> content f = F x"
  by (simp add: part_of_def)

lemma part_of_Nil [simp]: "part_of [] a e F"
  by (simp add: part_of_def)

lemma part_of_le:
  assumes "part_of d a e F" and "\<And>x f. x \<in> set FILES \<Longrightarrow> map_of d' (chunk_file a e x) = Some f \<Longrightarrow> map_of d (chunk_file a e x) = Some f"
  shows "part_of d' a e F"
  unfolding part_of_def using part_ofD [OF assms(1)] assms(2) by blast

lemma part_of_same:
  assumes "part_of d a e F" and "\<And>x. x \<in> set FILES \<Longrightarrow> map_of d' (chunk_file a e x) = map_of d (chunk_file a e x)"
  shows "part_of d' a e F"
  using assms by (intro part_of_le [OF assms(1)]) simp

text \<open>A name the listings take for a metadata file is not a partial one, and not that of another file.\<close>

lemma meta_name_final: "parse_meta_name n = Some k \<Longrightarrow> \<not> reader_partial n"
proof -
  assume "parse_meta_name n = Some k"
  then have "ends_with ''.meta.json'' n" using parse_meta_name_Some [of n "fst k" "snd k"] by (auto simp: ends_with_iff)
  then show ?thesis using unseen_partial [of n "{}"] by (auto simp: unseen_def)
qed

lemma chunk_file_meta:
  assumes "parse_meta_name (chunk_file s i x) = Some (a, e)" and "x \<in> set FILES"
  shows "x = ''meta.json'' \<and> s = a \<and> i = e"
proof -
  have "x = ''meta.json''"
    using parse_meta_name_Some [OF assms(1)] assms(2)
    by (auto simp: FILES_def chunk_file_def append_eq_append_conv2 Cons_eq_append_conv)
  with assms(1) show ?thesis by simp
qed

text \<open>\<open>store_le\<close>: files were only removed.\<close>

definition store_le :: "store \<Rightarrow> store \<Rightarrow> bool" where
  "store_le nvme' nvme \<longleftrightarrow>
     (\<forall>st n f. map_of (dir_of nvme' st) n = Some f \<longrightarrow> map_of (dir_of nvme st) n = Some f)"

lemma store_le_refl [simp]: "store_le nvme nvme"
  by (simp add: store_le_def)

lemma store_le_trans: "store_le a b \<Longrightarrow> store_le b c \<Longrightarrow> store_le a c"
  by (simp add: store_le_def)

lemma store_le_part: "store_le nvme' nvme \<Longrightarrow> part_of (dir_of nvme st) a e F \<Longrightarrow> part_of (dir_of nvme' st) a e F"
  by (erule part_of_le) (simp add: store_le_def)

lemma dir_of_update: "dir_of (nvme(st := Some d)) st' = (if st' = st then d else dir_of nvme st')"
  by (simp add: dir_of_def)

lemma store_le_update:
  assumes "\<And>n f. map_of d n = Some f \<Longrightarrow> map_of (dir_of nvme st) n = Some f"
  shows "store_le (nvme(st := Some d)) nvme"
  using assms by (simp add: store_le_def dir_of_update)

lemma sweep_streams_le: "sweep_streams doomed fails sts (nvme, k) = (nvme', k') \<Longrightarrow> store_le nvme' nvme"
  unfolding store_le_def
proof (intro allI impI)
  fix st n f assume "sweep_streams doomed fails sts (nvme, k) = (nvme', k')" and f: "map_of (dir_of nvme' st) n = Some f"
  from sweep_streams_map [OF this(1), of st n] f show "map_of (dir_of nvme st) n = Some f" by auto
qed

lemma sweep_uploaded_le:
  "sweep_uploaded fails now retention ns (d, k) = (r, d') \<Longrightarrow> map_of d' n = Some f \<Longrightarrow> map_of d n = Some f"
proof (induction ns arbitrary: d k)
  case (Cons m ns)
  consider "d' = d" | k1 where "sweep_uploaded fails now retention ns (d, k1) = (r, d')"
    | base exts k1 where "sweep_uploaded fails now retention ns (evict_siblings fails base exts d, k1) = (r, d')"
    using Cons.prems(1) by (auto simp del: evict_siblings.simps split: option.splits if_splits)
  then show ?case
  proof cases
    case 1
    with Cons.prems(2) show ?thesis by simp
  next
    case 2
    from Cons.IH [OF this Cons.prems(2)] show ?thesis .
  next
    case 3
    from map_of_evict_Some [OF Cons.IH [OF this Cons.prems(2)]] show ?thesis .
  qed
qed simp

lemma sweep_retention_le:
  "sweep_retention_streams fails now retention sts (nvme, k) = (r, nvme') \<Longrightarrow> store_le nvme' nvme"
proof (induction sts arbitrary: nvme k)
  case (Cons st sts)
  show ?case
  proof (cases "nvme st")
    case None
    with Cons show ?thesis by simp
  next
    case (Some d)
    obtain r1 d1 where s: "sweep_uploaded fails now retention (map fst d) (d, k) = (r1, d1)" by fastforce
    have le: "store_le (nvme(st := Some d1)) nvme"
      using sweep_uploaded_le [OF s] by (intro store_le_update) (simp add: dir_of_def Some)
    show ?thesis
    proof (cases r1)
      case (Inl err)
      with Cons.prems Some s le show ?thesis by simp
    next
      case (Inr k1)
      with Cons.prems Some s have "sweep_retention_streams fails now retention sts (nvme(st := Some d1), k1) = (r, nvme')" by simp
      from store_le_trans [OF Cons.IH [OF this] le] show ?thesis .
    qed
  qed
qed simp

section \<open>The writer's side\<close>

text \<open>
  A lane leaves the files of a chunk on disk alone (theory \<open>Sealed\<close>). It writes an index under its final
  name only after the payload, so a lane that brings back no file of the chunk has not changed any.
\<close>

definition payload_first :: "'bm writer_env \<Rightarrow> 'bm chunker_state \<Rightarrow> 'bm chunker_state \<Rightarrow> bool" where
  "payload_first E x y \<longleftrightarrow> keeps E x y \<and> (lane_good E x \<longrightarrow>
     (\<forall>a e. map_of (snd y) (chunk_file a e ''idx'') \<noteq> map_of (snd x) (chunk_file a e ''idx'') \<longrightarrow>
        exists_in (snd y) (chunk_file a e ''zst'')))"

lemma payload_first_trans:
  assumes xy: "payload_first E x y" and yz: "payload_first E y z"
  shows "payload_first E x z"
  unfolding payload_first_def
proof (intro conjI impI allI)
  have "keeps E x y" "keeps E y z" using xy yz by (simp_all add: payload_first_def)
  then show "keeps E x z" by (rule keeps_trans)
  fix a e
  assume good: "lane_good E x" and new: "map_of (snd z) (chunk_file a e ''idx'') \<noteq> map_of (snd x) (chunk_file a e ''idx'')"
  have good': "lane_good E y" using xy good by (simp add: payload_first_def keeps_def)
  show "exists_in (snd z) (chunk_file a e ''zst'')"
  proof (cases "map_of (snd z) (chunk_file a e ''idx'') = map_of (snd y) (chunk_file a e ''idx'')")
    case True
    then have z: "exists_in (snd y) (chunk_file a e ''zst'')" using xy good new by (simp add: payload_first_def)
    then have "on_disk (snd y) a e" by (simp add: on_disk_def)
    then have "map_of (snd z) (chunk_file a e ''zst'') = map_of (snd y) (chunk_file a e ''zst'')"
      using yz good' by (simp add: payload_first_def keeps_def)
    with z show ?thesis by (simp add: exists_in_def)
  next
    case False
    with yz good' show ?thesis by (simp add: payload_first_def)
  qed
qed

lemma payload_first_dir: "keeps E x y \<Longrightarrow> \<forall>a e. map_of (snd y) (chunk_file a e ''idx'') = map_of (snd x) (chunk_file a e ''idx'') \<Longrightarrow>
  payload_first E x y"
  by (simp add: payload_first_def)

text \<open>The operations of a seal: the index is touched only after the payload has its name.\<close>

lemma seal_ops_split:
  assumes named: "oc_named oc" and ops: "seal_ops E st reason oc = (ops, res)"
  shows "\<exists>front rest. ops = front @ rest \<and> (\<forall>op \<in> set front. final_idx oc \<notin> touches op) \<and>
    (\<forall>op \<in> set rest. final_zst oc \<notin> touches op) \<and>
    (rest = [] \<or> (\<exists>pre. front = pre @ [RenameFile (partial_zst oc) (final_zst oc)]))"
proof -
  let ?finish = "[WriteFile (partial_zst oc) (env_zstd E (oc_written oc)), SyncFile (partial_zst oc)]"
  have n: "final_idx oc \<notin> {partial_zst oc, partial_meta oc, final_zst oc}"
    "final_zst oc \<notin> {partial_idx oc, final_idx oc, partial_meta oc, final_meta oc}"
    using named by (auto simp: oc_named_def Let_def)
  show ?thesis
  proof (cases "env_json E (meta_of E st reason oc)")
    case None
    with ops n show ?thesis by (intro exI [of _ ops] exI [of _ "[]"]) (auto simp: seal_ops_def)
  next
    case (Some j)
    let ?pre = "?finish @ [CreateFile (partial_meta oc), WriteFile (partial_meta oc) j, SyncFile (partial_meta oc)]"
    let ?front = "?pre @ [RenameFile (partial_zst oc) (final_zst oc)]"
    have f: "\<forall>op \<in> set ?front. final_idx oc \<notin> touches op" using n by auto
    show ?thesis
    proof (cases "serialize (env_roaring E) (env_rmp E) (oc_index oc) (oc_start_slot oc) (oc_end_slot_exclusive oc) (oc_message_count oc)")
      case (Inl x)
      with Some ops f show ?thesis
        by (intro exI [of _ ops] exI [of _ "[]"]) (simp add: seal_ops_def Let_def)
    next
      case (Inr b)
      let ?rest = "[CreateFile (partial_idx oc), WriteFile (partial_idx oc) b, SyncFile (partial_idx oc),
          RenameFile (partial_idx oc) (final_idx oc), RenameFile (partial_meta oc) (final_meta oc)]"
      have "ops = ?front @ ?rest" using Some Inr ops by (simp add: seal_ops_def Let_def)
      moreover have "\<forall>op \<in> set ?rest. final_zst oc \<notin> touches op" using n by auto
      ultimately show ?thesis using f by blast
    qed
  qed
qed

lemma seal_payload_first:
  assumes sl: "seal_chunk E now idx reason x = (y, r)"
  shows "payload_first E x y"
proof -
  obtain c d c' d' where x: "x = (c, d)" "y = (c', d')" by fastforce
  note s = sl [unfolded x]
  show ?thesis
  proof (cases "map_of (open_chunks c) idx")
    case None
    with s have "d' = d" by (simp add: seal_chunk_def)
    with payload_first_dir [OF seal_keeps [OF sl]] show ?thesis by (simp add: x)
  next
    case (Some oc)
    obtain ops res where ops: "seal_ops E (ch_stream c) reason oc = (ops, res)" by fastforce
    obtain res' where run: "run_ops (io_fails E) now ops d = (d', res')"
      using s Some ops by (auto simp: seal_chunk_def Let_def split: prod.splits option.splits)
    have "exists_in d' (chunk_file a e ''zst'')"
      if good: "lane_good E (c, d)" and new: "map_of d' (chunk_file a e ''idx'') \<noteq> map_of d (chunk_file a e ''idx'')" for a e
    proof -
      have named: "oc_named oc"
        using good map_of_SomeD [OF Some] by (auto simp: lane_good_def chunker_inv_def chunk_ok_def Let_def)
      have ae: "oc_start_slot oc = a" "oc_end_slot_exclusive oc = e"
        using run_ops_own(1) [OF run seal_ops_own [OF named ops], of a e "''idx''"] new by blast+
      have fin: "final_idx oc = chunk_file a e ''idx''" "final_zst oc = chunk_file a e ''zst''"
        using named ae by (simp_all add: oc_named_def Let_def)
      from seal_ops_split [OF named ops] obtain front rest where fb: "ops = front @ rest"
        "\<forall>op \<in> set front. final_idx oc \<notin> touches op" "\<forall>op \<in> set rest. final_zst oc \<notin> touches op"
        "rest = [] \<or> (\<exists>pre. front = pre @ [RenameFile (partial_zst oc) (final_zst oc)])" by blast
      obtain d1 r1 where run1: "run_ops (io_fails E) now front d = (d1, r1)" by fastforce
      have same: "map_of d1 (final_idx oc) = map_of d (final_idx oc)" by (rule run_ops_untouched [OF run1 fb(2)])
      then have "d' \<noteq> d1" using new by (auto simp: fin)
      then have r1: "r1 = None" and run2: "run_ops (io_fails E) now rest d1 = (d', res')"
        using run run1 by (simp_all add: fb(1) run_ops_append split: option.splits)
      have "rest \<noteq> []" using run2 \<open>d' \<noteq> d1\<close> by auto
      then obtain pre where pre: "front = pre @ [RenameFile (partial_zst oc) (final_zst oc)]" using fb(4) by blast
      obtain d0 where "run_ops (io_fails E) now [RenameFile (partial_zst oc) (final_zst oc)] d0 = (d1, None)"
        using run1 r1 unfolding pre run_ops_append by (auto simp del: run_ops.simps split: prod.splits option.splits)
      then have "rename_file (partial_zst oc) (final_zst oc) d0 = Some d1"
        by (auto split: if_splits option.splits)
      from exists_rename [OF this] have "exists_in d1 (final_zst oc)" by simp
      with run_ops_untouched [OF run2 fb(3)] show ?thesis by (simp add: exists_in_def fin)
    qed
    with seal_keeps [OF sl] show ?thesis by (simp add: payload_first_def x)
  qed
qed

lemma open_payload_first:
  assumes "open_chunk E now (slot div slots_per_chunk (ch_cfg (fst x))) x = (y, r)"
  shows "payload_first E x y"
proof (rule payload_first_dir [OF open_keeps [OF assms]])
  show "\<forall>a e. map_of (snd y) (chunk_file a e ''idx'') = map_of (snd x) (chunk_file a e ''idx'')"
    using assms by (cases x) (auto simp: open_chunk_def open_chunk_of_def Let_def split: if_splits)
qed

lemma append_payload_first:
  assumes "append_to E now msg slot (slot div slots_per_chunk (ch_cfg (fst x))) x = (y, r)"
  shows "payload_first E x y"
proof (rule payload_first_dir [OF append_keeps [OF assms]])
  have "snd y = snd x"
    using assms by (cases x) (auto simp: append_to_def Let_def split: option.splits sum.splits if_splits prod.splits)
  then show "\<forall>a e. map_of (snd y) (chunk_file a e ''idx'') = map_of (snd x) (chunk_file a e ''idx'')" by simp
qed

lemma watermark_payload_first: "payload_first E (c, d) (c\<lparr>watermark_slot := w\<rparr>, d)"
  by (rule payload_first_dir [OF watermark_keeps]) simp

lemma payload_first_refl: "payload_first E x x"
  by (simp add: payload_first_def keeps_refl)

interpretation payload: lane_relation E "payload_first E" for E :: "'bm writer_env"
  using payload_first_refl payload_first_trans seal_payload_first open_payload_first append_payload_first watermark_payload_first
  by unfold_locales blast+

text \<open>\<open>stays_gone\<close>: no file of the chunk that is gone from the writer's disk is back.\<close>

definition stays_gone :: "dir \<Rightarrow> dir \<Rightarrow> u64 \<Rightarrow> u64 \<Rightarrow> bool" where
  "stays_gone d d' a e \<longleftrightarrow> (\<forall>x \<in> set FILES. exists_in d' (chunk_file a e x) \<longrightarrow> exists_in d (chunk_file a e x))"

lemma stays_gone_refl [simp]: "stays_gone d d a e"
  by (simp add: stays_gone_def)

lemma payload_first_part:
  assumes pf: "payload_first E x y" and good: "lane_good E x" and gone: "stays_gone (snd x) (snd y) a e"
    and part: "part_of (snd x) a e F"
  shows "part_of (snd y) a e F"
proof (cases "on_disk (snd x) a e")
  case True
  then have "map_of (snd y) (chunk_file a e n) = map_of (snd x) (chunk_file a e n)" for n
    using pf good by (simp add: payload_first_def keeps_def)
  then show ?thesis by (rule part_of_same [OF part])
next
  case False
  then have "\<not> exists_in (snd x) (chunk_file a e ''zst'')" "\<not> exists_in (snd x) (chunk_file a e ''meta.json'')"
    by (simp_all add: on_disk_def)
  then have no: "\<not> exists_in (snd y) (chunk_file a e ''zst'')" "\<not> exists_in (snd y) (chunk_file a e ''meta.json'')"
    using gone by (auto simp: stays_gone_def FILES_def)
  then have "map_of (snd y) (chunk_file a e ''idx'') = map_of (snd x) (chunk_file a e ''idx'')"
    using pf good by (auto simp: payload_first_def)
  with part no show ?thesis by (auto simp: part_of_def FILES_def exists_in_def)
qed

lemma lane_wake_payload: "lane_wake E from_slot ev k = (k', r) \<Longrightarrow> payload_first E (lane_state k) (lane_state k')"
  by (auto simp: lane_wake_def payload_first_refl split: lane_event.splits prod.splits dest: payload.tick_R payload.receive_R)

lemma payload_first_io [simp]: "payload_first (E\<lparr>io_fails := fails\<rparr>) x y = payload_first E x y"
  by (simp add: payload_first_def keeps_def)

lemma lane_turn_part:
  assumes ok: "writer_ok obj E w" and act: "\<And>k k' r. act k = (k', r) \<Longrightarrow> payload_first E (lane_state k) (lane_state k')"
    and gone: "stays_gone (dir_of (wr_store w) st) (dir_of (wr_store (lane_turn act goes_on lane w)) st) a e"
    and part: "part_of (dir_of (wr_store w) st) a e F"
  shows "part_of (dir_of (wr_store (lane_turn act goes_on lane w)) st) a e F"
proof (cases "wr_lanes w lane")
  case None
  with part show ?thesis by (simp add: lane_turn_def)
next
  case (Some k)
  let ?x = "(fst (lane_state k), dir_of (wr_store w) lane)"
  obtain k' r where a: "act (k\<lparr>lane_state := ?x\<rparr>) = (k', r)" by fastforce
  have store: "wr_store (lane_turn act goes_on lane w) = (wr_store w)(lane := Some (snd (lane_state k')))"
    using Some a by (simp add: lane_turn_def)
  have good: "lane_good E ?x" using ok Some by (simp add: writer_ok_def)
  have pf: "payload_first E ?x (lane_state k')" using act [OF a] by simp
  show ?thesis
  proof (cases "st = lane")
    case True
    with payload_first_part [OF pf good, of a e F] gone part show ?thesis by (simp add: store dir_of_update)
  next
    case False
    with part show ?thesis by (simp add: store dir_of_update)
  qed
qed

text \<open>An upload changes no file but markers, and puts into the bucket what is on disk.\<close>

lemma upload_chunk_files:
  assumes can: "canonical c" and u: "upload_chunk fails put now cfg c (dir_of nvme (pc_stream c), s) = (r, d', s')"
    and x: "x \<in> set FILES"
  shows "map_of (dir_of (nvme(pc_stream c := Some d')) st) (chunk_file a e x) = map_of (dir_of nvme st) (chunk_file a e x)"
proof -
  let ?d = "dir_of nvme (pc_stream c)"
  have "d' = ?d \<or> (\<exists>res. run_ops fails now (marker_ops c) ?d = (d', res))"
    using u by (auto simp: upload_chunk_def split: prod.splits sum.splits option.splits)
  then have "map_of d' (chunk_file a e x) = map_of ?d (chunk_file a e x)"
    using marker_ops_own [OF can, of fails now ?d d' _ "chunk_file a e x"] x by (auto simp: FILES_def)
  then show ?thesis by (simp add: dir_of_update)
qed

lemma upload_chunk_part:
  assumes laws: "put_laws put obj" and can: "canonical c"
    and u: "upload_chunk fails put now cfg c (dir_of nvme (pc_stream c), s) = (r, d', s')"
    and part: "part_of (dir_of nvme st) a e F" and bucket: "bucket_part obj s st a e F"
  shows "bucket_part obj s' st a e F \<and> part_of (dir_of (nvme(pc_stream c := Some d')) st) a e F"
proof
  let ?d = "dir_of nvme (pc_stream c)"
  let ?key = "object_key (pc_stream c) (pc_start_slot c) (pc_end_slot c)"
  let ?body = "\<lambda>x. map_option content (map_of ?d (with_extension (pc_base c) x))"
  obtain r1 where f: "upload_files put cfg c ?d FILES s = (r1, s')"
    using u by (auto simp: upload_chunk_def FILES_def split: prod.splits sum.splits option.splits)
  have "distinct FILES" by (simp add: FILES_def)
  note objs = upload_files_obj [OF laws f this]
  show "bucket_part obj s' st a e F"
    unfolding bucket_part_def
  proof
    fix x assume x: "x \<in> set FILES"
    let ?k = "object_key st a e x"
    have old: "obj s ?k = None \<or> obj s ?k = Some (F x)" using bucket x by (simp add: bucket_part_def)
    show "obj s' ?k = None \<or> obj s' ?k = Some (F x)"
    proof (cases "pc_stream c = st \<and> pc_start_slot c = a \<and> pc_end_slot c = e")
      case False
      then have "\<forall>y \<in> set FILES. ?k \<noteq> ?key y" by auto
      with conjunct1 [OF objs] have "obj s' ?k = obj s ?k" by blast
      with old show ?thesis by simp
    next
      case True
      then have "obj s' ?k = obj s ?k \<or> obj s' ?k = ?body x \<and> ?body x \<noteq> None"
        using conjunct1 [OF conjunct2 [OF objs]] x by blast
      moreover have "?body x = None \<or> ?body x = Some (F x)"
        using part_ofD [OF part x] True can by (cases "map_of (dir_of nvme st) (chunk_file a e x)") (auto simp: canonical_def)
      ultimately show ?thesis using old by metis
    qed
  qed
  show "part_of (dir_of (nvme(pc_stream c := Some d')) st) a e F"
    using upload_chunk_files [OF can u] by (rule part_of_same [OF part])
qed

lemma upload_all_part:
  "put_laws put obj \<Longrightarrow> \<forall>c \<in> set cs. canonical c \<Longrightarrow> part_of (dir_of nvme st) a e F \<Longrightarrow> bucket_part obj s st a e F \<Longrightarrow>
   upload_all fails put now cfg cs (nvme, s) = (n, nvme', s') \<Longrightarrow>
   bucket_part obj s' st a e F \<and> part_of (dir_of nvme' st) a e F"
proof (induction cs arbitrary: nvme s n)
  case (Cons c cs)
  obtain r d1 s1 where u: "upload_chunk fails put now cfg c (dir_of nvme (pc_stream c), s) = (r, d1, s1)" by (metis surj_pair)
  obtain n1 w1 where rec: "upload_all fails put now cfg cs (nvme(pc_stream c := Some d1), s1) = (n1, w1)" by (metis surj_pair)
  have w': "w1 = (nvme', s')" using Cons.prems(5) u rec by (simp add: dir_of_def)
  have can: "canonical c" "\<forall>c \<in> set cs. canonical c" using Cons.prems(2) by simp_all
  note p = upload_chunk_part [OF Cons.prems(1) can(1) u Cons.prems(3,4)]
  show ?case by (rule Cons.IH [OF Cons.prems(1) can(2) _ _ rec [unfolded w']]) (use p in blast)+
qed simp

lemma cycle_part:
  assumes laws: "\<And>put. r2 = Some put \<Longrightarrow> put_laws put obj" and names: "\<forall>st d. nvme st = Some d \<longrightarrow> chunk_names d"
    and cyc: "snd (uploader_cycle fails r2 now cfg (nvme, s)) = (nvme', s')"
    and part: "part_of (dir_of nvme st) a e F" and bucket: "bucket_part obj s st a e F"
  shows "bucket_part obj s' st a e F \<and> part_of (dir_of nvme' st) a e F"
proof (cases r2)
  case None
  with cyc part bucket show ?thesis by (simp add: uploader_cycle_def)
next
  case (Some put)
  obtain r nv1 where sw: "uploader_sweep_retention fails now (u_local_retention_hours cfg) nvme = (r, nv1)" by fastforce
  have can: "\<forall>c \<in> set (scan_pending nvme). canonical c" using scan_pending_canonical [OF names] by blast
  obtain n where up: "upload_all fails put now cfg (scan_pending nvme) (nv1, s) = (n, nvme', s')"
    using cyc Some sw by (auto simp: uploader_cycle_def Let_def split: prod.splits)
  have "part_of (dir_of nv1 st) a e F"
    by (rule store_le_part [OF sweep_retention_le [OF sw [unfolded uploader_sweep_retention_def]] part])
  from upload_all_part [OF laws [OF Some] can this bucket up] show ?thesis .
qed

lemma writer_start_le: "store_le (wr_store (writer_start fails cfg (nvme, s))) nvme"
proof -
  obtain report nvme' where r: "run_recovery fails nvme = (report, nvme')" by fastforce
  have "map_of (dir_of nvme st) n = Some f" if "map_of (dir_of nvme' st) n = Some f" for st n f
    using recovery_files [OF r, of st n] that by auto
  then show ?thesis by (simp add: store_le_def writer_start_def r dir_of_def)
qed

lemma writer_event_part:
  fixes w :: "('s, 'bm) writer"
  assumes laws: "\<forall>put. ws_put P = Some put \<longrightarrow> put_laws put obj" and ok: "writer_ok obj E w"
    and gone: "stays_gone (dir_of (wr_store w) st) (dir_of (wr_store (writer_event E P ev w)) st) a e"
    and part: "part_of (dir_of (wr_store w) st) a e F" and bucket: "bucket_part obj (wr_net w) st a e F"
  shows "part_of (dir_of (wr_store (writer_event E P ev w)) st) a e F \<and>
    bucket_part obj (wr_net (writer_event E P ev w)) st a e F"
proof (cases ev)
  case (LaneWakes lane lev fails)
  let ?act = "lane_wake (E\<lparr>io_fails := fails\<rparr>) (wr_resume w lane) lev"
  have ev: "writer_event E P ev w = lane_turn ?act True lane w" by (simp add: writer_event_def LaneWakes)
  have "payload_first E (lane_state k) (lane_state k')" if "?act k = (k', r)" for k k' r
    using lane_wake_payload [OF that] by simp
  from lane_turn_part [where act = ?act, OF ok this gone [unfolded ev] part] bucket show ?thesis
    by (simp add: ev) (simp add: lane_turn_def split: option.splits prod.splits)
next
  case (LaneCloses lane now fails)
  let ?act = "consume (E\<lparr>io_fails := fails\<rparr>) (wr_resume w lane) now []"
  have ev: "writer_event E P ev w = lane_turn ?act False lane w" by (simp add: writer_event_def LaneCloses del: consume.simps)
  have "payload_first E (lane_state k) (lane_state k')" if "?act k = (k', r)" for k k' r
    using payload.consume_R [OF that] by simp
  from lane_turn_part [where act = ?act, OF ok this gone [unfolded ev] part] bucket show ?thesis
    by (simp add: ev del: consume.simps) (simp add: lane_turn_def del: consume.simps split: option.splits prod.splits)
next
  case (UploaderWakes now fails)
  obtain nvme s where c: "snd (uploader_cycle fails (ws_put P) now (ws_uploader P) (wr_store w, wr_net w)) = (nvme, s)"
    by fastforce
  have names: "\<forall>st d. wr_store w st = Some d \<longrightarrow> chunk_names d" using ok by (simp add: writer_ok_def)
  have laws': "put_laws put obj" if "ws_put P = Some put" for put using laws that by blast
  from cycle_part [OF laws' names c part bucket] c show ?thesis by (simp add: writer_event_def UploaderWakes)
next
  case (WriterRestarts fails)
  let ?w = "writer_start fails (ws_writer P) (wr_store w, wr_net w) :: ('s, 'bm) writer"
  have "wr_net ?w = wr_net w" by (simp add: writer_start_def split: prod.splits)
  with store_le_part [OF writer_start_le part] bucket show ?thesis by (simp add: writer_event_def WriterRestarts)
qed

section \<open>The reader's side\<close>

text \<open>A download does not change the bucket.\<close>

lemma download_files_obj:
  "get_laws get obj \<Longrightarrow> download_files fails get now cfg chunk exts (d, s) = (r, d', s') \<Longrightarrow> set exts \<subseteq> set FILES \<Longrightarrow>
   obj s' = obj s"
proof (induction exts arbitrary: d s)
  case (Cons x exts)
  have "\<not> reader_partial (chunk_file (rc_start_slot chunk) (rc_end_slot chunk) x)" using Cons.prems(3) by (auto simp: FILES_def)
  from download_files_Cons [OF Cons.prems(1,2) this] show ?case
  proof (elim disjE exE conjE)
    fix b d1 s1 assume "obj s1 = obj s" "download_files fails get now cfg chunk exts (d1, s1) = (r, d', s')"
    with Cons.IH [OF Cons.prems(1), of d1 s1] Cons.prems(3) show ?thesis by simp
  qed
qed simp

lemma download_all_obj:
  "get_laws get obj \<Longrightarrow> download_all fails get now cfg cs (nvme, s) = (n, nvme', s') \<Longrightarrow> obj s' = obj s"
proof (induction cs arbitrary: nvme s n)
  case (Cons c cs)
  obtain r d1 s1 where dl: "download_chunk fails get now cfg c (dir_of nvme (rc_stream c), s) = (r, d1, s1)" by (metis surj_pair)
  obtain n1 w1 where rec: "download_all fails get now cfg cs (nvme(rc_stream c := Some d1), s1) = (n1, w1)" by (metis surj_pair)
  have w1: "w1 = (nvme', s')" using Cons.prems(2) dl rec by (simp add: dir_of_def)
  have "obj s1 = obj s" by (rule download_files_obj [OF Cons.prems(1) dl [unfolded download_chunk_def]]) (simp add: FILES_def)
  with Cons.IH [OF Cons.prems(1) rec [unfolded w1]] show ?case by simp
qed simp

text \<open>It writes under the final names what the bucket has under the keys of the same chunk.\<close>

lemma download_files_part:
  "get_laws get obj \<Longrightarrow> download_files fails get now cfg chunk exts (d, s) = (r, d', s') \<Longrightarrow> set exts \<subseteq> set FILES \<Longrightarrow>
   part_of d a e F \<Longrightarrow> bucket_part obj s st a e F \<Longrightarrow>
   rc_stream chunk = st \<Longrightarrow> part_of d' a e F"
proof (induction exts arbitrary: d s)
  case (Cons x exts)
  have np: "\<not> reader_partial (chunk_file b i y)" if "y \<in> set FILES" for b i y using that by (auto simp: FILES_def)
  have x: "x \<in> set FILES" and xs: "set exts \<subseteq> set FILES" using Cons.prems(3) by auto
  let ?f = "chunk_file (rc_start_slot chunk) (rc_end_slot chunk) x"
  from download_files_Cons [OF Cons.prems(1,2) np [OF x]] show ?case
  proof (elim disjE exE conjE)
    assume err: "finals_kept d d'" "obj s' = obj s"
    show ?thesis
    proof (rule part_of_same [OF Cons.prems(4)])
      fix y assume "y \<in> set FILES"
      from np [OF this] err(1) show "map_of d' (chunk_file a e y) = map_of d (chunk_file a e y)" by (simp add: finals_kept_def)
    qed
  next
    fix b d1 s1
    assume step: "obj s (object_key (rc_stream chunk) (rc_start_slot chunk) (rc_end_slot chunk) x) = Some b"
      "obj s1 = obj s" "download_files fails get now cfg chunk exts (d1, s1) = (r, d', s')"
      "\<forall>n. \<not> reader_partial n \<longrightarrow> map_of d1 n = (if n = ?f then Some \<lparr>content = b, mtime = now\<rparr> else map_of d n)"
    have "part_of d1 a e F"
      unfolding part_of_def
    proof (intro ballI allI impI)
      fix y f assume y: "y \<in> set FILES" and f: "map_of d1 (chunk_file a e y) = Some f"
      show "content f = F y"
      proof (cases "chunk_file a e y = ?f")
        case True
        then have k: "rc_start_slot chunk = a" "rc_end_slot chunk = e" "y = x" by auto
        then have "b = F x" using step(1) Cons.prems(5,6) x by (auto simp: bucket_part_def)
        moreover have "map_of d1 (chunk_file a e y) = Some \<lparr>content = b, mtime = now\<rparr>" using step(4) np [OF x] True by simp
        ultimately show ?thesis using f k by auto
      next
        case False
        from step(4) np [OF y] have "map_of d1 (chunk_file a e y) =
            (if chunk_file a e y = ?f then Some \<lparr>content = b, mtime = now\<rparr> else map_of d (chunk_file a e y))" by blast
        with f False have "map_of d (chunk_file a e y) = Some f" by (simp only: if_False)
        with Cons.prems(4) y show ?thesis by (simp add: part_of_def)
      qed
    qed
    moreover have "bucket_part obj s1 st a e F" using Cons.prems(5) step(2) by (simp add: bucket_part_def)
    ultimately show ?thesis using Cons.IH [OF Cons.prems(1) step(3) xs] Cons.prems(6) by simp
  qed
qed simp

lemma download_all_part:
  "get_laws get obj \<Longrightarrow> download_all fails get now cfg cs (nvme, s) = (n, nvme', s') \<Longrightarrow>
   part_of (dir_of nvme st) a e F \<Longrightarrow> bucket_part obj s st a e F \<Longrightarrow> part_of (dir_of nvme' st) a e F"
proof (induction cs arbitrary: nvme s n)
  case (Cons c cs)
  obtain r d1 s1 where dl: "download_chunk fails get now cfg c (dir_of nvme (rc_stream c), s) = (r, d1, s1)" by (metis surj_pair)
  obtain n1 w1 where rec: "download_all fails get now cfg cs (nvme(rc_stream c := Some d1), s1) = (n1, w1)" by (metis surj_pair)
  have w1: "w1 = (nvme', s')" using Cons.prems(2) dl rec by (simp add: dir_of_def)
  have "part_of d1 a e F" if "rc_stream c = st"
    using Cons.prems(3,4) that by (intro download_files_part [OF Cons.prems(1) dl [unfolded download_chunk_def]]) (auto simp: FILES_def)
  then have p: "part_of (dir_of (nvme(rc_stream c := Some d1)) st) a e F" using Cons.prems(3) by (simp add: dir_of_update)
  have "obj s1 = obj s" by (rule download_files_obj [OF Cons.prems(1) dl [unfolded download_chunk_def]]) (simp add: FILES_def)
  then have "bucket_part obj s1 st a e F" using Cons.prems(4) by (simp add: bucket_part_def)
  from Cons.IH [OF Cons.prems(1) rec [unfolded w1] p this] show ?case .
qed simp

lemma evict_chunk_le: "store_le (evict_chunk fails nvme c) nvme"
proof (cases "nvme (ck3_stream c)")
  case None
  then show ?thesis by (simp add: evict_chunk_def)
next
  case (Some d)
  let ?rm = "\<lambda>d ext. fst (try_remove fails (chunk_file (ck3_start c) (ck3_end c) ext) d)"
  have rm: "map_of (?rm d0 x) n = Some f \<Longrightarrow> map_of d0 n = Some f" for x d0 n f
    by (auto simp: try_remove_def split: if_splits)
  have "map_of (foldl ?rm d0 exts) n = Some f \<Longrightarrow> map_of d0 n = Some f" for d0 exts n f
  proof (induction exts arbitrary: d0)
    case (Cons x exts)
    then have "map_of (?rm d0 x) n = Some f" by simp
    then show ?case by (rule rm)
  qed simp
  from this [of d "[''zst'', ''idx'', ''meta.json'']"] show ?thesis
    unfolding evict_chunk_def Some option.case by (intro store_le_update) (simp add: dir_of_def Some del: foldl_Cons)
qed

lemma reader_sweep_le: "reader_sweep_retention fails hours nvme = (k, nvme') \<Longrightarrow> store_le nvme' nvme"
proof -
  have "store_le (foldl (evict_chunk fails) nv cs) nv" for nv cs
    by (induction cs arbitrary: nv) (auto intro: store_le_trans evict_chunk_le)
  then show "reader_sweep_retention fails hours nvme = (k, nvme') \<Longrightarrow> store_le nvme' nvme"
    by (auto simp: reader_sweep_retention_def Let_def)
qed

text \<open>The listing reads the bucket.\<close>

definition list_laws :: "('s \<Rightarrow> (list_error + r2_chunk list) \<times> 's) \<Rightarrow> 's objects \<Rightarrow> bool" where
  "list_laws list_r2 obj \<longleftrightarrow> (\<forall>s. obj (snd (list_r2 s)) = obj s)"

definition reader_laws :: "(('s \<Rightarrow> (list_error + r2_chunk list) \<times> 's) \<times> 's get_object) option \<Rightarrow> 's objects \<Rightarrow> bool" where
  "reader_laws r2 obj \<longleftrightarrow> (\<forall>list_r2 get. r2 = Some (list_r2, get) \<longrightarrow> list_laws list_r2 obj \<and> get_laws get obj)"

lemma syncer_cycle_cases:
  obtains (idle) "sy_store (syncer_cycle parse_meta fails r2 now cfg y) = sy_store y"
      "sy_net (syncer_cycle parse_meta fails r2 now cfg y) = sy_net y \<or>
        (\<exists>list_r2 get e. r2 = Some (list_r2, get) \<and>
           list_r2 (sy_net y) = (Inl e, sy_net (syncer_cycle parse_meta fails r2 now cfg y)))"
  | (synced) list_r2 get remote s n nvme m where "r2 = Some (list_r2, get)" "list_r2 (sy_net y) = (Inr remote, s)"
      "download_all fails get now cfg (diff_for_sync (local_chunks (sy_store y)) remote (r_local_retention_hours cfg))
         (sy_store y, s) = (n, nvme, sy_net (syncer_cycle parse_meta fails r2 now cfg y))"
      "reader_sweep_retention fails (r_local_retention_hours cfg) nvme =
         (m, sy_store (syncer_cycle parse_meta fails r2 now cfg y))"
proof (cases r2)
  case None
  then show thesis by (intro idle) (simp_all add: syncer_cycle_def)
next
  case (Some p)
  obtain list_r2 get where r2: "r2 = Some (list_r2, get)" using Some by (cases p) auto
  obtain res s where ls: "list_r2 (sy_net y) = (res, s)" by fastforce
  show thesis
  proof (cases res)
    case (Inl err)
    with r2 ls show thesis by (intro idle) (simp_all add: syncer_cycle_def)
  next
    case (Inr remote)
    obtain n nvme s' where dl: "download_all fails get now cfg
        (diff_for_sync (local_chunks (sy_store y)) remote (r_local_retention_hours cfg)) (sy_store y, s) = (n, nvme, s')"
      by (metis surj_pair)
    obtain m nvme' where sw: "reader_sweep_retention fails (r_local_retention_hours cfg) nvme = (m, nvme')" by fastforce
    have "sy_store (syncer_cycle parse_meta fails r2 now cfg y) = nvme'" "sy_net (syncer_cycle parse_meta fails r2 now cfg y) = s'"
      using r2 ls Inr dl sw by (simp_all add: syncer_cycle_def Let_def republish_catalog_def)
    with synced [OF r2 ls [unfolded Inr]] dl sw show thesis by simp
  qed
qed

lemma listed_obj: "reader_laws r2 obj \<Longrightarrow> r2 = Some (list_r2, get) \<Longrightarrow> list_r2 s0 = (res, s) \<Longrightarrow> obj s = obj s0"
  by (metis list_laws_def reader_laws_def snd_conv)

lemma syncer_cycle_obj:
  assumes laws: "reader_laws r2 obj"
  shows "obj (sy_net (syncer_cycle parse_meta fails r2 now cfg y)) = obj (sy_net y)"
proof (cases rule: syncer_cycle_cases [of parse_meta fails r2 now cfg y])
  case idle
  with listed_obj [OF laws] show ?thesis by auto
next
  case (synced list_r2 get remote s n nvme m)
  have "get_laws get obj" using laws synced(1) by (simp add: reader_laws_def)
  from download_all_obj [OF this synced(3)] listed_obj [OF laws synced(1,2)] show ?thesis by simp
qed

lemma syncer_cycle_part:
  assumes laws: "reader_laws r2 obj" and part: "part_of (dir_of (sy_store y) st) a e F" and bucket: "bucket_part obj (sy_net y) st a e F"
  shows "part_of (dir_of (sy_store (syncer_cycle parse_meta fails r2 now cfg y)) st) a e F"
proof (cases rule: syncer_cycle_cases [of parse_meta fails r2 now cfg y])
  case idle
  with part show ?thesis by simp
next
  case (synced list_r2 get remote s n nvme m)
  have g: "get_laws get obj" using laws synced(1) by (simp add: reader_laws_def)
  have "bucket_part obj s st a e F" using bucket listed_obj [OF laws synced(1,2)] by (simp add: bucket_part_def)
  from store_le_part [OF reader_sweep_le [OF synced(4)] download_all_part [OF g synced(3) part this]] show ?thesis .
qed

lemma syncer_start_part:
  assumes "part_of (dir_of (sy_store y) st) a e F"
  shows "part_of (dir_of (sy_store (syncer_start fails y)) st) a e F"
proof -
  obtain nvme k where "sweep_streams reader_partial fails all_streams (sy_store y, 0) = (nvme, k)" by fastforce
  from store_le_part [OF sweep_streams_le [OF this] assms] this show ?thesis
    by (simp add: syncer_start_def reader_sweep_partials_def)
qed

text \<open>The steps of the process of the reader.\<close>

lemma reader_step_obj:
  assumes "reader_step parse_meta r2 cfg p q" and "reader_laws r2 obj"
  shows "obj (sy_net (rd_syncer q)) = obj (sy_net (rd_syncer p))"
  using assms by (induction rule: reader_step.induct) (simp_all add: syncer_start_def syncer_cycle_obj)

lemma reader_step_part:
  assumes "reader_step parse_meta r2 cfg p q" and "reader_laws r2 obj"
    and "part_of (dir_of (sy_store (rd_syncer p)) st) a e F" and "bucket_part obj (sy_net (rd_syncer p)) st a e F"
  shows "part_of (dir_of (sy_store (rd_syncer q)) st) a e F"
  using assms by (induction rule: reader_step.induct) (simp_all add: syncer_start_part syncer_cycle_part)

text \<open>
  \<open>dir_good\<close>: a directory lists every name once, and holds the files of chunks and partial files only.
\<close>

definition dir_good :: "dir \<Rightarrow> bool" where
  "dir_good d \<longleftrightarrow> distinct (map fst d) \<and>
     (\<forall>n. exists_in d n \<longrightarrow> reader_partial n \<or> (\<exists>s e. \<exists>x \<in> set FILES. n = chunk_file s e x))"

fun good_op :: "fs_op \<Rightarrow> bool" where
  "good_op (CreateFile n) = reader_partial n"
| "good_op (WriteFile n b) = reader_partial n"
| "good_op (RenameFile m n) = (\<exists>s e. \<exists>x \<in> set FILES. n = chunk_file s e x)"
| "good_op op = True"

lemma dir_good_Nil [simp]: "dir_good []"
  by (simp add: dir_good_def exists_in_def)

lemma distinct_apply_op: "apply_op now op d = Some d' \<Longrightarrow> distinct (map fst d) \<Longrightarrow> distinct (map fst d')"
  by (cases op) (auto simp: create_file_def remove_file_def rename_file_def distinct_update distinct_delete
      split: if_splits option.splits)

lemma dir_good_remove: "dir_good d \<Longrightarrow> dir_good (remove_file n d)"
  by (simp add: dir_good_def exists_in_def remove_file_def distinct_delete delete_conv')

lemma dir_good_apply:
  assumes "dir_good d" and "good_op op" and "apply_op now op d = Some d'"
  shows "dir_good d'"
proof -
  have "reader_partial n \<or> (\<exists>s e. \<exists>x \<in> set FILES. n = chunk_file s e x)" if n: "exists_in d' n" for n
  proof -
    have old: "exists_in d n \<Longrightarrow> ?thesis" using assms(1) by (simp add: dir_good_def)
    from n exists_apply_op [OF assms(3), of n] assms(2) old show ?thesis by (cases op) auto
  qed
  with distinct_apply_op [OF assms(3)] assms(1) show ?thesis by (simp add: dir_good_def)
qed

lemma dir_good_run:
  "dir_good d \<Longrightarrow> \<forall>op \<in> set ops. good_op op \<Longrightarrow> run_ops fails now ops d = (d', r) \<Longrightarrow> dir_good d'"
proof (induction ops arbitrary: d)
  case (Cons op ops)
  show ?case
  proof (cases "fails op \<or> apply_op now op d = None")
    case True
    with Cons.prems(1,3) show ?thesis by (auto split: if_splits)
  next
    case False
    then obtain d1 where d1: "apply_op now op d = Some d1" by auto
    have "good_op op" using Cons.prems(2) by simp
    from dir_good_apply [OF Cons.prems(1) this d1] show ?thesis
      using Cons.IH [of d1] Cons.prems(2,3) False d1 by simp
  qed
qed simp

lemma get_with_retry_good:
  assumes g: "get_with_retry fails get now key dest cfg (d, s) = (r, (d', s'), ds)" and p: "reader_partial dest" and d: "dir_good d"
  shows "dir_good d'"
proof -
  let ?I = "\<lambda>(d1, s1). dir_good d1"
  have "dir_good d1" if good: "dir_good d0" and a: "get_file fails get now key dest (d0, s0) = (r0, d1, s1)" for d0 s0 r0 d1 s1
  proof -
    have "d1 = d0 \<or> (\<exists>b r. run_ops fails now [CreateFile dest, WriteFile dest b, SyncFile dest] d0 = (d1, r))"
      using a unfolding get_file_def by (auto simp del: run_ops.simps split: option.splits prod.splits)
    moreover have "dir_good d1" if "run_ops fails now [CreateFile dest, WriteFile dest b, SyncFile dest] d0 = (d1, r)" for b r
      using p by (intro dir_good_run [OF good _ that]) simp
    ultimately show ?thesis using good by auto
  qed
  then have "\<forall>x0 r0 x1. ?I x0 \<longrightarrow> get_file fails get now key dest x0 = (r0, x1) \<longrightarrow> ?I x1" by auto
  with retry_spec [where I = ?I, OF g [unfolded get_with_retry_def]] d show ?thesis by simp
qed

lemma download_files_good:
  "download_files fails get now cfg chunk exts (d, s) = (r, d', s') \<Longrightarrow> set exts \<subseteq> set FILES \<Longrightarrow> dir_good d \<Longrightarrow> dir_good d'"
proof (induction exts arbitrary: d s)
  case (Cons x exts)
  let ?f = "chunk_file (rc_start_slot chunk) (rc_end_slot chunk) x"
  have p: "reader_partial (?f @ ''.partial'')" by (auto simp: reader_partial_def ends_with_iff)
  obtain r1 d1 s1 ds where g: "get_with_retry fails get now
      (object_key (rc_stream chunk) (rc_start_slot chunk) (rc_end_slot chunk) x) (?f @ ''.partial'') cfg (d, s) = (r1, (d1, s1), ds)"
    by (metis surj_pair)
  have d1: "dir_good d1" by (rule get_with_retry_good [OF g p Cons.prems(3)])
  obtain d2 e2 where ro: "run_ops fails now [RenameFile (?f @ ''.partial'') ?f] d1 = (d2, e2)" by fastforce
  have d2: "dir_good d2" using Cons.prems(2) by (intro dir_good_run [OF d1 _ ro]) auto
  have "d' = d1 \<or> d' = d2 \<or> download_files fails get now cfg chunk exts (d2, s1) = (r, d', s')"
    using Cons.prems(1) g ro by (auto simp: Let_def simp del: run_ops.simps split: sum.splits option.splits)
  with d1 d2 Cons.IH Cons.prems(2) show ?case by auto
qed simp

definition store_good :: "store \<Rightarrow> bool" where
  "store_good nvme \<longleftrightarrow> (\<forall>st. dir_good (dir_of nvme st))"

lemma store_good_update: "store_good nvme \<Longrightarrow> dir_good d \<Longrightarrow> store_good (nvme(st := Some d))"
  by (simp add: store_good_def dir_of_update)

lemma download_all_good:
  "download_all fails get now cfg cs (nvme, s) = (n, nvme', s') \<Longrightarrow> store_good nvme \<Longrightarrow> store_good nvme'"
proof (induction cs arbitrary: nvme s n)
  case (Cons c cs)
  obtain r d1 s1 where dl: "download_chunk fails get now cfg c (dir_of nvme (rc_stream c), s) = (r, d1, s1)" by (metis surj_pair)
  obtain n1 w1 where rec: "download_all fails get now cfg cs (nvme(rc_stream c := Some d1), s1) = (n1, w1)" by (metis surj_pair)
  have w1: "w1 = (nvme', s')" using Cons.prems(1) dl rec by (simp add: dir_of_def)
  have "dir_good d1"
    using Cons.prems(2) by (intro download_files_good [OF dl [unfolded download_chunk_def]]) (auto simp: FILES_def store_good_def)
  from Cons.IH [OF rec [unfolded w1] store_good_update [OF Cons.prems(2) this]] show ?case .
qed simp

lemma dir_good_try_remove: "dir_good d \<Longrightarrow> dir_good (fst (try_remove fails n d))"
  by (simp add: try_remove_def dir_good_remove)

lemma evict_chunk_good: "store_good nvme \<Longrightarrow> store_good (evict_chunk fails nvme c)"
proof (cases "nvme (ck3_stream c)")
  case (Some d)
  assume good: "store_good nvme"
  let ?rm = "\<lambda>d ext. fst (try_remove fails (chunk_file (ck3_start c) (ck3_end c) ext) d)"
  have "dir_good d0 \<Longrightarrow> dir_good (foldl ?rm d0 exts)" for d0 exts
    by (induction exts arbitrary: d0) (simp_all add: dir_good_try_remove)
  moreover have "dir_good d" using good Some by (metis dir_of_def option.simps(5) store_good_def)
  ultimately show ?thesis unfolding evict_chunk_def Some option.case by (intro store_good_update [OF good])
qed (simp add: evict_chunk_def)

lemma reader_sweep_good: "reader_sweep_retention fails hours nvme = (k, nvme') \<Longrightarrow> store_good nvme \<Longrightarrow> store_good nvme'"
proof -
  have "store_good nv \<Longrightarrow> store_good (foldl (evict_chunk fails) nv cs)" for nv cs
    by (induction cs arbitrary: nv) (simp_all add: evict_chunk_good)
  then show "reader_sweep_retention fails hours nvme = (k, nvme') \<Longrightarrow> store_good nvme \<Longrightarrow> store_good nvme'"
    by (auto simp: reader_sweep_retention_def Let_def)
qed

lemma sweep_entries_good: "sweep_entries doomed fails ns (d, k) = (d', k') \<Longrightarrow> dir_good d \<Longrightarrow> dir_good d'"
proof (induction ns arbitrary: d k)
  case (Cons x ns)
  consider k1 where "sweep_entries doomed fails ns (d, k1) = (d', k')"
    | k1 where "sweep_entries doomed fails ns (remove_file x d, k1) = (d', k')"
    using Cons.prems(1) by (auto simp: try_remove_def split: if_splits)
  then show ?case
    using Cons.IH [OF _ Cons.prems(2)] Cons.IH [OF _ dir_good_remove [OF Cons.prems(2)]] by cases
qed simp

lemma sweep_streams_good: "sweep_streams doomed fails sts (nvme, k) = (nvme', k') \<Longrightarrow> store_good nvme \<Longrightarrow> store_good nvme'"
proof (induction sts arbitrary: nvme k)
  case (Cons st sts)
  show ?case
  proof (cases "nvme st")
    case None
    with Cons show ?thesis by simp
  next
    case (Some d)
    obtain d1 k1 where s: "sweep_entries doomed fails (map fst d) (d, k) = (d1, k1)" by fastforce
    have "dir_good d" using Cons.prems(2) Some by (metis dir_of_def option.simps(5) store_good_def)
    note d1 = store_good_update [where st = st, OF Cons.prems(2) sweep_entries_good [OF s this]]
    from Cons.prems(1) Some s have "sweep_streams doomed fails sts (nvme(st := Some d1), k1) = (nvme', k')" by simp
    from Cons.IH [OF this d1] show ?thesis .
  qed
qed simp

lemma reader_step_good:
  assumes "reader_step parse_meta r2 cfg p q" and "store_good (sy_store (rd_syncer p))"
  shows "store_good (sy_store (rd_syncer q))"
  using assms
proof (induction rule: reader_step.induct)
  case (rd_sweep p fails)
  obtain nvme k where "sweep_streams reader_partial fails all_streams (sy_store (rd_syncer p), 0) = (nvme, k)" by fastforce
  from sweep_streams_good [OF this rd_sweep(3)] this show ?case by (simp add: syncer_start_def reader_sweep_partials_def)
next
  case (rd_cycle p y fails now)
  show ?case
  proof (cases rule: syncer_cycle_cases [of parse_meta fails r2 now cfg "rd_syncer p"])
    case idle
    with rd_cycle(4,5) show ?thesis by simp
  next
    case (synced list_r2 get remote s n nvme m)
    from reader_sweep_good [OF synced(4) download_all_good [OF synced(3) rd_cycle(5)]] rd_cycle(4) show ?thesis by simp
  qed
qed simp_all

section \<open>The system\<close>

text \<open>
  The bucket is the state \<open>wr_net\<close> of the network at the writer; the reader's own copy \<open>sy_net\<close> is
  set to it before each of its steps. \<open>net_to\<close>: the reader meets the bucket in state \<open>s\<close>.
\<close>

record ('s, 'bm) system =
  sys_writer :: "('s, 'bm) writer"
  sys_reader :: "'s reader"

definition net_to :: "'s \<Rightarrow> 's reader \<Rightarrow> 's reader" where
  "net_to s p = p\<lparr>rd_syncer := (rd_syncer p)\<lparr>sy_net := s\<rparr>\<rparr>"

inductive system_step :: "'bm writer_env \<Rightarrow> 's writer_setup \<Rightarrow> (bytes \<Rightarrow> chunk_meta option) \<Rightarrow>
    (('s \<Rightarrow> (list_error + r2_chunk list) \<times> 's) \<times> 's get_object) option \<Rightarrow> settings
    \<Rightarrow> ('s, 'bm) system \<Rightarrow> ('s, 'bm) system \<Rightarrow> bool" for E P parse_meta r2 cfg where
  sys_writes: "system_step E P parse_meta r2 cfg X (X\<lparr>sys_writer := writer_event E P ev (sys_writer X)\<rparr>)"
| sys_reads: "reader_step parse_meta r2 (s_reader cfg) (net_to (wr_net (sys_writer X)) (sys_reader X)) q \<Longrightarrow>
    system_step E P parse_meta r2 cfg X
      (X\<lparr>sys_writer := (sys_writer X)\<lparr>wr_net := sy_net (rd_syncer q)\<rparr>, sys_reader := q\<rparr>)"
| sys_reader_starts: "system_step E P parse_meta r2 cfg X
      (X\<lparr>sys_reader := reader_start parse_meta cfg (sy_store (rd_syncer (sys_reader X))) (wr_net (sys_writer X))\<rparr>)"

definition writer_dir :: "('s, 'bm) system \<Rightarrow> stream \<Rightarrow> dir" where
  "writer_dir X st = dir_of (wr_store (sys_writer X)) st"

definition reader_dir :: "('s, 'bm) system \<Rightarrow> stream \<Rightarrow> dir" where
  "reader_dir X st = dir_of (sy_store (rd_syncer (sys_reader X))) st"

definition served_catalog :: "('s, 'bm) system \<Rightarrow> chunk_catalog" where
  "served_catalog X = snapshot (sv_catalog (rd_service (sys_reader X)))"

text \<open>What holds of the system, and of one chunk in it.\<close>

definition system_ok :: "'s objects \<Rightarrow> 'bm writer_env \<Rightarrow> (bytes \<Rightarrow> chunk_meta option) \<Rightarrow> settings \<Rightarrow> ('s, 'bm) system \<Rightarrow> bool" where
  "system_ok obj E parse_meta cfg X \<longleftrightarrow>
     writer_ok obj E (sys_writer X) \<and> reader_inv parse_meta (service_config_of cfg) (sys_reader X) \<and> few (sys_reader X) \<and>
     store_good (sy_store (rd_syncer (sys_reader X)))"

definition agreed :: "'s objects \<Rightarrow> ('s, 'bm) system \<Rightarrow> stream \<Rightarrow> u64 \<Rightarrow> u64 \<Rightarrow> (string \<Rightarrow> bytes) \<Rightarrow> bool" where
  "agreed obj X st a e F \<longleftrightarrow>
     part_of (writer_dir X st) a e F \<and> bucket_part obj (wr_net (sys_writer X)) st a e F \<and> part_of (reader_dir X st) a e F"

lemma writer_ok_net:
  assumes "obj s = obj (wr_net w)" and "writer_ok obj E w"
  shows "writer_ok obj E (w\<lparr>wr_net := s\<rparr>)"
  using assms by (simp add: writer_ok_def uploader_inv_def remote_complete_def marked_def in_bucket_def)

lemma reader_inv_net [simp]: "reader_inv parse_meta sc (net_to s p) = reader_inv parse_meta sc p"
  by (simp add: reader_inv_def net_to_def fresh_def main_order_def registry_ok_def cong: reader_phase.case_cong)

lemma few_net [simp]: "few (net_to s p) = few p"
  by (simp add: few_def net_to_def)

lemma reader_start_store [simp]: "sy_store (rd_syncer (reader_start parse_meta cfg nvme s)) = nvme"
  by (simp add: reader_start_def Let_def)

lemma system_step_ok:
  assumes step: "system_step E P parse_meta r2 cfg X Y" and few: "few (sys_reader Y)"
    and puts: "\<forall>put. ws_put P = Some put \<longrightarrow> put_laws put obj" and laws: "reader_laws r2 obj"
    and listing: "\<forall>list_r2 get s remote s'. r2 = Some (list_r2, get) \<longrightarrow> list_r2 s = (Inr remote, s') \<longrightarrow> length remote < 2 ^ 32"
    and ok: "system_ok obj E parse_meta cfg X"
  shows "system_ok obj E parse_meta cfg Y"
  using step
proof cases
  case (sys_writes ev)
  have "writer_ok obj E (sys_writer X)" using ok by (simp add: system_ok_def)
  from event_ok(1) [OF puts this] show ?thesis using ok by (simp add: sys_writes system_ok_def)
next
  case (sys_reads q)
  let ?p = "net_to (wr_net (sys_writer X)) (sys_reader X)"
  have "reader_inv parse_meta (service_config_of cfg) ?p" "few ?p" using ok by (simp_all add: system_ok_def)
  from reader_step_inv [OF sys_reads(2) this listing] have "reader_inv parse_meta (service_config_of cfg) q" .
  moreover have "store_good (sy_store (rd_syncer q))"
    using ok by (intro reader_step_good [OF sys_reads(2)]) (simp add: system_ok_def net_to_def)
  moreover have "obj (sy_net (rd_syncer q)) = obj (wr_net (sys_writer X))"
    using reader_step_obj [OF sys_reads(2) laws] by (simp add: net_to_def)
  then have "writer_ok obj E ((sys_writer X)\<lparr>wr_net := sy_net (rd_syncer q)\<rparr>)"
    using ok by (intro writer_ok_net) (simp_all add: system_ok_def)
  ultimately show ?thesis using few by (simp add: sys_reads(1) system_ok_def)
next
  case sys_reader_starts
  with ok few show ?thesis by (simp add: system_ok_def reader_inv_start)
qed

lemma system_step_agreed:
  assumes step: "system_step E P parse_meta r2 cfg X Y"
    and puts: "\<forall>put. ws_put P = Some put \<longrightarrow> put_laws put obj" and laws: "reader_laws r2 obj"
    and ok: "writer_ok obj E (sys_writer X)"
    and gone: "stays_gone (writer_dir X st) (writer_dir Y st) a e" and ag: "agreed obj X st a e F"
  shows "agreed obj Y st a e F"
  using step
proof cases
  case (sys_writes ev)
  have "part_of (dir_of (wr_store (writer_event E P ev (sys_writer X))) st) a e F \<and>
      bucket_part obj (wr_net (writer_event E P ev (sys_writer X))) st a e F"
    using gone ag by (intro writer_event_part [OF puts ok]) (simp_all add: writer_dir_def agreed_def sys_writes)
  with ag show ?thesis by (simp add: sys_writes agreed_def writer_dir_def reader_dir_def)
next
  case (sys_reads q)
  let ?p = "net_to (wr_net (sys_writer X)) (sys_reader X)"
  have p: "part_of (dir_of (sy_store (rd_syncer ?p)) st) a e F" "bucket_part obj (sy_net (rd_syncer ?p)) st a e F"
    using ag by (simp_all add: agreed_def net_to_def reader_dir_def)
  have "obj (sy_net (rd_syncer q)) = obj (wr_net (sys_writer X))"
    using reader_step_obj [OF sys_reads(2) laws] by (simp add: net_to_def)
  with reader_step_part [OF sys_reads(2) laws p] ag show ?thesis
    by (simp add: sys_reads(1) agreed_def writer_dir_def reader_dir_def bucket_part_def)
next
  case sys_reader_starts
  with ag show ?thesis by (simp add: agreed_def writer_dir_def reader_dir_def)
qed

text \<open>
  A run: from the start of both processes, in which the counters of the reader do not wrap
  (\<open>few\<close>). \<open>chunk_step\<close>: moreover no file of the chunk comes back once it is gone from the writer's
  disk, that is, the validator does not deliver the slots of a chunk again after its eviction.
\<close>

definition system_start :: "(fs_op \<Rightarrow> bool) \<Rightarrow> 's writer_setup \<Rightarrow> (bytes \<Rightarrow> chunk_meta option) \<Rightarrow> settings \<Rightarrow> store \<Rightarrow> 's \<Rightarrow> store
    \<Rightarrow> ('s, 'bm) system" where
  "system_start fails P parse_meta cfg written s held =
     \<lparr>sys_writer = writer_start fails (ws_writer P) (written, s), sys_reader = reader_start parse_meta cfg held s\<rparr>"

definition few_step :: "'bm writer_env \<Rightarrow> 's writer_setup \<Rightarrow> (bytes \<Rightarrow> chunk_meta option) \<Rightarrow>
    (('s \<Rightarrow> (list_error + r2_chunk list) \<times> 's) \<times> 's get_object) option \<Rightarrow> settings
    \<Rightarrow> ('s, 'bm) system \<Rightarrow> ('s, 'bm) system \<Rightarrow> bool" where
  "few_step E P parse_meta r2 cfg X Y \<longleftrightarrow> system_step E P parse_meta r2 cfg X Y \<and> few (sys_reader Y)"

definition chunk_step :: "'bm writer_env \<Rightarrow> 's writer_setup \<Rightarrow> (bytes \<Rightarrow> chunk_meta option) \<Rightarrow>
    (('s \<Rightarrow> (list_error + r2_chunk list) \<times> 's) \<times> 's get_object) option \<Rightarrow> settings \<Rightarrow> stream \<Rightarrow> u64 \<Rightarrow> u64
    \<Rightarrow> ('s, 'bm) system \<Rightarrow> ('s, 'bm) system \<Rightarrow> bool" where
  "chunk_step E P parse_meta r2 cfg st a e X Y \<longleftrightarrow>
     few_step E P parse_meta r2 cfg X Y \<and> stays_gone (writer_dir X st) (writer_dir Y st) a e"

definition clean_start :: "'s objects \<Rightarrow> store \<Rightarrow> 's \<Rightarrow> store \<Rightarrow> bool" where
  "clean_start obj written s held \<longleftrightarrow>
     uploader_inv obj (written, s) \<and> (\<forall>st d. written st = Some d \<longrightarrow> chunk_names d) \<and>
     store_good held \<and> length (local_chunks held) < 2 ^ 32"

text \<open>What the packages promise: puts, gets and listings act on the bucket as documented.\<close>

definition network_ok :: "'s writer_setup \<Rightarrow> (('s \<Rightarrow> (list_error + r2_chunk list) \<times> 's) \<times> 's get_object) option \<Rightarrow> 's objects \<Rightarrow> bool" where
  "network_ok P r2 obj \<longleftrightarrow> (\<forall>put. ws_put P = Some put \<longrightarrow> put_laws put obj) \<and> reader_laws r2 obj \<and>
     (\<forall>list_r2 get s remote s'. r2 = Some (list_r2, get) \<longrightarrow> list_r2 s = (Inr remote, s') \<longrightarrow> length remote < 2 ^ 32)"

lemma network_okD:
  assumes "network_ok P r2 obj"
  shows "\<forall>put. ws_put P = Some put \<longrightarrow> put_laws put obj" and "reader_laws r2 obj"
    and "\<forall>list_r2 get s remote s'. r2 = Some (list_r2, get) \<longrightarrow> list_r2 s = (Inr remote, s') \<longrightarrow> length remote < 2 ^ 32"
  using assms unfolding network_ok_def by - (elim conjE, assumption)+

lemma system_start_ok:
  assumes "clean_start obj written s held"
  shows "system_ok obj E parse_meta cfg (system_start fails P parse_meta cfg written s held :: ('s, 'bm) system)"
  using assms writer_start_ok(1) [of obj written s E fails "ws_writer P"]
  by (simp add: system_ok_def system_start_def clean_start_def reader_inv_start few_def)

lemma few_run_ok:
  assumes run: "(few_step E P parse_meta r2 cfg)\<^sup>*\<^sup>* X Y"
    and net: "network_ok P r2 obj"
    and ok: "system_ok obj E parse_meta cfg X"
  shows "system_ok obj E parse_meta cfg Y"
  using run
proof induction
  case (step Y Z)
  from step(2) have z: "system_step E P parse_meta r2 cfg Y Z" "few (sys_reader Z)" by (simp_all add: few_step_def)
  show ?case by (rule system_step_ok [OF z network_okD [OF net] step(3)])
qed (rule ok)

lemma chunk_run_agreed:
  assumes run: "(chunk_step E P parse_meta r2 cfg st a e)\<^sup>*\<^sup>* X Y"
    and net: "network_ok P r2 obj"
    and ok: "system_ok obj E parse_meta cfg X" and ag: "agreed obj X st a e F"
  shows "system_ok obj E parse_meta cfg Y \<and> agreed obj Y st a e F"
  using run
proof induction
  case base
  with ok ag show ?case by simp
next
  case (step Y Z)
  from step(2) have z: "system_step E P parse_meta r2 cfg Y Z" "few (sys_reader Z)" "stays_gone (writer_dir Y st) (writer_dir Z st) a e"
    by (simp_all add: chunk_step_def few_step_def)
  from step(3) have y: "system_ok obj E parse_meta cfg Y" "agreed obj Y st a e F" by simp_all
  then have "writer_ok obj E (sys_writer Y)" by (simp add: system_ok_def)
  from system_step_agreed [OF z(1) network_okD(1,2) [OF net] this z(3) y(2)] system_step_ok [OF z(1,2) network_okD [OF net] y(1)]
  show ?case by simp
qed

text \<open>An entry of the catalog is determined by its metadata file.\<close>

lemma visible_files:
  assumes "visible parse_meta st d en"
  shows "\<exists>base f zf m. (base @ ''.meta.json'', f) \<in> set d \<and>
    parse_meta_name (base @ ''.meta.json'') = Some (ce_start_slot en, ce_end_slot_exclusive en) \<and>
    map_of d (base @ ''.zst'') = Some zf \<and> exists_in d (base @ ''.idx'') \<and> parse_meta (content f) = Some m \<and>
    meta_path en = base @ ''.meta.json'' \<and> en = \<lparr>ce_stream = st, ce_start_slot = ce_start_slot en,
      ce_end_slot_exclusive = ce_end_slot_exclusive en, zst_path = base @ ''.zst'', idx_path = base @ ''.idx'',
      meta_path = base @ ''.meta.json'', zst_len = of_nat (length (content zf)), ce_meta = m\<rparr>"
proof -
  from assms obtain base f zf m where v: "(base @ ''.meta.json'', f) \<in> set d"
    "parse_meta_name (base @ ''.meta.json'') = Some (ce_start_slot en, ce_end_slot_exclusive en)"
    "map_of d (base @ ''.zst'') = Some zf" "exists_in d (base @ ''.idx'')" "parse_meta (content f) = Some m"
    "en = \<lparr>ce_stream = st, ce_start_slot = ce_start_slot en,
      ce_end_slot_exclusive = ce_end_slot_exclusive en, zst_path = base @ ''.zst'', idx_path = base @ ''.idx'',
      meta_path = base @ ''.meta.json'', zst_len = of_nat (length (content zf)), ce_meta = m\<rparr>"
    unfolding visible_def by blast
  have "meta_path en = base @ ''.meta.json''" by (subst v(6)) simp
  with v show ?thesis by blast
qed

lemma visible_unique:
  assumes "visible parse_meta st d e" and "visible parse_meta st d e'" and mp: "meta_path e = meta_path e'"
    and "distinct (map fst d)"
  shows "e = e'"
proof -
  obtain b f zf m where b: "(b @ ''.meta.json'', f) \<in> set d"
    "parse_meta_name (b @ ''.meta.json'') = Some (ce_start_slot e, ce_end_slot_exclusive e)"
    "map_of d (b @ ''.zst'') = Some zf" "parse_meta (content f) = Some m" "meta_path e = b @ ''.meta.json''"
    "e = \<lparr>ce_stream = st, ce_start_slot = ce_start_slot e, ce_end_slot_exclusive = ce_end_slot_exclusive e,
      zst_path = b @ ''.zst'', idx_path = b @ ''.idx'', meta_path = b @ ''.meta.json'',
      zst_len = of_nat (length (content zf)), ce_meta = m\<rparr>"
    using visible_files [OF assms(1)] by blast
  obtain b' f' zf' m' where b': "(b' @ ''.meta.json'', f') \<in> set d"
    "parse_meta_name (b' @ ''.meta.json'') = Some (ce_start_slot e', ce_end_slot_exclusive e')"
    "map_of d (b' @ ''.zst'') = Some zf'" "parse_meta (content f') = Some m'" "meta_path e' = b' @ ''.meta.json''"
    "e' = \<lparr>ce_stream = st, ce_start_slot = ce_start_slot e', ce_end_slot_exclusive = ce_end_slot_exclusive e',
      zst_path = b' @ ''.zst'', idx_path = b' @ ''.idx'', meta_path = b' @ ''.meta.json'',
      zst_len = of_nat (length (content zf')), ce_meta = m'\<rparr>"
    using visible_files [OF assms(2)] by blast
  have bb: "b = b'" using mp b(5) b'(5) by simp
  with b(1) b'(1) assms(4) have "f = f'" by (metis eq_key_imp_eq_value)
  with bb b(2,3,4) b'(2,3,4) have "zf = zf'" "m = m'" "ce_start_slot e = ce_start_slot e'"
    "ce_end_slot_exclusive e = ce_end_slot_exclusive e'" by simp_all
  with bb show ?thesis by (subst b(6), subst b'(6)) simp
qed

text \<open>What the reader shows of the chunk is complete and is what the writer sealed.\<close>

lemma good_meta_name:
  assumes "dir_good d" and "exists_in d n" and "parse_meta_name n = Some (a, e)"
  shows "n = chunk_file a e ''meta.json''"
proof -
  from assms(1,2) meta_name_final [OF assms(3)] obtain s i x where "n = chunk_file s i x" "x \<in> set FILES"
    by (auto simp: dir_good_def)
  with chunk_file_meta [of s i x a e] assms(3) show ?thesis by simp
qed

lemma good_meta_path:
  assumes "dir_good d" and "visible parse_meta st d en"
  shows "meta_path en = chunk_file (ce_start_slot en) (ce_end_slot_exclusive en) ''meta.json''"
proof -
  obtain base f where b: "(base @ ''.meta.json'', f) \<in> set d" "meta_path en = base @ ''.meta.json''"
      "parse_meta_name (base @ ''.meta.json'') = Some (ce_start_slot en, ce_end_slot_exclusive en)"
    using visible_files [OF assms(2)] by blast
  have "exists_in d (base @ ''.meta.json'')" using b(1) by (force simp: exists_in_iff)
  from good_meta_name [OF assms(1) this b(3)] b(2) show ?thesis by simp
qed

lemma shown_entry:
  assumes ok: "system_ok obj E parse_meta cfg X" and ag: "agreed obj X st a e F"
    and get: "catalog_get (served_catalog X) st a = Some en" and e: "ce_end_slot_exclusive en = e"
  shows "disk_has (reader_dir X st) a e F \<and> visible parse_meta st (reader_dir X st) en \<and>
    dir_good (reader_dir X st) \<and> ce_start_slot en = a"
proof -
  let ?nvme = "sy_store (rd_syncer (sys_reader X))"
  have "served_catalog X = scan parse_meta ?nvme"
    using ok by (simp add: system_ok_def reader_inv_def fresh_def served_catalog_def)
  with get have g: "catalog_get (scan parse_meta ?nvme) st a = Some en" by simp
  then obtain d where d: "?nvme st = Some d" by (cases "?nvme st") (simp_all add: catalog_get_def scan_def)
  then have dir: "reader_dir X st = d" by (simp add: reader_dir_def dir_of_def)
  have v: "visible parse_meta st d en" "ce_start_slot en = a"
    using catalog_get_visible [where parse_meta = parse_meta and nvme = ?nvme and st = st and s = a] g d by (auto split: option.splits)
  have good: "dir_good d" using ok dir by (auto simp: system_ok_def store_good_def reader_dir_def)
  have path: "meta_path en = chunk_file a e ''meta.json''" using good_meta_path [OF good v(1)] v(2) e by simp
  obtain base f zf where b: "(base @ ''.meta.json'', f) \<in> set d" "map_of d (base @ ''.zst'') = Some zf"
      "exists_in d (base @ ''.idx'')" "meta_path en = base @ ''.meta.json''"
    using visible_files [OF v(1)] by blast
  then have base: "base = stem a e" using path by (simp add: chunk_file_def)
  have "exists_in d (base @ ''.meta.json'')" using b(1) by (force simp: exists_in_iff)
  then have "\<exists>f. map_of d (chunk_file a e x) = Some f" if "x \<in> set FILES" for x
    using that b(2,3) by (auto simp: base FILES_def chunk_file_def exists_in_def)
  moreover have "part_of d a e F" using ag by (simp add: agreed_def dir)
  ultimately have "disk_has d a e F" by (fastforce simp: disk_has_def part_of_def)
  with v good show ?thesis by (simp add: dir)
qed

end
