(* ===== verification/Progress.thy ===== *)
theory Progress
  imports System
begin

text \<open>
  What is not hindered arrives: one uploader cycle and one cycle of the syncer in which no operation
  fails bring a sealed chunk from the disk of the writer to that of the reader.
\<close>

section \<open>An upload that is not hindered\<close>

definition puts_succeed :: "'s put_object \<Rightarrow> bool" where
  "puts_succeed put \<longleftrightarrow> (\<forall>k b s. fst (put k b s))"

lemma put_with_retry_succeeds:
  assumes "puts_succeed put" and "u_retry_attempts cfg \<noteq> 0"
  shows "\<exists>s'. put_with_retry put key (Some b) cfg s = (Inr (), s', [])"
proof -
  obtain s' where "put key b s = (True, s')" using assms(1) by (metis puts_succeed_def prod.collapse)
  then have "put_file put key (Some b) s = (Inr (), s')" by (simp add: put_file_def)
  moreover have "0 < unat (u_retry_attempts cfg)" using assms(2) by (simp add: unat_gt_0)
  ultimately show ?thesis by (simp add: put_with_retry_def retry_step(1))
qed

lemma upload_files_succeed:
  assumes ok: "puts_succeed put" and att: "u_retry_attempts cfg \<noteq> 0"
  shows "\<forall>x \<in> set exts. map_of d (with_extension (pc_base chunk) x) \<noteq> None \<Longrightarrow>
    \<exists>s'. upload_files put cfg chunk d exts s = (Inr (), s')"
proof (induction exts arbitrary: s)
  case (Cons x exts)
  obtain f where f: "map_of d (with_extension (pc_base chunk) x) = Some f" using Cons.prems by auto
  obtain s1 where "put_with_retry put (object_key (pc_stream chunk) (pc_start_slot chunk) (pc_end_slot chunk) x)
      (Some (content f)) cfg s = (Inr (), s1, [])" using put_with_retry_succeeds [OF ok att] by blast
  moreover obtain s2 where "upload_files put cfg chunk d exts s1 = (Inr (), s2)" using Cons by auto
  ultimately show ?case by (simp add: f)
qed simp

lemma bucket_has_part: "bucket_has obj s st a e F \<longleftrightarrow> bucket_part obj s st a e F \<and> in_bucket obj s st a e (set FILES)"
  by (fastforce simp: bucket_has_def bucket_part_def in_bucket_def)

lemma upload_chunk_arrives:
  assumes laws: "put_laws put obj" and ok: "puts_succeed put" and att: "u_retry_attempts cfg \<noteq> 0" and can: "canonical c"
    and u: "upload_chunk fails put now cfg c (dir_of nvme (pc_stream c), s) = (r, d', s')"
    and has: "disk_has (dir_of nvme (pc_stream c)) (pc_start_slot c) (pc_end_slot c) F"
  shows "bucket_has obj s' (pc_stream c) (pc_start_slot c) (pc_end_slot c) F"
proof -
  let ?d = "dir_of nvme (pc_stream c)"
  have body: "map_option content (map_of ?d (with_extension (pc_base c) x)) = Some (F x)" if "x \<in> set FILES" for x
    using has that can by (simp add: disk_has_def canonical_def)
  then have "\<forall>x \<in> set FILES. map_of ?d (with_extension (pc_base c) x) \<noteq> None" by fastforce
  from upload_files_succeed [OF ok att this, of s] obtain s1 where f: "upload_files put cfg c ?d FILES s = (Inr (), s1)" by blast
  then have "s1 = s'" using u by (auto simp: upload_chunk_def FILES_def split: prod.splits option.splits)
  moreover have "distinct FILES" by (simp add: FILES_def)
  note objs = upload_files_obj [OF laws f this]
  ultimately have "obj s' (object_key (pc_stream c) (pc_start_slot c) (pc_end_slot c) x) = Some (F x)" if "x \<in> set FILES" for x
    using conjunct2 [OF conjunct2 [OF objs]] that body [OF that] by simp
  then show ?thesis by (simp add: bucket_has_def)
qed

lemma upload_chunk_bucket_kept:
  assumes laws: "put_laws put obj" and can: "canonical c"
    and u: "upload_chunk fails put now cfg c (dir_of nvme (pc_stream c), s) = (r, d', s')"
    and part: "part_of (dir_of nvme st) a e F" and has: "bucket_has obj s st a e F"
  shows "bucket_has obj s' st a e F"
proof -
  let ?d = "dir_of nvme (pc_stream c)"
  let ?key = "object_key (pc_stream c) (pc_start_slot c) (pc_end_slot c)"
  have bp: "bucket_part obj s' st a e F" using upload_chunk_part [OF laws can u part] has by (simp add: bucket_has_part)
  obtain r1 where f: "upload_files put cfg c ?d FILES s = (r1, s')"
    using u by (auto simp: upload_chunk_def FILES_def split: prod.splits sum.splits option.splits)
  have "distinct FILES" by (simp add: FILES_def)
  note objs = upload_files_obj [OF laws f this]
  have "obj s' k \<noteq> None" if k: "obj s k \<noteq> None" for k
  proof (cases "\<exists>x \<in> set FILES. k = ?key x")
    case False
    then have "\<forall>x \<in> set FILES. k \<noteq> ?key x" by blast
    with conjunct1 [OF objs] have "obj s' k = obj s k" by blast
    with k show ?thesis by simp
  next
    case True
    then obtain x where x: "x \<in> set FILES" "k = ?key x" by blast
    from conjunct1 [OF conjunct2 [OF objs]] x(1) have "obj s' (?key x) = obj s (?key x) \<or> obj s' (?key x) \<noteq> None" by metis
    with k x(2) show ?thesis by auto
  qed
  with has bp show ?thesis by (simp add: bucket_has_part in_bucket_def)
qed

lemma upload_all_bucket_kept:
  "put_laws put obj \<Longrightarrow> \<forall>c \<in> set cs. canonical c \<Longrightarrow> part_of (dir_of nvme st) a e F \<Longrightarrow> bucket_has obj s st a e F \<Longrightarrow>
   upload_all fails put now cfg cs (nvme, s) = (n, nvme', s') \<Longrightarrow> bucket_has obj s' st a e F"
proof (induction cs arbitrary: nvme s n)
  case (Cons c cs)
  obtain r d1 s1 where u: "upload_chunk fails put now cfg c (dir_of nvme (pc_stream c), s) = (r, d1, s1)" by (metis surj_pair)
  obtain n1 w1 where rec: "upload_all fails put now cfg cs (nvme(pc_stream c := Some d1), s1) = (n1, w1)" by (metis surj_pair)
  have w': "w1 = (nvme', s')" using Cons.prems(5) u rec by (simp add: dir_of_def)
  have can: "canonical c" "\<forall>c \<in> set cs. canonical c" using Cons.prems(2) by simp_all
  have "part_of (dir_of (nvme(pc_stream c := Some d1)) st) a e F"
    using upload_chunk_files [OF can(1) u] by (rule part_of_same [OF Cons.prems(3)])
  from Cons.IH [OF Cons.prems(1) can(2) this upload_chunk_bucket_kept [OF Cons.prems(1) can(1) u Cons.prems(3,4)] rec [unfolded w']]
  show ?case .
qed simp

lemma disk_has_part: "disk_has d a e F \<Longrightarrow> part_of d a e F"
  by (fastforce simp: disk_has_def part_of_def)

lemma upload_all_arrives:
  assumes laws: "put_laws put obj" and ok: "puts_succeed put" and att: "u_retry_attempts cfg \<noteq> 0"
  shows "\<forall>c \<in> set cs. canonical c \<Longrightarrow> c0 \<in> set cs \<Longrightarrow> disk_has (dir_of nvme (pc_stream c0)) (pc_start_slot c0) (pc_end_slot c0) F \<Longrightarrow>
   upload_all fails put now cfg cs (nvme, s) = (n, nvme', s') \<Longrightarrow>
   bucket_has obj s' (pc_stream c0) (pc_start_slot c0) (pc_end_slot c0) F"
proof (induction cs arbitrary: nvme s n)
  case (Cons c cs)
  obtain r d1 s1 where u: "upload_chunk fails put now cfg c (dir_of nvme (pc_stream c), s) = (r, d1, s1)" by (metis surj_pair)
  obtain n1 w1 where rec: "upload_all fails put now cfg cs (nvme(pc_stream c := Some d1), s1) = (n1, w1)" by (metis surj_pair)
  have w': "w1 = (nvme', s')" using Cons.prems(4) u rec by (simp add: dir_of_def)
  have can: "canonical c" "\<forall>c \<in> set cs. canonical c" using Cons.prems(1) by simp_all
  let ?nv = "nvme(pc_stream c := Some d1)"
  have has: "disk_has (dir_of ?nv (pc_stream c0)) (pc_start_slot c0) (pc_end_slot c0) F"
    using upload_chunk_files [OF can(1) u] by (intro disk_has_same [OF Cons.prems(3)]) blast
  show ?case
  proof (cases "c0 = c")
    case True
    have "bucket_has obj s1 (pc_stream c) (pc_start_slot c) (pc_end_slot c) F"
      using Cons.prems(3) unfolding True by (rule upload_chunk_arrives [OF laws ok att can(1) u])
    from upload_all_bucket_kept [OF laws can(2) disk_has_part [OF has [unfolded True]] this rec [unfolded w']]
    show ?thesis by (simp add: True)
  next
    case False
    then have "c0 \<in> set cs" using Cons.prems(2) by simp
    from Cons.IH [OF can(2) this has rec [unfolded w']] show ?thesis .
  qed
qed simp

lemma scan_pending_has:
  assumes "nvme st = Some d" and "exists_in d (chunk_file a e ''meta.json'')" and "\<not> exists_in d (chunk_file a e ''uploaded'')"
  shows "\<lparr>pc_stream = st, pc_base = stem a e, pc_start_slot = a, pc_end_slot = e\<rparr> \<in> set (scan_pending nvme)"
proof -
  let ?c = "\<lparr>pc_stream = st, pc_base = stem a e, pc_start_slot = a, pc_end_slot = e\<rparr>"
  have "with_extension (stem a e) ''uploaded'' = chunk_file a e ''uploaded''" by simp
  moreover have "parse_meta_name (chunk_file a e ''meta.json'') = Some (a, e)" by simp
  ultimately have "pending_entry st d (chunk_file a e ''meta.json'') = Some ?c"
    using assms(3) by (auto simp: pending_entry_def parse_meta_name_def bind_eq_Some_conv split: prod.splits)
  moreover have "chunk_file a e ''meta.json'' \<in> set (map fst d)" using assms(2) by (simp add: exists_in_iff)
  ultimately have "?c \<in> set (List.map_filter (pending_entry st d) (map fst d))" by (force simp: set_map_filter)
  with assms(1) show ?thesis by (force simp: scan_pending_def)
qed

text \<open>One cycle of the uploader brings a sealed chunk to the bucket.\<close>

lemma cycle_uploads:
  assumes laws: "put_laws put obj" and ok: "puts_succeed put" and att: "u_retry_attempts cfg \<noteq> 0"
    and inv: "uploader_inv obj (nvme, s)" and names: "\<forall>st d. nvme st = Some d \<longrightarrow> chunk_names d"
    and d: "nvme st = Some d" "disk_has d a e F" "\<not> exists_in d (chunk_file a e ''uploaded'')"
    and cyc: "snd (uploader_cycle fails (Some put) now cfg (nvme, s)) = (nvme', s')"
  shows "bucket_has obj s' st a e F"
proof -
  obtain r nv1 where sw: "uploader_sweep_retention fails now (u_local_retention_hours cfg) nvme = (r, nv1)" by fastforce
  have can: "\<forall>c \<in> set (scan_pending nvme). canonical c" using scan_pending_canonical [OF names] by blast
  obtain n where up: "upload_all fails put now cfg (scan_pending nvme) (nv1, s) = (n, nvme', s')"
    using cyc sw by (auto simp: uploader_cycle_def Let_def split: prod.splits)
  have safe: "chunk_safe obj (nvme, s) st a e F" using d by (simp add: chunk_safe_def)
  from sweep_safe [OF inv names sw safe] show ?thesis
  proof
    assume "chunk_safe obj (nv1, s) st a e F"
    then have has: "disk_has (dir_of nv1 st) a e F" by (auto simp: chunk_safe_def dir_of_def)
    have "exists_in d (chunk_file a e ''meta.json'')" using d(2) by (auto simp: disk_has_def FILES_def exists_in_def)
    from scan_pending_has [where nvme = nvme and st = st and d = d, OF d(1) this d(3)] have
      "\<lparr>pc_stream = st, pc_base = stem a e, pc_start_slot = a, pc_end_slot = e\<rparr> \<in> set (scan_pending nvme)" .
    from upload_all_arrives [OF laws ok att can this _ up, of F] has show ?thesis by simp
  next
    assume "bucket_has obj s st a e F"
    moreover have "part_of (dir_of nv1 st) a e F"
      using disk_has_part [OF d(2)] d(1)
      by (intro store_le_part [OF sweep_retention_le [OF sw [unfolded uploader_sweep_retention_def]]]) (simp add: dir_of_def)
    ultimately show ?thesis using upload_all_bucket_kept [OF laws can _ _ up] by blast
  qed
qed

section \<open>A download that is not hindered\<close>

definition gets_succeed :: "'s get_object \<Rightarrow> 's objects \<Rightarrow> bool" where
  "gets_succeed get obj \<longleftrightarrow> (\<forall>k s. fst (get k s) = obj s k)"

lemma get_with_retry_succeeds:
  assumes ok: "gets_succeed get obj" and att: "r_retry_attempts cfg \<noteq> 0" and b: "obj s key = Some b"
  shows "\<exists>d' s'. get_with_retry (\<lambda>_. False) get now key dest cfg (d, s) = (Inr (of_nat (length b)), (d', s'), [])"
proof -
  obtain s' where "get key s = (Some b, s')" using ok b by (metis gets_succeed_def prod.collapse)
  then have "\<exists>d'. get_file (\<lambda>_. False) get now key dest (d, s) = (Inr (of_nat (length b)), d', s')"
    by (simp add: get_file_def)
  moreover have "0 < unat (r_retry_attempts cfg)" using att by (simp add: unat_gt_0)
  ultimately show ?thesis unfolding get_with_retry_def using retry_step(1) by metis
qed

lemma download_files_succeed:
  assumes laws: "get_laws get obj" and ok: "gets_succeed get obj" and att: "r_retry_attempts cfg \<noteq> 0"
  shows "\<forall>x \<in> set exts. obj s (object_key (rc_stream chunk) (rc_start_slot chunk) (rc_end_slot chunk) x) \<noteq> None \<Longrightarrow>
    \<exists>d' s'. download_files (\<lambda>_. False) get now cfg chunk exts (d, s) = (Inr (), d', s')"
proof (induction exts arbitrary: d s)
  case (Cons x exts)
  let ?key = "object_key (rc_stream chunk) (rc_start_slot chunk) (rc_end_slot chunk) x"
  let ?f = "chunk_file (rc_start_slot chunk) (rc_end_slot chunk) x"
  obtain b where b: "obj s ?key = Some b" using Cons.prems by auto
  from get_with_retry_succeeds [OF ok att b] obtain d1 s1 where
    g: "get_with_retry (\<lambda>_. False) get now ?key (?f @ ''.partial'') cfg (d, s) = (Inr (of_nat (length b)), (d1, s1), [])" by blast
  have "reader_partial (?f @ ''.partial'')" by (auto simp: reader_partial_def ends_with_iff)
  from get_with_retry_spec [OF laws this g] have s1: "obj s1 = obj s" and p: "map_of d1 (?f @ ''.partial'') \<noteq> None" by auto
  from p obtain d2 where "run_ops (\<lambda>_. False) now [RenameFile (?f @ ''.partial'') ?f] d1 = (d2, None)"
    by (auto simp: rename_file_def)
  moreover obtain d' s' where "download_files (\<lambda>_. False) get now cfg chunk exts (d2, s1) = (Inr (), d', s')"
    using Cons.IH [of s1 d2] Cons.prems s1 by auto
  ultimately show ?case using g by (simp add: Let_def del: run_ops.simps)
qed simp

text \<open>
  The final files after a download: those that were there, and files of the chunk, all of them when it
  reports success.
\<close>

lemma download_files_names:
  "get_laws get obj \<Longrightarrow> download_files fails get now cfg chunk exts (d, s) = (r, d', s') \<Longrightarrow> set exts \<subseteq> set FILES \<Longrightarrow>
   (\<forall>n. \<not> reader_partial n \<longrightarrow>
      (exists_in d n \<longrightarrow> exists_in d' n) \<and>
      (exists_in d' n \<longrightarrow> exists_in d n \<or> (\<exists>x \<in> set FILES. n = chunk_file (rc_start_slot chunk) (rc_end_slot chunk) x))) \<and>
   (r = Inr () \<longrightarrow> (\<forall>x \<in> set exts. exists_in d' (chunk_file (rc_start_slot chunk) (rc_end_slot chunk) x))) \<and> obj s' = obj s"
proof (induction exts arbitrary: d s)
  case (Cons x exts)
  let ?f = "chunk_file (rc_start_slot chunk) (rc_end_slot chunk)"
  have x: "x \<in> set FILES" and xs: "set exts \<subseteq> set FILES" using Cons.prems(3) by auto
  then have np: "\<not> reader_partial (?f x)" by (auto simp: FILES_def)
  from download_files_Cons [OF Cons.prems(1,2) np] show ?case
  proof (elim disjE exE conjE)
    fix bad assume "r = Inl bad" "finals_kept d d'" "obj s' = obj s"
    then show ?thesis by (simp add: exists_same)
  next
    fix b d1 s1
    assume step: "obj s1 = obj s" "download_files fails get now cfg chunk exts (d1, s1) = (r, d', s')"
      "\<forall>n. \<not> reader_partial n \<longrightarrow> map_of d1 n = (if n = ?f x then Some \<lparr>content = b, mtime = now\<rparr> else map_of d n)"
    have d1: "exists_in d1 n \<longleftrightarrow> n = ?f x \<or> exists_in d n" if "\<not> reader_partial n" for n
      using step(3) that by (simp add: exists_in_def)
    note IH = Cons.IH [OF Cons.prems(1) step(2) xs]
    have IH1: "(exists_in d1 n \<longrightarrow> exists_in d' n) \<and> (exists_in d' n \<longrightarrow> exists_in d1 n \<or> (\<exists>x \<in> set FILES. n = ?f x))"
      if "\<not> reader_partial n" for n using conjunct1 [OF IH] that by blast
    have "(exists_in d n \<longrightarrow> exists_in d' n) \<and> (exists_in d' n \<longrightarrow> exists_in d n \<or> (\<exists>x \<in> set FILES. n = ?f x))"
      if "\<not> reader_partial n" for n using IH1 [OF that] d1 [OF that] x by metis
    moreover have "exists_in d' (?f x)" using IH1 [OF np] d1 [OF np] by simp
    ultimately show ?thesis using conjunct2 [OF IH] step(1) by simp
  qed
qed simp

definition chunk_there :: "dir \<Rightarrow> u64 \<Rightarrow> u64 \<Rightarrow> bool" where
  "chunk_there d a e \<longleftrightarrow> (\<forall>x \<in> set FILES. exists_in d (chunk_file a e x))"

lemma there_has: "part_of d a e F \<Longrightarrow> chunk_there d a e \<Longrightarrow> disk_has d a e F"
  by (fastforce simp: part_of_def chunk_there_def disk_has_def exists_in_def)

lemma final_FILES: "x \<in> set FILES \<Longrightarrow> \<not> reader_partial (chunk_file a e x)"
  by (auto simp: FILES_def)

lemma download_chunk_there:
  assumes laws: "get_laws get obj" and dl: "download_chunk fails get now cfg chunk (d, s) = (r, d', s')"
  shows "chunk_there d a e \<Longrightarrow> chunk_there d' a e"
    and "r = Inr () \<Longrightarrow> chunk_there d' (rc_start_slot chunk) (rc_end_slot chunk)"
    and "obj s' = obj s"
    and "\<not> reader_partial n \<Longrightarrow> exists_in d' n \<Longrightarrow> exists_in d n \<or>
      (\<exists>x \<in> set FILES. n = chunk_file (rc_start_slot chunk) (rc_end_slot chunk) x)"
proof -
  have "set FILES \<subseteq> set FILES" by simp
  note names = download_files_names [OF laws dl [unfolded download_chunk_def, folded FILES_def] this]
  show "chunk_there d a e \<Longrightarrow> chunk_there d' a e"
    using conjunct1 [OF names] final_FILES unfolding chunk_there_def by blast
  show "r = Inr () \<Longrightarrow> chunk_there d' (rc_start_slot chunk) (rc_end_slot chunk)" "obj s' = obj s"
    using conjunct2 [OF names] by (simp_all add: chunk_there_def)
  show "\<not> reader_partial n \<Longrightarrow> exists_in d' n \<Longrightarrow> exists_in d n \<or>
      (\<exists>x \<in> set FILES. n = chunk_file (rc_start_slot chunk) (rc_end_slot chunk) x)"
    using conjunct1 [OF names] by blast
qed

lemma download_all_there:
  assumes laws: "get_laws get obj" and ok: "gets_succeed get obj" and att: "r_retry_attempts cfg \<noteq> 0"
  shows "download_all (\<lambda>_. False) get now cfg cs (nvme, s) = (n, nvme', s') \<Longrightarrow>
    chunk_there (dir_of nvme st) a e \<or>
      (\<exists>c \<in> set cs. rc_stream c = st \<and> rc_start_slot c = a \<and> rc_end_slot c = e) \<and> in_bucket obj s st a e (set FILES) \<Longrightarrow>
    chunk_there (dir_of nvme' st) a e"
proof (induction cs arbitrary: nvme s n)
  case (Cons c cs)
  obtain r d1 s1 where dl: "download_chunk (\<lambda>_. False) get now cfg c (dir_of nvme (rc_stream c), s) = (r, d1, s1)" by (metis surj_pair)
  obtain n1 w1 where rec: "download_all (\<lambda>_. False) get now cfg cs (nvme(rc_stream c := Some d1), s1) = (n1, w1)" by (metis surj_pair)
  have w1: "w1 = (nvme', s')" using Cons.prems(1) dl rec by (simp add: dir_of_def)
  note there = download_chunk_there [OF laws dl]
  let ?nv = "nvme(rc_stream c := Some d1)"
  have kept: "chunk_there (dir_of ?nv st) a e" if "chunk_there (dir_of nvme st) a e"
    using there(1) that by (auto simp: dir_of_update)
  have new: "chunk_there (dir_of ?nv st) a e"
    if k: "rc_stream c = st" "rc_start_slot c = a" "rc_end_slot c = e" and b: "in_bucket obj s st a e (set FILES)"
  proof -
    have "\<forall>x \<in> set FILES. obj s (object_key (rc_stream c) (rc_start_slot c) (rc_end_slot c) x) \<noteq> None"
      using b k by (simp add: in_bucket_def)
    from download_files_succeed [OF laws ok att this, of now "dir_of nvme (rc_stream c)"] have "r = Inr ()"
      using dl by (auto simp: download_chunk_def FILES_def)
    from there(2) [OF this] k show ?thesis by (simp add: dir_of_update)
  qed
  have "chunk_there (dir_of ?nv st) a e \<or>
      (\<exists>c \<in> set cs. rc_stream c = st \<and> rc_start_slot c = a \<and> rc_end_slot c = e) \<and> in_bucket obj s1 st a e (set FILES)"
    using Cons.prems(2) kept new there(3) by (auto simp: in_bucket_def)
  from Cons.IH [OF rec [unfolded w1] this] show ?case .
qed simp

text \<open>The local chunks after the downloads: those that were there, and those that were listed.\<close>

lemma local_after_downloads:
  "get_laws get obj \<Longrightarrow> download_all fails get now cfg cs (nvme, s) = (n, nvme', s') \<Longrightarrow> k \<in> set (local_chunks nvme') \<Longrightarrow>
   k \<in> set (local_chunks nvme) \<union> key_of_remote ` set cs"
proof (induction cs arbitrary: nvme s n)
  case (Cons c cs)
  obtain r d1 s1 where dl: "download_chunk fails get now cfg c (dir_of nvme (rc_stream c), s) = (r, d1, s1)" by (metis surj_pair)
  obtain n1 w1 where rec: "download_all fails get now cfg cs (nvme(rc_stream c := Some d1), s1) = (n1, w1)" by (metis surj_pair)
  have w1: "w1 = (nvme', s')" using Cons.prems(2) dl rec by (simp add: dir_of_def)
  let ?nv = "nvme(rc_stream c := Some d1)"
  have "k \<in> set (local_chunks nvme) \<or> k = key_of_remote c" if k: "k \<in> set (local_chunks ?nv)"
  proof -
    from k obtain d m where m: "?nv (ck3_stream k) = Some d" "exists_in d m" "parse_meta_name m = Some (ck3_start k, ck3_end k)"
      by (auto simp: in_local_chunks)
    note np = meta_name_final [OF m(3)]
    have "exists_in (dir_of nvme (ck3_stream k)) m \<or>
        ck3_stream k = rc_stream c \<and> (\<exists>x \<in> set FILES. m = chunk_file (rc_start_slot c) (rc_end_slot c) x)"
      using m(1,2) download_chunk_there(4) [OF Cons.prems(1) dl np] by (auto simp: dir_of_def split: if_splits)
    then show ?thesis
    proof
      assume "exists_in (dir_of nvme (ck3_stream k)) m"
      then show ?thesis using m(3) by (cases "nvme (ck3_stream k)") (auto simp: in_local_chunks dir_of_def)
    next
      assume n: "ck3_stream k = rc_stream c \<and> (\<exists>x \<in> set FILES. m = chunk_file (rc_start_slot c) (rc_end_slot c) x)"
      then obtain x where x: "m = chunk_file (rc_start_slot c) (rc_end_slot c) x" "x \<in> set FILES" by blast
      with chunk_file_meta [of "rc_start_slot c" "rc_end_slot c" x "ck3_start k" "ck3_end k"] m(3) n show ?thesis
        by (simp add: key_of_remote_def)
    qed
  qed
  with Cons.IH [OF Cons.prems(1) rec [unfolded w1] Cons.prems(3)] show ?case by (auto simp del: fun_upd_apply)
qed simp

text \<open>The sweep removes only the files of the chunks it evicts.\<close>

lemma evict_other:
  assumes "k \<noteq> \<lparr>ck3_stream = st, ck3_start = a, ck3_end = e\<rparr>"
  shows "map_of (dir_of (evict_chunk fails nvme k) st) (chunk_file a e x) = map_of (dir_of nvme st) (chunk_file a e x)"
proof (cases "nvme (ck3_stream k)")
  case None
  then show ?thesis by (simp add: evict_chunk_def)
next
  case (Some d)
  let ?rm = "\<lambda>d ext. fst (try_remove fails (chunk_file (ck3_start k) (ck3_end k) ext) d)"
  have "map_of (foldl ?rm d0 exts) (chunk_file a e x) = map_of d0 (chunk_file a e x)"
    if "ck3_start k \<noteq> a \<or> ck3_end k \<noteq> e" for d0 exts
    using that by (induction exts arbitrary: d0) (auto simp: try_remove_def)
  from this [of d "[''zst'', ''idx'', ''meta.json'']"] assms Some show ?thesis
    by (cases k) (auto simp: evict_chunk_def dir_of_def)
qed

lemma sweep_keeps:
  assumes "reader_sweep_retention fails hours nvme = (m, nvme')"
    and "\<lparr>ck3_stream = st, ck3_start = a, ck3_end = e\<rparr> \<notin> set (expired_chunks hours (local_chunks nvme))"
  shows "map_of (dir_of nvme' st) (chunk_file a e x) = map_of (dir_of nvme st) (chunk_file a e x)"
proof -
  have "\<lparr>ck3_stream = st, ck3_start = a, ck3_end = e\<rparr> \<notin> set ks \<Longrightarrow>
      map_of (dir_of (foldl (evict_chunk fails) nv ks) st) (chunk_file a e x) = map_of (dir_of nv st) (chunk_file a e x)" for ks nv
  proof (induction ks arbitrary: nv)
    case (Cons k ks)
    then have "k \<noteq> \<lparr>ck3_stream = st, ck3_start = a, ck3_end = e\<rparr>" by auto
    from evict_other [OF this] Cons show ?case by simp
  qed simp
  with assms show ?thesis by (auto simp: reader_sweep_retention_def Let_def)
qed

lemma newest_end_le: "\<forall>x \<in> set xs. x \<le> b \<Longrightarrow> newest_end xs \<le> b"
  by (auto simp: newest_end_def max_opt_Max)

definition window_start :: "u64 \<Rightarrow> chunk_key list \<Rightarrow> r2_chunk list \<Rightarrow> u64" where
  "window_start hours local remote =
     sat_sub (max (newest_end (map ck3_end local)) (newest_end (map rc_end_slot remote))) (retention_slots hours)"

text \<open>One cycle of the syncer brings a chunk of the bucket that is within the retention to the disk.\<close>

lemma local_chunks_le:
  assumes "store_le nvme' nvme" and "k \<in> set (local_chunks nvme')"
  shows "k \<in> set (local_chunks nvme)"
proof -
  from assms(2) obtain d n where n: "nvme' (ck3_stream k) = Some d" "exists_in d n" "parse_meta_name n = Some (ck3_start k, ck3_end k)"
    by (auto simp: in_local_chunks)
  then have "exists_in (dir_of nvme (ck3_stream k)) n" using assms(1) by (fastforce simp: store_le_def dir_of_def exists_in_def)
  with n(3) show ?thesis by (cases "nvme (ck3_stream k)") (auto simp: in_local_chunks dir_of_def)
qed

lemma cycle_downloads:
  assumes laws: "get_laws get obj" and ok: "gets_succeed get obj" and att: "r_retry_attempts cfg \<noteq> 0"
    and l: "list_r2 (sy_net y) = (Inr remote, s)" "obj s = obj (sy_net y)"
    and c: "c \<in> set remote" "rc_stream c = st" "rc_start_slot c = a" "rc_end_slot c = e"
    and window: "window_start (r_local_retention_hours cfg) (local_chunks (sy_store y)) remote \<le> e"
    and new: "key_of_remote c \<notin> set (local_chunks (sy_store y))"
    and has: "bucket_has obj (sy_net y) st a e F" and part: "part_of (dir_of (sy_store y) st) a e F"
  shows "disk_has (dir_of (sy_store (syncer_cycle parse_meta (\<lambda>_. False) (Some (list_r2, get)) now cfg y)) st) a e F"
    and "k \<in> set (local_chunks (sy_store (syncer_cycle parse_meta (\<lambda>_. False) (Some (list_r2, get)) now cfg y))) \<Longrightarrow>
      k \<in> set (local_chunks (sy_store y)) \<union> key_of_remote ` set remote"
proof -
  let ?local = "local_chunks (sy_store y)" and ?hours = "r_local_retention_hours cfg"
  let ?dl = "diff_for_sync ?local remote ?hours"
  let ?newest = "max (newest_end (map ck3_end ?local)) (newest_end (map rc_end_slot remote))"
  obtain n nvme s' where dl: "download_all (\<lambda>_. False) get now cfg ?dl (sy_store y, s) = (n, nvme, s')" by (metis surj_pair)
  obtain m nvme' where sw: "reader_sweep_retention (\<lambda>_. False) ?hours nvme = (m, nvme')" by fastforce
  have store: "sy_store (syncer_cycle parse_meta (\<lambda>_. False) (Some (list_r2, get)) now cfg y) = nvme'"
    using l(1) dl sw by (simp add: syncer_cycle_def Let_def republish_catalog_def)
  have bp: "bucket_part obj s st a e F" and ib: "in_bucket obj s st a e (set FILES)"
    using has l(2) by (simp_all add: bucket_has_part bucket_part_def in_bucket_def)
  have "sat_sub (newest_end (map rc_end_slot remote)) (retention_slots ?hours) \<le> e"
    using window sat_sub_mono [of "newest_end (map rc_end_slot remote)" ?newest "retention_slots ?hours"]
    unfolding window_start_def by (rule order_trans [rotated]) simp
  then have "c \<in> set ?dl" using c new by (simp add: set_diff_for_sync)
  with c ib have "chunk_there (dir_of nvme st) a e" by (intro download_all_there [OF laws ok att dl]) blast
  moreover have "part_of (dir_of nvme st) a e F" by (rule download_all_part [OF laws dl part bp])
  ultimately have disk: "disk_has (dir_of nvme st) a e F" by (rule there_has [rotated])
  have "ck3_end k \<le> ?newest" if "k \<in> set (local_chunks nvme)" for k
    using local_after_downloads [OF laws dl that]
  proof (rule UnE)
    assume "k \<in> set ?local"
    then have "ck3_end k \<le> newest_end (map ck3_end ?local)" by (intro newest_end_ge) simp
    then show ?thesis by (rule max.coboundedI1)
  next
    assume "k \<in> key_of_remote ` set ?dl"
    then have "ck3_end k \<le> newest_end (map rc_end_slot remote)"
      by (intro newest_end_ge) (auto simp: set_diff_for_sync key_of_remote_def)
    then show ?thesis by (rule max.coboundedI2)
  qed
  then have "newest_end (map ck3_end (local_chunks nvme)) \<le> ?newest" by (intro newest_end_le) simp
  from order_trans [OF sat_sub_mono [OF this] window [unfolded window_start_def]]
  have "\<lparr>ck3_stream = st, ck3_start = a, ck3_end = e\<rparr> \<notin> set (expired_chunks ?hours (local_chunks nvme))"
    by (simp add: set_expired not_less)
  from sweep_keeps [OF sw this]
  show "disk_has (dir_of (sy_store (syncer_cycle parse_meta (\<lambda>_. False) (Some (list_r2, get)) now cfg y)) st) a e F"
    unfolding store by (intro disk_has_same [OF disk]) blast
  assume "k \<in> set (local_chunks (sy_store (syncer_cycle parse_meta (\<lambda>_. False) (Some (list_r2, get)) now cfg y)))"
  then have "k \<in> set (local_chunks nvme)" unfolding store by (rule local_chunks_le [OF reader_sweep_le [OF sw]])
  from local_after_downloads [OF laws dl this] show "k \<in> set ?local \<union> key_of_remote ` set remote"
    by (auto simp: set_diff_for_sync)
qed

section \<open>One healthy cycle each\<close>

definition after_upload :: "'bm writer_env \<Rightarrow> 's writer_setup \<Rightarrow> nat \<Rightarrow> (fs_op \<Rightarrow> bool) \<Rightarrow> ('s, 'bm) system \<Rightarrow> ('s, 'bm) system" where
  "after_upload E P now fails X = X\<lparr>sys_writer := writer_event E P (UploaderWakes now fails) (sys_writer X)\<rparr>"

definition after_sync :: "(bytes \<Rightarrow> chunk_meta option) \<Rightarrow>
    (('s \<Rightarrow> (list_error + r2_chunk list) \<times> 's) \<times> 's get_object) option \<Rightarrow> settings \<Rightarrow> nat
    \<Rightarrow> ('s, 'bm) system \<Rightarrow> ('s, 'bm) system" where
  "after_sync parse_meta r2 cfg now X =
     (let p = net_to (wr_net (sys_writer X)) (sys_reader X);
          y = syncer_cycle parse_meta (\<lambda>_. False) r2 now (s_reader cfg) (rd_syncer p)
      in X\<lparr>sys_writer := (sys_writer X)\<lparr>wr_net := sy_net y\<rparr>,
           sys_reader := p\<lparr>rd_syncer := y, rd_service := (rd_service p)\<lparr>sv_catalog := sy_catalog y\<rparr>\<rparr>\<rparr>)"

definition syncing :: "'s reader \<Rightarrow> bool" where
  "syncing p \<longleftrightarrow> running p \<and> rd_sync_phase p = Cycling \<and> \<not> rd_sync_shutdown p"

lemma after_upload_step: "system_step E P parse_meta r2 cfg X (after_upload E P now fails X)"
  unfolding after_upload_def by (rule sys_writes)

lemma after_sync_reader_step:
  assumes "syncing (sys_reader X)"
  shows "reader_step parse_meta r2 (s_reader cfg) (net_to (wr_net (sys_writer X)) (sys_reader X))
    (sys_reader (after_sync parse_meta r2 cfg now X))"
proof -
  have "syncing (net_to (wr_net (sys_writer X)) (sys_reader X))" using assms by (simp add: syncing_def net_to_def running_def)
  then show ?thesis unfolding after_sync_def Let_def syncing_def
    by (simp add: rd_cycle [OF _ _ _ refl])
qed

lemma after_sync_step:
  assumes "syncing (sys_reader X)"
  shows "system_step E P parse_meta r2 cfg X (after_sync parse_meta r2 cfg now X)"
proof -
  have "after_sync parse_meta r2 cfg now X = X\<lparr>sys_writer := (sys_writer X)\<lparr>wr_net := sy_net (rd_syncer (sys_reader (after_sync parse_meta r2 cfg now X)))\<rparr>,
      sys_reader := sys_reader (after_sync parse_meta r2 cfg now X)\<rparr>"
    by (simp add: after_sync_def Let_def)
  with sys_reads [OF after_sync_reader_step [OF assms]] show ?thesis by metis
qed

text \<open>An upload brings back no file of a chunk, and a cycle of the syncer does not touch the writer.\<close>

lemma after_upload_gone:
  assumes net: "network_ok P r2 obj" and ok: "system_ok obj E parse_meta cfg X"
  shows "stays_gone (writer_dir X st) (writer_dir (after_upload E P now fails X) st) a e"
proof -
  let ?w = "sys_writer X"
  obtain nvme s where cyc: "snd (uploader_cycle fails (ws_put P) now (ws_uploader P) (wr_store ?w, wr_net ?w)) = (nvme, s)" by fastforce
  then have dir: "writer_dir (after_upload E P now fails X) st = dir_of nvme st"
    by (simp add: after_upload_def writer_event_def writer_dir_def)
  have inv: "uploader_inv obj (wr_store ?w, wr_net ?w)" and names: "\<forall>st d. wr_store ?w st = Some d \<longrightarrow> chunk_names d"
    using ok by (simp_all add: system_ok_def writer_ok_def)
  have "put_laws put obj" if "ws_put P = Some put" for put using network_okD(1) [OF net] that by blast
  from cycle_safe(1) [OF this inv names cyc] show ?thesis
    unfolding dir by (fastforce simp: stays_gone_def markers_only_def writer_dir_def FILES_def)
qed

lemma after_sync_gone: "stays_gone (writer_dir X st) (writer_dir (after_sync parse_meta r2 cfg now X) st) a e"
proof -
  have "writer_dir (after_sync parse_meta r2 cfg now X) st = writer_dir X st"
    by (simp add: after_sync_def Let_def writer_dir_def)
  then show ?thesis by simp
qed

text \<open>From the disk of the writer to that of the reader.\<close>

lemma healthy_cycles:
  fixes X :: "('s, 'bm) system"
  assumes X1_def: "X1 = after_upload E P now1 fails X"
    and X2_def: "X2 = after_sync parse_meta (Some (list_r2, get)) cfg now2 X1"
    and ok: "system_ok obj E parse_meta cfg X" and sync: "syncing (sys_reader X)"
    and put: "ws_put P = Some put" "put_laws put obj" "puts_succeed put" "u_retry_attempts (ws_uploader P) \<noteq> 0"
    and get: "list_laws list_r2 obj" "get_laws get obj" "gets_succeed get obj" "r_retry_attempts (s_reader cfg) \<noteq> 0"
    and w: "disk_has (writer_dir X st) a e F" "\<not> exists_in (writer_dir X st) (chunk_file a e ''uploaded'')"
    and ag: "agreed obj X st a e F"
    and l: "list_r2 (wr_net (sys_writer X1)) = (Inr remote, s)" "length remote < 2 ^ 32"
    and c: "c \<in> set remote" "rc_stream c = st" "rc_start_slot c = a" "rc_end_slot c = e"
    and window: "window_start (r_local_retention_hours (s_reader cfg)) (local_chunks (sy_store (rd_syncer (sys_reader X)))) remote \<le> e"
    and new: "key_of_remote c \<notin> set (local_chunks (sy_store (rd_syncer (sys_reader X))))"
  shows "disk_has (reader_dir X2 st) a e F"
    and "served_catalog X2 = scan parse_meta (sy_store (rd_syncer (sys_reader X2)))"
    and "store_good (sy_store (rd_syncer (sys_reader X2)))"
    and "k \<in> set (local_chunks (sy_store (rd_syncer (sys_reader X2)))) \<Longrightarrow>
      k \<in> set (local_chunks (sy_store (rd_syncer (sys_reader X)))) \<union> key_of_remote ` set remote"
proof -
  let ?w = "sys_writer X" and ?y = "(rd_syncer (sys_reader X))\<lparr>sy_net := wr_net (sys_writer X1)\<rparr>"
  have wok: "writer_ok obj E ?w" using ok by (simp add: system_ok_def)
  obtain d where d: "wr_store ?w st = Some d" "writer_dir X st = d"
    using w(1) by (cases "wr_store ?w st") (auto simp: writer_dir_def dir_of_def disk_has_def FILES_def)
  have inv: "uploader_inv obj (wr_store ?w, wr_net ?w)" and names: "\<forall>st d. wr_store ?w st = Some d \<longrightarrow> chunk_names d"
    using wok by (simp_all add: writer_ok_def)
  obtain nvme s1 where cyc: "snd (uploader_cycle fails (Some put) now1 (ws_uploader P) (wr_store ?w, wr_net ?w)) = (nvme, s1)" by fastforce
  then have s1: "wr_net (sys_writer X1) = s1" by (simp add: X1_def after_upload_def writer_event_def put(1))
  have has: "bucket_has obj s1 st a e F"
    using cycle_uploads [OF put(2-4) inv names d(1) _ _ cyc] w d(2) by simp
  have R: "sys_reader X1 = sys_reader X" by (simp add: X1_def after_upload_def)
  have y: "rd_syncer (sys_reader X2) = syncer_cycle parse_meta (\<lambda>_. False) (Some (list_r2, get)) now2 (s_reader cfg) ?y"
    by (simp add: X2_def after_sync_def Let_def net_to_def R)
  have "obj s = obj (sy_net ?y)" using get(1) l(1) by (simp add: list_laws_def) (metis snd_conv)
  moreover have "part_of (dir_of (sy_store ?y) st) a e F" using ag by (simp add: agreed_def reader_dir_def)
  moreover have "bucket_has obj (sy_net ?y) st a e F" using has s1 by simp
  moreover have "list_r2 (sy_net ?y) = (Inr remote, s)" using l(1) by simp
  ultimately show "disk_has (reader_dir X2 st) a e F"
    and "k \<in> set (local_chunks (sy_store (rd_syncer (sys_reader X2)))) \<Longrightarrow>
      k \<in> set (local_chunks (sy_store (rd_syncer (sys_reader X)))) \<union> key_of_remote ` set remote"
    using cycle_downloads [where y = ?y and parse_meta = parse_meta and now = now2, OF get(2-4) _ _ c] window new
    unfolding reader_dir_def y by simp_all
  have "fresh parse_meta ?y" "few (sys_reader X)" using ok by (simp_all add: system_ok_def reader_inv_def fresh_def)
  then have "fresh parse_meta (rd_syncer (sys_reader X2))"
    unfolding y using l by (intro cycle_fresh) (auto simp: few_def)
  moreover have "sv_catalog (rd_service (sys_reader X2)) = sy_catalog (rd_syncer (sys_reader X2))"
    by (simp add: X2_def after_sync_def Let_def)
  ultimately show "served_catalog X2 = scan parse_meta (sy_store (rd_syncer (sys_reader X2)))"
    by (simp add: served_catalog_def fresh_def)
  have "syncing (sys_reader X1)" using sync R by simp
  from reader_step_good [OF after_sync_reader_step [OF this]] ok
  show "store_good (sy_store (rd_syncer (sys_reader X2)))" by (simp add: X2_def R net_to_def system_ok_def)
qed

end
