(* ===== verification/Served.thy ===== *)
theory Served
  imports Progress Chunker Delivery
begin

text \<open>
  What the writer seals is what the reader reads: the three files of a sealed chunk, read by the
  scan, the decoder and the index reader of the reader, give the entry and the messages of the chunk.
\<close>

section \<open>From the writer to the reader\<close>

text \<open>
  The packages of the writer and of the reader undo each other: the same bitmaps, MessagePack,
  zstd and JSON.
\<close>

definition counterparts :: "'bm writer_env \<Rightarrow> 'bm reader_env \<Rightarrow> (bytes \<Rightarrow> chunk_meta option) \<Rightarrow> bool" where
  "counterparts W E parse_meta \<longleftrightarrow>
     env_roaring W = re_roaring E \<and> roaring_ok (re_roaring E) \<and> rmp_ok (env_rmp W) (re_unrmp E) \<and>
     (\<forall>x. re_unzstd E (env_zstd W x) = Some x) \<and> (\<forall>m b. env_json W m = Some b \<longrightarrow> parse_meta b = Some m)"

text \<open>The three files of a chunk, as they were written.\<close>

definition same_files :: "'bm open_chunk \<Rightarrow> dir \<Rightarrow> dir \<Rightarrow> bool" where
  "same_files oc d d' \<longleftrightarrow>
     (\<forall>n \<in> {final_zst oc, final_idx oc, final_meta oc}.
        map_option content (map_of d n) = map_option content (map_of d' n))"

lemma content_map_of:
  assumes "map_option content (map_of d n) = map_option content (map_of d' n)" and "map_of d' n = Some f"
  shows "\<exists>g. map_of d n = Some g \<and> content g = content f"
  using assms by (cases "map_of d n") auto

text \<open>The entry of a sealed chunk in a catalog.\<close>

definition sealed_entry :: "'bm writer_env \<Rightarrow> stream \<Rightarrow> string \<Rightarrow> 'bm open_chunk \<Rightarrow> chunk_entry" where
  "sealed_entry W st reason oc =
     \<lparr>ce_stream = st, ce_start_slot = oc_start_slot oc, ce_end_slot_exclusive = oc_end_slot_exclusive oc,
      zst_path = final_zst oc, idx_path = final_idx oc, meta_path = final_meta oc,
      zst_len = of_nat (length (env_zstd W (oc_written oc))), ce_meta = meta_of W st reason oc\<rparr>"

lemma chunk_file_base:
  "chunk_file s e ''zst'' = stem s e @ ''.zst''" "chunk_file s e ''idx'' = stem s e @ ''.idx''"
  "chunk_file s e ''meta.json'' = stem s e @ ''.meta.json''"
  by (simp_all add: chunk_file_def)

lemma sealed_visible:
  assumes cp: "counterparts W E parse_meta" and named: "oc_named oc"
    and sealed: "sealed_as W st reason oc now d'" and same: "same_files oc dr d'"
  shows "visible parse_meta st dr (sealed_entry W st reason oc)"
proof -
  let ?s = "oc_start_slot oc" and ?e = "oc_end_slot_exclusive oc"
  let ?b = "stem ?s ?e"
  have names: "final_zst oc = ?b @ ''.zst''" "final_idx oc = ?b @ ''.idx''" "final_meta oc = ?b @ ''.meta.json''"
    using named by (simp_all add: oc_named_def Let_def chunk_file_base)
  from sealed obtain meta_json idx_bytes where d':
    "map_of d' (final_zst oc) = Some \<lparr>content = env_zstd W (oc_written oc), mtime = now\<rparr>"
    "map_of d' (final_idx oc) = Some \<lparr>content = idx_bytes, mtime = now\<rparr>"
    "env_json W (meta_of W st reason oc) = Some meta_json"
    "map_of d' (final_meta oc) = Some \<lparr>content = meta_json, mtime = now\<rparr>"
    by (auto simp: sealed_as_def)
  have s: "map_option content (map_of dr n) = map_option content (map_of d' n)"
    if "n \<in> {final_zst oc, final_idx oc, final_meta oc}" for n
    using same that by (simp only: same_files_def)
  obtain zf where zf: "map_of dr (final_zst oc) = Some zf" "content zf = env_zstd W (oc_written oc)"
    using content_map_of [OF s d'(1)] by auto
  obtain xf where xf: "map_of dr (final_idx oc) = Some xf"
    using content_map_of [OF s d'(2)] by auto
  obtain mf where mf: "map_of dr (final_meta oc) = Some mf" "content mf = meta_json"
    using content_map_of [OF s d'(4)] by auto
  have parse: "parse_meta (content mf) = Some (meta_of W st reason oc)"
    using cp d'(3) mf(2) by (simp add: counterparts_def)
  have pn: "parse_meta_name (?b @ ''.meta.json'') = Some (?s, ?e)"
    unfolding chunk_file_base(3) [symmetric] by simp
  have "(?b @ ''.meta.json'', mf) \<in> set dr" using map_of_SomeD [OF mf(1)] by (simp only: names)
  moreover have "exists_in dr (?b @ ''.idx'')" using xf by (simp add: exists_in_def names)
  moreover have "schema_version (meta_of W st reason oc) = SCHEMA_VERSION" by (simp add: meta_of_def)
  ultimately show ?thesis
    unfolding visible_def using zf parse pn names
    by (intro exI [of _ ?b] exI [of _ mf] exI [of _ zf] exI [of _ "meta_of W st reason oc"])
      (simp add: sealed_entry_def)
qed

lemma sealed_holds:
  assumes cp: "counterparts W E parse_meta" and oh: "oc_holds W st oc ms"
    and sealed: "sealed_as W st reason oc now d'" and same: "same_files oc dr d'"
    and n: "length ms < 2 ^ 32"
    and msgs: "\<forall>(m, _) \<in> set ms. re_decode E (env_encode W (inner m)) = Some (inner m) \<and> length (env_encode W (inner m)) < 2 ^ 32"
    and fits: "header_fits (env_rmp W) (idx_header_of (env_roaring W) (oc_index oc) (oc_start_slot oc)
      (oc_end_slot_exclusive oc) (oc_message_count oc))"
    and len: "\<forall>f. map_of d' (final_idx oc) = Some f \<longrightarrow> length (content f) < 2 ^ 64"
    and files: "\<forall>n. re_file E st n = map_option content (map_of dr n)"
  shows "holds E st (sealed_entry W st reason oc) (map (inner \<circ> fst) ms)"
proof -
  let ?ms = "map (inner \<circ> fst) ms" and ?ps = "map (\<lambda>(m, _). env_encode W (inner m)) ms"
  from sealed obtain idx_bytes where d':
    "map_of d' (final_zst oc) = Some \<lparr>content = env_zstd W (oc_written oc), mtime = now\<rparr>"
    "serialize (env_roaring W) (env_rmp W) (oc_index oc) (oc_start_slot oc) (oc_end_slot_exclusive oc)
       (oc_message_count oc) = Inr idx_bytes"
    "map_of d' (final_idx oc) = Some \<lparr>content = idx_bytes, mtime = now\<rparr>"
    by (auto simp: sealed_as_def)
  have zst: "re_file E st (final_zst oc) = Some (env_zstd W (oc_written oc))"
    and idx: "re_file E st (final_idx oc) = Some idx_bytes"
    using files same d'(1,3) by (simp_all add: same_files_def)
  have written: "oc_written oc = concat (map frame_bytes ?ps)"
    using oh by (simp add: oc_holds_def o_def case_prod_unfold)
  have small: "\<forall>p \<in> set ?ps. length p < 2 ^ 32" using msgs by auto
  let ?d = "\<lparr>raw = concat (map frame_bytes ?ps), frames = ranges_from 0 ?ps\<rparr>"
  have d: "decode_chunk (re_unzstd E) (Some (env_zstd W (oc_written oc))) = Inr ?d"
    using cp small written by (intro decode_chunk_frames) (simp_all add: counterparts_def)
  have dm: "decode_message (re_decode E) ?d (of_nat i) = Inr (?ms ! i)" if "i < length ?ms" for i
  proof -
    have u: "unat (of_nat i :: u32) = i" using that n by (simp add: unat_of_nat take_bit_nat_eq_self)
    have "ms ! i \<in> set ms" using that by simp
    with msgs have "re_decode E (env_encode W (inner (fst (ms ! i)))) = Some (inner (fst (ms ! i)))" by auto
    moreover have "dc_frame ?d (of_nat i) = Some (env_encode W (inner (fst (ms ! i))))"
      unfolding dc_frame_ranges using that u by (simp add: case_prod_unfold)
    ultimately show ?thesis using that unfolding decode_message_def by (simp only:) simp
  qed
  have ix: "oc_index oc = observe_all (env_roaring W) (for_stream st) 0 ?ms"
    "oc_message_count oc = of_nat (length ?ms)"
    using oh by (simp_all add: oc_holds_def)
  have R: "roaring_ok (env_roaring W)" "env_roaring W = re_roaring E" "rmp_ok (env_rmp W) (re_unrmp E)"
    using cp by (simp_all add: counterparts_def)
  have "length idx_bytes < 2 ^ 64" using len d'(3) by simp
  from index_reads_serialized [OF R(1,3) _ fits [unfolded ix] d'(2) [unfolded ix] this] n
  obtain ci where "parse_chunk_index (re_unrmp E) (Some idx_bytes) = Inr ci" "index_reads (re_roaring E) st ?ms ci"
    by (auto simp: R(2))
  with zst idx d dm n show ?thesis
    unfolding holds_def by (auto simp: sealed_entry_def parsed_index_def)
qed

section \<open>A sealed chunk in the catalog\<close>

text \<open>What the writer sealed the reader serves. Let a seal of a chunk that holds the messages \<open>ms\<close>
  report no error, and let the three files reach the reader as they are (through the bucket, under the
  same names), where no other chunk claims the same start slot. Then the catalog of the reader shows
  the chunk under its start slot, with its range and metadata, and the chunk and its index hold exactly
  these messages, in order, which is what \<open>subscriber_receives_exactly\<close> asks of a catalog. The
  packages of both sides undo each other, and the sizes fit their fields.\<close>

theorem sealed_chunk_is_served:
  assumes "chunker_inv W c" and "map_of (open_chunks c) idx = Some oc" and "oc_holds W (ch_stream c) oc ms"
    and "seal_chunk W now idx reason (c, d) = ((c', d'), None)"
    and "counterparts W E parse_meta"
    and "length ms < 2 ^ 32"
    and "\<forall>(m, _) \<in> set ms. re_decode E (env_encode W (inner m)) = Some (inner m) \<and>
      length (env_encode W (inner m)) < 2 ^ 32"
    and "header_fits (env_rmp W) (idx_header_of (env_roaring W) (oc_index oc) (oc_start_slot oc)
      (oc_end_slot_exclusive oc) (oc_message_count oc))"
    and "\<forall>f. map_of d' (final_idx oc) = Some f \<longrightarrow> length (content f) < 2 ^ 64"
    and "nvme (ch_stream c) = Some dr" and "distinct (map fst dr)"
    and "\<forall>n \<in> {final_zst oc, final_idx oc, final_meta oc}.
      map_option content (map_of dr n) = map_option content (map_of d' n)"
    and "\<forall>n. re_file E (ch_stream c) n = map_option content (map_of dr n)"
    and "\<forall>e. visible parse_meta (ch_stream c) dr e \<and> ce_start_slot e = oc_start_slot oc \<longrightarrow> meta_path e = final_meta oc"
  shows "\<exists>e. catalog_get (scan parse_meta nvme) (ch_stream c) (oc_start_slot oc) = Some e \<and>
    ce_end_slot_exclusive e = oc_end_slot_exclusive oc \<and> ce_meta e = meta_of W (ch_stream c) reason oc \<and>
    holds E (ch_stream c) e (map (inner \<circ> fst) ms)"
proof -
  let ?st = "ch_stream c" and ?e = "sealed_entry W (ch_stream c) reason oc"
  have sealed: "sealed_as W ?st reason oc now d'" using seal_chunk_sealed [OF assms(1,2,4)] .
  have named: "oc_named oc"
    using assms(1) map_of_SomeD [OF assms(2)] by (auto simp: chunker_inv_def chunk_ok_def Let_def)
  have same: "same_files oc dr d'" unfolding same_files_def by (rule assms(12))
  have vis: "visible parse_meta ?st dr ?e" using sealed_visible [OF assms(5) named sealed same] .
  have start: "ce_start_slot ?e = oc_start_slot oc" by (simp add: sealed_entry_def)
  from catalog_get_visible [where parse_meta = parse_meta and nvme = nvme and st = ?st and s = "oc_start_slot oc"] vis start obtain e where
    get: "catalog_get (scan parse_meta nvme) ?st (oc_start_slot oc) = Some e"
    and e: "visible parse_meta ?st dr e" "ce_start_slot e = oc_start_slot oc"
    by (auto simp: assms(10) split: option.splits)
  have "meta_path e = meta_path ?e" using assms(14) e by (simp add: sealed_entry_def)
  from visible_unique [OF e(1) vis this assms(11)] have "e = ?e" .
  moreover have "holds E ?st ?e (map (inner \<circ> fst) ms)"
    using sealed_holds [OF assms(5,3) sealed same assms(6-9,13)] .
  ultimately show ?thesis using get by (intro exI [of _ e]) (simp add: sealed_entry_def)
qed

definition served_chunk :: "u32 list open_chunk" where
  "served_chunk = (open_chunk_of Block 7 40 50)\<lparr>oc_written := frame_bytes [3], oc_message_count := 1,
     oc_uncompressed_bytes := of_nat (length (frame_bytes [3])), oc_first_message_slot := Some 42,
     oc_last_message_slot := Some 42, oc_recv_ns_first := Some 142, oc_recv_ns_last := Some 142,
     oc_index := observe_all list_roaring (for_stream Block) 0 [inner (example_msg 42)]\<rparr>"

definition served_header :: idx_header where
  "served_header = idx_header_of list_roaring (oc_index served_chunk) 40 50 1"

definition served_writer :: "u32 list writer_env" where
  "served_writer = example_env\<lparr>env_rmp := one_header served_header,
     env_json := (\<lambda>m. if m = meta_of example_env Block ''shutdown'' served_chunk then Some [2] else None)\<rparr>"

definition served_chunker :: "u32 list chunker" where
  "served_chunker = (chunker_new Block example_writer)\<lparr>open_chunks := [(4, served_chunk)]\<rparr>"

definition served_parse :: "bytes \<Rightarrow> chunk_meta option" where
  "served_parse b = Some (meta_of example_env Block ''shutdown'' served_chunk)"

definition served_reader :: "dir \<Rightarrow> u32 list reader_env" where
  "served_reader d = toy_env\<lparr>re_unrmp := one_unheader served_header, re_unzstd := (\<lambda>b. Some (rev b)),
     re_decode := (\<lambda>_. Some (inner (example_msg 42))), re_file := (\<lambda>_ n. map_option content (map_of d n))\<rparr>"

lemma served_chunk_holds: "oc_holds served_writer Block served_chunk [(example_msg 42, 42)]"
  by (simp add: oc_holds_def served_chunk_def served_writer_def example_env_def example_msg_def min_opt_def max_opt_def)

lemma served_chunker_inv: "chunker_inv served_writer served_chunker"
proof -
  have "oc_named served_chunk" by (simp add: oc_named_def served_chunk_def open_chunk_of_def)
  moreover have "\<exists>ms. oc_holds served_writer Block served_chunk ms \<and> (\<forall>(m, slot) \<in> set ms. slot div 10 = 4)"
    using served_chunk_holds by (intro exI [of _ "[(example_msg 42, 42)]"]) simp
  ultimately show ?thesis
    by (simp add: chunker_inv_def chunk_ok_def served_chunker_def chunker_new_def example_writer_def bt_ok_def)
      (simp add: served_chunk_def open_chunk_of_def)
qed

lemma served_counterparts: "counterparts served_writer (served_reader d) served_parse"
  by (auto simp: counterparts_def served_writer_def served_reader_def example_env_def toy_env_def list_roaring_ok
      served_parse_def split: if_splits)

definition served_index :: bytes where
  "served_index = IDX_MAGIC @ [IDX_VERSION] @ u32_to_le 1 @ [1] @
     fst (serialize_dims list_roaring (oc_index served_chunk) [] (order (oc_index served_chunk)))"

definition served_dir :: dir where
  "served_dir = [(chunk_file 40 50 ''zst'', \<lparr>content = rev (frame_bytes [3]), mtime = 9\<rparr>),
     (chunk_file 40 50 ''idx'', \<lparr>content = served_index, mtime = 9\<rparr>),
     (chunk_file 40 50 ''meta.json'', \<lparr>content = [2], mtime = 9\<rparr>)]"

lemma served_seal:
  "seal_chunk served_writer 9 4 ''shutdown'' (served_chunker, [(chunk_file 40 50 ''zst.partial'', \<lparr>content = [], mtime = 7\<rparr>)])
     = ((served_chunker\<lparr>open_chunks := []\<rparr>, served_dir), None)"
proof -
  have range: "oc_start_slot served_chunk = 40" "oc_end_slot_exclusive served_chunk = 50" "oc_message_count served_chunk = 1"
    by (simp_all add: served_chunk_def open_chunk_of_def)
  have "serialize (env_roaring served_writer) (env_rmp served_writer) (oc_index served_chunk) 40 50 1 = Inr served_index"
    using serialize_one_header [of list_roaring "oc_index served_chunk" 40 50 1]
    by (simp add: served_writer_def example_env_def served_header_def served_index_def)
  moreover have "env_json served_writer (meta_of served_writer Block ''shutdown'' served_chunk) = Some [2]"
    by (simp add: meta_of_def served_writer_def)
  moreover have "env_zstd served_writer (oc_written served_chunk) = rev (frame_bytes [3])" "io_fails served_writer = (\<lambda>_. False)"
    by (simp_all add: served_writer_def example_env_def served_chunk_def)
  moreover have "oc_named served_chunk" by (simp add: oc_named_def served_chunk_def open_chunk_of_def)
  ultimately show ?thesis
    using range
    by (simp add: seal_chunk_def served_chunker_def chunker_new_def seal_ops_def oc_named_def served_dir_def Let_def
        rename_file_def create_file_def case_prod_unfold)
qed

lemma last_chunk_file: "x \<noteq> [] \<Longrightarrow> last (chunk_file s e x) = last x"
  by (simp add: chunk_file_def)

lemma served_visible: "visible parse_meta st served_dir e \<Longrightarrow> meta_path e = chunk_file 40 50 ''meta.json''"
proof -
  assume "visible parse_meta st served_dir e"
  then obtain base f where b: "(base @ ''.meta.json'', f) \<in> set served_dir" "meta_path e = base @ ''.meta.json''"
    unfolding visible_def by (metis chunk_entry.select_convs(6))
  have "last (base @ ''.meta.json'') = CHR ''n''" by simp
  moreover have "last (chunk_file 40 50 ''zst'') = CHR ''t''" "last (chunk_file 40 50 ''idx'') = CHR ''x''"
    by (simp_all add: last_chunk_file)
  ultimately have "base @ ''.meta.json'' \<noteq> chunk_file 40 50 ''zst''" "base @ ''.meta.json'' \<noteq> chunk_file 40 50 ''idx''"
    by fastforce+
  with b(1) have "base @ ''.meta.json'' = chunk_file 40 50 ''meta.json''" by (simp add: served_dir_def)
  with b(2) show ?thesis by simp
qed

lemma served_range: "oc_start_slot served_chunk = 40" "oc_end_slot_exclusive served_chunk = 50" "oc_message_count served_chunk = 1"
  "final_meta served_chunk = chunk_file 40 50 ''meta.json''" "final_idx served_chunk = chunk_file 40 50 ''idx''"
  by (simp_all add: served_chunk_def open_chunk_of_def)

lemma served_fits: "header_fits (env_rmp served_writer) (idx_header_of (env_roaring served_writer) (oc_index served_chunk)
    (oc_start_slot served_chunk) (oc_end_slot_exclusive served_chunk) (oc_message_count served_chunk))"
  unfolding served_range using one_header_fits [of served_header]
  by (simp add: served_writer_def example_env_def served_header_def)

lemma served_index_small: "\<forall>f. map_of served_dir (final_idx served_chunk) = Some f \<longrightarrow> length (content f) < 2 ^ 64"
proof -
  have "length (fst (serialize_dims list_roaring (oc_index served_chunk) [] (order (oc_index served_chunk)))) < 100"
    by (simp add: served_chunk_def example_msg_def for_stream_def observe_def observe_block_def ib_insert_def Let_def
        list_roaring_def dim_defs insort_insert_key_def resolved_keys_def)
  then have "length served_index < 110"
    unfolding served_index_def by (simp only: length_append length_u32_to_le) (simp add: IDX_MAGIC_def)
  then have "length served_index < 2 ^ 64" by (rule less_trans) simp
  then show ?thesis unfolding served_range by (simp add: served_dir_def)
qed

lemma served_streamed: "map_of (open_chunks served_chunker) 4 = Some served_chunk" "ch_stream served_chunker = Block"
  by (simp_all add: served_chunker_def chunker_new_def)

lemma sealed_chunk_is_served_witness:
  "\<exists>c' d' e. seal_chunk served_writer 9 4 ''shutdown'' (served_chunker, [(chunk_file 40 50 ''zst.partial'', \<lparr>content = [], mtime = 7\<rparr>)])
      = ((c', d'), None) \<and>
    catalog_get (scan served_parse (\<lambda>st. if st = Block then Some d' else None)) Block 40 = Some e \<and>
    holds (served_reader d') Block e [inner (example_msg 42)]"
proof -
  let ?E = "served_reader served_dir"
  have msgs: "\<forall>(m, _) \<in> set [(example_msg 42, 42 :: u64)]. re_decode ?E (env_encode served_writer (inner m)) = Some (inner m) \<and>
      length (env_encode served_writer (inner m)) < 2 ^ 32"
    by (simp add: served_reader_def served_writer_def example_env_def)
  have files: "\<forall>n. re_file ?E Block n = map_option content (map_of served_dir n)" by (simp add: served_reader_def)
  have dist: "distinct (map fst served_dir)" by (simp add: served_dir_def)
  have vis: "\<forall>e. visible served_parse Block served_dir e \<and> ce_start_slot e = oc_start_slot served_chunk \<longrightarrow>
      meta_path e = final_meta served_chunk"
    unfolding served_range using served_visible by blast
  from sealed_chunk_is_served [where nvme = "\<lambda>st. if st = Block then Some served_dir else None" and dr = served_dir,
      OF served_chunker_inv served_streamed(1) _ served_seal served_counterparts _ msgs served_fits served_index_small _ dist] served_chunk_holds files vis
  show ?thesis using served_seal by (auto simp: served_streamed(2) served_range)
qed

end
