(* ===== verification/Spec2Isabelle.thy ===== *)
theory Spec2Isabelle
  imports Lane Uploader Sync Customer Probe Startup Served
begin

text \<open>
  Sillage records the update streams of a validator and replays them. The writer subscribes to three
  streams (transactions, accounts, block metadata), cuts each into chunks of a fixed range of slots,
  seals a chunk as three files (compressed messages, bitmap index, metadata) and uploads them to a
  bucket. The reader keeps a window of the bucket on its disk, and serves subscriptions from it: it
  plans a replay from the catalog and the indexes, merges the streams by slot, paces the messages, and
  follows the catalog as new chunks arrive.

  \<^bold>\<open>The theories and the code\<close>

  Common parts. \<open>Prelude\<close>: byte strings, decimal numerals, words, lists. \<open>Common\<close>: streams, messages,
  index header and metadata (\<open>sillage-common/src/stream.rs\<close>, \<open>slot.rs\<close>, \<open>idx.rs\<close>, \<open>chunk.rs\<close>).
  \<open>Frames\<close>: length-prefixed frames (\<open>chunk.rs\<close>, \<open>DecodedChunk\<close> of \<open>sillage-reader/src/storage.rs\<close>).
  \<open>Names\<close>: file names and object keys. \<open>FileOps\<close>: the file operations of a directory with cuts and
  failures. \<open>F64\<close> and \<open>Config\<close>: rounded doubles and the settings (\<open>config.rs\<close>).

  Writer. \<open>Bitmap\<close> and \<open>WriterIndex\<close>: the interface of the bitmaps and the index builder
  (\<open>sillage-writer/src/index.rs\<close>). \<open>Chunker\<close> (\<open>chunker.rs\<close>), \<open>Lane\<close> (\<open>lane.rs\<close>), \<open>Recovery\<close>
  (\<open>recovery.rs\<close>), \<open>Retry\<close>, \<open>Bucket\<close> and \<open>Uploader\<close> (\<open>uploader.rs\<close>, \<open>r2.rs\<close>), and the request of
  the writer in \<open>Subscription\<close> (\<open>geyser.rs\<close>). \<open>Sealed\<close>: what a lane leaves alone. \<open>Writer\<close>: recovery,
  the lanes and the uploader as one process (\<open>sillage-writer/src/main.rs\<close>).

  Reader. \<open>Lru\<close> and \<open>Storage\<close>: caches and catalog (\<open>sillage-reader/src/storage.rs\<close>). \<open>ReaderIndex\<close> and
  \<open>Filters\<close> (\<open>index.rs\<close>, \<open>filter.rs\<close>). \<open>Sync\<close> (\<open>sync.rs\<close>, \<open>r2.rs\<close>). \<open>Subscription\<close>
  (\<open>subscription.rs\<close>). \<open>Pacing\<close> (\<open>pacing.rs\<close>). \<open>Planning\<close>, \<open>Cursor\<close>, \<open>Merge\<close>, \<open>Replay\<close> and
  \<open>Delivery\<close> (\<open>replay.rs\<close>). \<open>Grpc\<close> (\<open>grpc.rs\<close>). \<open>Follow\<close> and \<open>Customer\<close> (\<open>customer.rs\<close>).
  The client for tests is \<open>Probe\<close> (\<open>sillage-probe/src\<close>), from its options to its report. \<open>Processes\<close>:
  shutdown signals, the listener, the reader from its settings to its exit code and the end of the
  writer (\<open>shutdown.rs\<close>, \<open>server.rs\<close>, both \<open>main.rs\<close>). \<open>Startup\<close>: the log output, the stamps, the
  clients of the bucket, metrics and health (\<open>logging.rs\<close>, \<open>stamp.rs\<close>, \<open>r2.rs\<close>, \<open>metrics.rs\<close>,
  \<open>metrics_server.rs\<close>).

  Both sides. \<open>System\<close>: one writer process and one reader process around one bucket, as a step relation.
  \<open>Progress\<close>: what a cycle of the uploader and a cycle of the syncer achieve when no request fails.
  \<open>Served\<close>: how a reader decodes, looks up and delivers the files a seal left.

  A record of a theory is the struct of the same name, and a definition is the function of the same
  name (with a prefix where two files use one). A state that the code mutates is passed and returned.
  An error is a value of a sum; a panic is a value of its own, so that its absence is a theorem.

  \<^bold>\<open>Concurrency, time and what is outside\<close>

  What runs under one lock, or between two suspension points, is one definition; threads are
  sequences of such sections (the caches, the registry, the catalog). What a task meets while it waits
  is an argument: a list of wake-ups (\<open>Lane\<close>, \<open>Customer\<close>), an event for every message (\<open>Replay\<close>), a
  pass for every replay (\<open>Follow\<close>), an outcome for every request (\<open>Uploader\<close>, \<open>Sync\<close>), the events of a
  process in any order (\<open>Writer\<close>) or the steps of its tasks (\<open>Processes\<close>).

  Packages are parameters: the bitmaps (\<open>roaring\<close>), MessagePack, JSON, zstd, protobuf, base58, the
  object store, number parsing and the renderings of errors. What a theorem needs of them is a named
  hypothesis (\<open>roaring_ok\<close>, \<open>rmp_ok\<close>, \<open>counterparts\<close>, \<open>no_last_slot\<close>, the inverse laws of a codec), and the
  witness of the theorem gives an instance.

  Integers are words and wrap as in the release profile. Lengths of collections are natural numbers.
  Doubles are rational numbers with the rounding, the infinities and NaN written out.

  \<^bold>\<open>What is shown\<close>

  Round trips and exactness of the data: frames, index files, filters, names, catalog, range queries.
  The writer: the invariant of the open chunks and of the directory, crash safety of a seal cut
  anywhere, the contents of a sealed chunk, recovery, completeness of the bucket under any failure, and
  that only uploaded chunks are evicted; a sealed chunk is never lost nor changed before the bucket has
  had its bytes, whatever fails, crashes or restarts. The reader: exact diff, atomic downloads; a
  process that always serves the scan of its disk and stops in order; the
  caches make no difference (\<open>Lru\<close> refines an abstract cache); a plan covers what it should; the driver
  sends the merge of the streams; a subscriber receives exactly the matching messages of its range;
  a follower goes forward only and comes to an end; a session ends for the first reason it meets and
  gives its place back; admission is exact. The theorems of this file join the two sides, for a
  writer and a reader that run at the same time, fail, crash and start again: what a reader shows of the
  slots of a sealed chunk is that chunk, and its messages are the ones the lane received
  (\<open>reader_shows_only_what_was_sealed\<close>); and once both have had a cycle without failures the reader
  serves the chunk to every plan that covers it (\<open>healthy_system_serves\<close>).

  In \<open>System\<close> a step is an event of the writer (the start of a process, a lane that receives, seals or ends,
  an upload cycle, a crash, each with any of its file operations and requests failing), a cycle of the
  reader's syncer, or a new reader process. A cycle is one step; the tasks of the two processes share
  only the bucket, and the objects of a chunk there are absent or have their final bytes, so what a
  cycle may see of an unfinished upload is also a state between two steps. A run keeps to
  \<open>stays_gone\<close>: the validator does not deliver again the slots of a chunk whose files were evicted after
  their upload.

  Recursion is structural or has a measure (\<open>make_room\<close>, \<open>next_plan\<close>, \<open>peek\<close>, \<open>drive\<close>), so it is
  total; the one loop without a bound, \<open>follow\<close>, is a partial function, and \<open>follow_always_ends\<close> shows
  that it returns. No fuel is used.

  \<^bold>\<open>Not modelled\<close>

  The log lines and the counters that the code updates on its way: no decision of the program reads
  them. The clients of \<open>r2.rs\<close>, the gRPC transport, the HTTP listener and the log subscriber are modelled
  up to the calls of the packages. The tests, the examples (which print statistics of a directory with
  the same operations) and the demo are not part of the program.
\<close>

section \<open>The whole system\<close>

text \<open>
  A chunk that the writer sealed. The state of the lane holds the messages \<open>ms\<close> in the open chunk \<open>oc\<close>, its
  seal reports no error and leaves the directory \<open>d'\<close>; the packages of both sides undo each other and the
  sizes fit their fields.
\<close>

definition sealed_with :: "'bm writer_env \<Rightarrow> 'bm reader_env \<Rightarrow> (bytes \<Rightarrow> chunk_meta option) \<Rightarrow> 'bm chunker \<Rightarrow> u64
    \<Rightarrow> 'bm open_chunk \<Rightarrow> (stamped \<times> u64) list \<Rightarrow> nat \<Rightarrow> string \<Rightarrow> dir \<Rightarrow> dir \<Rightarrow> bool" where
  "sealed_with W E parse_meta c idx oc ms now reason d d' \<longleftrightarrow>
     chunker_inv W c \<and> map_of (open_chunks c) idx = Some oc \<and> oc_holds W (ch_stream c) oc ms \<and>
     (\<exists>c'. seal_chunk W now idx reason (c, d) = ((c', d'), None)) \<and> counterparts W E parse_meta \<and>
     length ms < 2 ^ 32 \<and>
     (\<forall>(m, _) \<in> set ms. re_decode E (env_encode W (inner m)) = Some (inner m) \<and> length (env_encode W (inner m)) < 2 ^ 32) \<and>
     header_fits (env_rmp W) (idx_header_of (env_roaring W) (oc_index oc) (oc_start_slot oc)
       (oc_end_slot_exclusive oc) (oc_message_count oc)) \<and>
     (\<forall>f. map_of d' (final_idx oc) = Some f \<longrightarrow> length (content f) < 2 ^ 64)"

text \<open>The bytes of its files.\<close>

definition bytes_of :: "dir \<Rightarrow> u64 \<Rightarrow> u64 \<Rightarrow> string \<Rightarrow> bytes" where
  "bytes_of d a e x = (case map_of d (chunk_file a e x) of Some f \<Rightarrow> content f | None \<Rightarrow> [])"

lemma sealed_with_facts:
  assumes "sealed_with W E parse_meta c idx oc ms now reason d d'"
  shows "sealed_as W (ch_stream c) reason oc now d'" and "oc_named oc"
    and "disk_has d' (oc_start_slot oc) (oc_end_slot_exclusive oc) (bytes_of d' (oc_start_slot oc) (oc_end_slot_exclusive oc))"
proof -
  from assms obtain c' where c: "chunker_inv W c" "map_of (open_chunks c) idx = Some oc"
    "seal_chunk W now idx reason (c, d) = ((c', d'), None)" by (auto simp: sealed_with_def)
  show sealed: "sealed_as W (ch_stream c) reason oc now d'" using seal_chunk_sealed [OF c] .
  show named: "oc_named oc" using c(1) map_of_SomeD [OF c(2)] by (auto simp: chunker_inv_def chunk_ok_def Let_def)
  then show "disk_has d' (oc_start_slot oc) (oc_end_slot_exclusive oc) (bytes_of d' (oc_start_slot oc) (oc_end_slot_exclusive oc))"
    using sealed by (auto simp: disk_has_def FILES_def bytes_of_def sealed_as_def oc_named_def Let_def)
qed

lemma same_files_iff:
  assumes "oc_named oc"
  shows "same_files oc d d' \<longleftrightarrow> (\<forall>x \<in> set FILES.
    map_option content (map_of d (chunk_file (oc_start_slot oc) (oc_end_slot_exclusive oc) x)) =
    map_option content (map_of d' (chunk_file (oc_start_slot oc) (oc_end_slot_exclusive oc) x)))"
  using assms by (simp add: same_files_def FILES_def oc_named_def Let_def)

lemma disk_has_same_files:
  assumes "oc_named oc" and "disk_has d (oc_start_slot oc) (oc_end_slot_exclusive oc) F"
    and "disk_has d' (oc_start_slot oc) (oc_end_slot_exclusive oc) F"
  shows "same_files oc d d'"
  using assms(2,3) unfolding same_files_iff [OF assms(1)] disk_has_def by (simp del: map_option_eq_Some)

lemma same_files_disk_has:
  assumes "oc_named oc" and "same_files oc d d'" and "disk_has d' (oc_start_slot oc) (oc_end_slot_exclusive oc) F"
  shows "disk_has d (oc_start_slot oc) (oc_end_slot_exclusive oc) F"
  using assms(2,3) unfolding same_files_iff [OF assms(1)] disk_has_def by simp

lemma sealed_at_reader:
  assumes sw: "sealed_with W E parse_meta c idx oc ms now reason d d'"
    and has: "disk_has dr (oc_start_slot oc) (oc_end_slot_exclusive oc) (bytes_of d' (oc_start_slot oc) (oc_end_slot_exclusive oc))"
    and good: "dir_good dr" and vis: "visible parse_meta (ch_stream c) dr en"
    and range: "ce_start_slot en = oc_start_slot oc" "ce_end_slot_exclusive en = oc_end_slot_exclusive oc"
    and files: "\<forall>n. re_file E (ch_stream c) n = map_option content (map_of dr n)"
  shows "en = sealed_entry W (ch_stream c) reason oc \<and> holds E (ch_stream c) en (map (inner \<circ> fst) ms)"
proof -
  note f = sealed_with_facts [OF sw]
  have same: "same_files oc dr d'" by (rule disk_has_same_files [OF f(2) has f(3)])
  note sw' = sw [unfolded sealed_with_def]
  have cp: "counterparts W E parse_meta" using sw' by blast
  have "visible parse_meta (ch_stream c) dr (sealed_entry W (ch_stream c) reason oc)" by (rule sealed_visible [OF cp f(2,1) same])
  moreover have "meta_path en = meta_path (sealed_entry W (ch_stream c) reason oc)"
    using good_meta_path [OF good vis] range f(2) by (simp add: sealed_entry_def oc_named_def Let_def)
  ultimately have "en = sealed_entry W (ch_stream c) reason oc"
    using good by (intro visible_unique [OF vis]) (simp_all add: dir_good_def)
  moreover have "holds E (ch_stream c) (sealed_entry W (ch_stream c) reason oc) (map (inner \<circ> fst) ms)"
    by (rule sealed_holds [OF cp _ f(1) same _ _ _ _ files]) (use sw' in blast)+
  ultimately show ?thesis by simp
qed

text \<open>\<open>unknown\<close>: neither the bucket nor the reader has a file of the chunk.\<close>

definition unknown :: "'s objects \<Rightarrow> ('s, 'bm) system \<Rightarrow> stream \<Rightarrow> u64 \<Rightarrow> u64 \<Rightarrow> bool" where
  "unknown obj X st a e \<longleftrightarrow> (\<forall>x \<in> set FILES.
     obj (wr_net (sys_writer X)) (object_key st a e x) = None \<and> \<not> exists_in (reader_dir X st) (chunk_file a e x))"

lemma sealed_agreed:
  assumes sw: "sealed_with W E parse_meta c idx oc ms now reason d d'" and disk: "same_files oc (writer_dir X (ch_stream c)) d'"
    and unknown: "unknown obj X (ch_stream c) (oc_start_slot oc) (oc_end_slot_exclusive oc)"
  shows "disk_has (writer_dir X (ch_stream c)) (oc_start_slot oc) (oc_end_slot_exclusive oc)
      (bytes_of d' (oc_start_slot oc) (oc_end_slot_exclusive oc))"
    and "agreed obj X (ch_stream c) (oc_start_slot oc) (oc_end_slot_exclusive oc)
      (bytes_of d' (oc_start_slot oc) (oc_end_slot_exclusive oc))"
proof -
  note f = sealed_with_facts [OF sw]
  show has: "disk_has (writer_dir X (ch_stream c)) (oc_start_slot oc) (oc_end_slot_exclusive oc)
      (bytes_of d' (oc_start_slot oc) (oc_end_slot_exclusive oc))"
    by (rule same_files_disk_has [OF f(2) disk f(3)])
  from disk_has_part [OF has] unknown
  show "agreed obj X (ch_stream c) (oc_start_slot oc) (oc_end_slot_exclusive oc)
      (bytes_of d' (oc_start_slot oc) (oc_end_slot_exclusive oc))"
    by (auto simp: agreed_def bucket_part_def unknown_def part_of_def exists_in_def)
qed

lemma cycles_serve:
  fixes X :: "('s, 'bm) system" and W :: "'bm writer_env"
  assumes sw: "sealed_with W E parse_meta c idx oc ms now reason d d'"
    and X1: "X1 = after_upload W P now1 fails X" and X2: "X2 = after_sync parse_meta (Some (list_r2, get)) cfg now2 X1"
    and net: "network_ok P (Some (list_r2, get)) obj" and ok: "system_ok obj W parse_meta cfg X" and sync: "syncing (sys_reader X)"
    and disk: "same_files oc (writer_dir X (ch_stream c)) d'"
    and unmarked: "\<not> exists_in (writer_dir X (ch_stream c)) (chunk_file (oc_start_slot oc) (oc_end_slot_exclusive oc) ''uploaded'')"
    and unknown: "unknown obj X (ch_stream c) (oc_start_slot oc) (oc_end_slot_exclusive oc)"
    and put: "ws_put P = Some put" "puts_succeed put" "u_retry_attempts (ws_uploader P) \<noteq> 0"
    and get: "gets_succeed get obj" "r_retry_attempts (s_reader cfg) \<noteq> 0"
    and l: "list_r2 (wr_net (sys_writer X1)) = (Inr remote, s)"
    and rc: "rc \<in> set remote"
      "key_of_remote rc = \<lparr>ck3_stream = ch_stream c, ck3_start = oc_start_slot oc, ck3_end = oc_end_slot_exclusive oc\<rparr>"
    and window: "window_start (r_local_retention_hours (s_reader cfg)) (local_chunks (sy_store (rd_syncer (sys_reader X)))) remote
      \<le> oc_end_slot_exclusive oc"
    and single: "\<forall>k \<in> set (local_chunks (sy_store (rd_syncer (sys_reader X)))) \<union> key_of_remote ` set remote.
      ck3_stream k = ch_stream c \<and> ck3_start k = oc_start_slot oc \<longrightarrow> ck3_end k = oc_end_slot_exclusive oc"
    and files: "\<forall>n. re_file E (ch_stream c) n = map_option content (map_of (reader_dir X2 (ch_stream c)) n)"
  shows "\<exists>en. catalog_get (served_catalog X2) (ch_stream c) (oc_start_slot oc) = Some en \<and>
    ce_end_slot_exclusive en = oc_end_slot_exclusive oc \<and>
    en = sealed_entry W (ch_stream c) reason oc \<and> holds E (ch_stream c) en (map (inner \<circ> fst) ms)"
proof -
  let ?st = "ch_stream c" and ?a = "oc_start_slot oc" and ?e = "oc_end_slot_exclusive oc"
  let ?nvme = "sy_store (rd_syncer (sys_reader X2))" and ?dr = "reader_dir X2 (ch_stream c)"
  note f = sealed_with_facts [OF sw]
  have laws: "put_laws put obj" "list_laws list_r2 obj" "get_laws get obj"
    using network_okD(1,2) [OF net] put(1) by (auto simp: reader_laws_def)
  have len: "length remote < 2 ^ 32" using network_okD(3) [OF net] l by blast
  have rc': "rc_stream rc = ?st" "rc_start_slot rc = ?a" "rc_end_slot rc = ?e" using rc(2) by (simp_all add: key_of_remote_def)
  have new: "key_of_remote rc \<notin> set (local_chunks (sy_store (rd_syncer (sys_reader X))))"
  proof
    assume "key_of_remote rc \<in> set (local_chunks (sy_store (rd_syncer (sys_reader X))))"
    then obtain d n where n: "sy_store (rd_syncer (sys_reader X)) ?st = Some d" "exists_in d n" "parse_meta_name n = Some (?a, ?e)"
      unfolding in_local_chunks rc(2) by auto
    have "dir_good (reader_dir X ?st)" using ok by (simp add: system_ok_def store_good_def reader_dir_def)
    then have "dir_good d" using n(1) by (simp add: reader_dir_def dir_of_def)
    from good_meta_name [OF this n(2,3)] n(1,2) unknown show False
      by (simp add: unknown_def reader_dir_def dir_of_def FILES_def)
  qed
  note h = healthy_cycles [where F = "bytes_of d' ?a ?e", OF X1 X2 ok sync put(1) laws(1) put(2,3) laws(2,3) get sealed_agreed(1) [OF sw disk unknown]
      unmarked sealed_agreed(2) [OF sw disk unknown] l len rc(1) rc' window new]
  have good: "dir_good ?dr" using h(3) by (simp add: store_good_def reader_dir_def)
  have cp: "counterparts W E parse_meta" using sw by (simp add: sealed_with_def)
  have vis: "visible parse_meta ?st ?dr (sealed_entry W ?st reason oc)"
    by (rule sealed_visible [OF cp f(2,1) disk_has_same_files [OF f(2) h(1) f(3)]])
  have "?nvme ?st \<noteq> None" using h(1) by (auto simp: reader_dir_def dir_of_def disk_has_def FILES_def split: option.splits)
  then have nvme: "?nvme ?st = Some ?dr" by (auto simp: reader_dir_def dir_of_def)
  from catalog_get_visible [where parse_meta = parse_meta and nvme = ?nvme and st = ?st and s = ?a] vis obtain en where
    en: "catalog_get (scan parse_meta ?nvme) ?st ?a = Some en" "visible parse_meta ?st ?dr en" "ce_start_slot en = ?a"
    by (auto simp: nvme sealed_entry_def split: option.splits)
  have "ce_end_slot_exclusive en = ?e"
  proof -
    obtain base g where b: "(base @ ''.meta.json'', g) \<in> set ?dr"
        "parse_meta_name (base @ ''.meta.json'') = Some (?a, ce_end_slot_exclusive en)"
      using visible_files [OF en(2)] en(3) by metis
    have "exists_in ?dr (base @ ''.meta.json'')" using b(1) by (force simp: exists_in_iff)
    then have "\<lparr>ck3_stream = ?st, ck3_start = ?a, ck3_end = ce_end_slot_exclusive en\<rparr> \<in> set (local_chunks ?nvme)"
      using nvme b(2) by (auto simp: in_local_chunks)
    from bspec [OF single h(4) [OF this]] show ?thesis by simp
  qed
  with sealed_at_reader [OF sw h(1) good en(2,3) _ files] en(1) h(2) show ?thesis by auto
qed

section \<open>An example of the system\<close>

text \<open>
  The chunk of theory \<open>Served\<close> is on the disk of the writer. The bucket is a map from keys to bytes. The
  reader has done the sweep of its start.
\<close>

definition map_put :: "(string \<Rightarrow> bytes option) put_object" where
  "map_put k b s = (True, s(k \<mapsto> b))"

definition map_get :: "(string \<Rightarrow> bytes option) get_object" where
  "map_get k s = (s k, s)"

definition served_remote :: r2_chunk where
  "served_remote = \<lparr>rc_stream = Block, rc_start_slot = 40, rc_end_slot = 50, key_prefix = ''chunks/block/'' @ stem 40 50\<rparr>"

definition map_list :: "(string \<Rightarrow> bytes option) \<Rightarrow> (list_error + r2_chunk list) \<times> (string \<Rightarrow> bytes option)" where
  "map_list s = (Inr [served_remote], s)"

definition served_setup :: "(string \<Rightarrow> bytes option) writer_setup" where
  "served_setup = \<lparr>ws_put = Some map_put, ws_writer = example_writer, ws_uploader = example_uploader\<rparr>"

definition served_written :: store where
  "served_written st = (if st = Block then Some served_dir else None)"

definition served_start :: "(string \<Rightarrow> bytes option, u32 list) system" where
  "served_start = system_start (\<lambda>_. False) served_setup served_parse example_reader_settings served_written (\<lambda>_. None) (\<lambda>_. None)"

definition served_system :: "(string \<Rightarrow> bytes option, u32 list) system" where
  "served_system = served_start\<lparr>sys_reader := (sys_reader served_start)\<lparr>
     rd_syncer := syncer_start (\<lambda>_. False) (rd_syncer (sys_reader served_start)), rd_sync_phase := Cycling\<rparr>\<rparr>"

definition served_uploaded :: "(string \<Rightarrow> bytes option, u32 list) system" where
  "served_uploaded = after_upload served_writer served_setup 10 (\<lambda>_. False) served_system"

definition served_synced :: "(string \<Rightarrow> bytes option, u32 list) system" where
  "served_synced = after_sync served_parse (Some (map_list, map_get)) example_reader_settings 11 served_uploaded"

lemma served_sealed: "sealed_with served_writer (served_reader d) served_parse served_chunker 4 served_chunk
    [(example_msg 42, 42)] 9 ''shutdown'' [(chunk_file 40 50 ''zst.partial'', \<lparr>content = [], mtime = 7\<rparr>)] served_dir"
  unfolding sealed_with_def
proof (intro conjI)
  show "\<exists>c'. seal_chunk served_writer 9 4 ''shutdown'' (served_chunker, [(chunk_file 40 50 ''zst.partial'', \<lparr>content = [], mtime = 7\<rparr>)]) =
      ((c', served_dir), None)" using served_seal by blast
  show "\<forall>(m, _) \<in> set [(example_msg 42, 42 :: u64)]. re_decode (served_reader d) (env_encode served_writer (inner m)) = Some (inner m) \<and>
      length (env_encode served_writer (inner m)) < 2 ^ 32"
    by (simp add: served_reader_def served_writer_def example_env_def)
qed (use served_chunker_inv served_streamed served_chunk_holds served_counterparts served_fits served_index_small in simp_all)

lemma served_network: "network_ok served_setup (Some (map_list, map_get)) (\<lambda>s. s)"
  by (auto simp: network_ok_def served_setup_def put_laws_def map_put_def reader_laws_def list_laws_def map_list_def get_laws_def map_get_def)

lemma served_clean: "clean_start (\<lambda>s. s) served_written (\<lambda>_. None) (\<lambda>_. None)"
proof -
  have "chunk_names served_dir"
    by (auto simp: chunk_names_def served_dir_def exists_in_def WRITER_EXTS_def split: if_splits)
  moreover have "\<not> exists_in served_dir (chunk_file a e ''uploaded'')" for a e
    by (simp add: served_dir_def exists_in_def)
  ultimately show ?thesis
    by (auto simp: clean_start_def uploader_inv_def remote_complete_def marked_def in_bucket_def served_written_def
        store_good_def dir_of_def local_chunks_def all_streams_def)
qed

lemma served_system_reader:
  "sy_store (rd_syncer (sys_reader served_system)) = (\<lambda>_. None)" "wr_net (sys_writer served_system) = (\<lambda>_. None)"
  "syncing (sys_reader served_system)" "sys_writer served_system = sys_writer served_start" "few (sys_reader served_system)"
proof -
  show store: "sy_store (rd_syncer (sys_reader served_system)) = (\<lambda>_. None)"
    by (simp add: served_system_def served_start_def system_start_def syncer_start_def reader_sweep_partials_def all_streams_def)
  show w: "sys_writer served_system = sys_writer served_start" by (simp add: served_system_def)
  show "wr_net (sys_writer served_system) = (\<lambda>_. None)"
    unfolding w by (simp add: served_start_def system_start_def writer_start_def split: prod.splits)
  show "syncing (sys_reader served_system)"
    by (simp add: syncing_def running_def served_system_def served_start_def system_start_def reader_start_def Let_def)
  show "few (sys_reader served_system)" by (simp add: few_def store local_chunks_def all_streams_def)
qed

lemma served_run: "(few_step served_writer served_setup served_parse (Some (map_list, map_get)) example_reader_settings)\<^sup>*\<^sup>*
    served_start served_system"
proof -
  let ?p = "net_to (wr_net (sys_writer served_start)) (sys_reader served_start)"
  let ?q = "?p\<lparr>rd_syncer := syncer_start (\<lambda>_. False) (rd_syncer ?p), rd_sync_phase := Cycling\<rparr>"
  have net: "wr_net (sys_writer served_start) = (\<lambda>_. None)" using served_system_reader(2,4) by simp
  have p: "?p = sys_reader served_start"
    unfolding net by (simp add: net_to_def served_start_def system_start_def reader_start_def Let_def)
  have "running ?p" "rd_sync_phase ?p = Sweeping"
    unfolding p by (simp_all add: running_def served_start_def system_start_def reader_start_def Let_def)
  then have "reader_step served_parse (Some (map_list, map_get)) (s_reader example_reader_settings) ?p ?q" by (rule rd_sweep)
  from sys_reads [OF this] have "system_step served_writer served_setup served_parse (Some (map_list, map_get)) example_reader_settings
      served_start (served_start\<lparr>sys_writer := (sys_writer served_start)\<lparr>wr_net := sy_net (rd_syncer ?q)\<rparr>, sys_reader := ?q\<rparr>)" .
  moreover have "served_start\<lparr>sys_writer := (sys_writer served_start)\<lparr>wr_net := sy_net (rd_syncer ?q)\<rparr>, sys_reader := ?q\<rparr> = served_system"
  proof -
    have "(sys_writer served_start)\<lparr>wr_net := sy_net (rd_syncer ?q)\<rparr> = sys_writer served_start"
      using net by (simp add: syncer_start_def net_to_def)
    then show ?thesis by (simp add: served_system_def p [unfolded net] net)
  qed
  ultimately have "few_step served_writer served_setup served_parse (Some (map_list, map_get)) example_reader_settings served_start served_system"
    using served_system_reader(5) by (simp add: few_step_def)
  then show ?thesis by (rule r_into_rtranclp)
qed

lemma served_on_disk: "same_files served_chunk (writer_dir served_system Block) served_dir"
  "\<not> exists_in (writer_dir served_system Block) (chunk_file 40 50 ''uploaded'')"
proof -
  obtain report nvme' where r: "run_recovery (\<lambda>_. False) served_written = (report, nvme')" by fastforce
  have dir: "writer_dir served_system Block = dir_of nvme' Block"
    by (simp add: writer_dir_def served_system_reader(4) served_start_def system_start_def writer_start_def served_setup_def r dir_of_def)
  have m: "map_of (dir_of nvme' Block) (chunk_file 40 50 x) = map_of served_dir (chunk_file 40 50 x)"
    if "x \<in> set FILES \<or> x = ''uploaded''" for x
    using recovery_files [OF r, of Block "chunk_file 40 50 x"] that by (auto simp: FILES_def dir_of_def served_written_def)
  have "oc_named served_chunk" using sealed_with_facts(2) [OF served_sealed] .
  from same_files_iff [OF this] m show "same_files served_chunk (writer_dir served_system Block) served_dir"
    by (simp add: dir served_range)
  show "\<not> exists_in (writer_dir served_system Block) (chunk_file 40 50 ''uploaded'')"
    using m [of "''uploaded''"] by (simp add: dir exists_in_def) (simp add: served_dir_def)
qed

lemma served_unknown: "unknown (\<lambda>s. s) served_system Block 40 50"
  by (simp add: unknown_def reader_dir_def served_system_reader(1,2) dir_of_def)

lemma served_settings: "puts_succeed map_put" "gets_succeed map_get (\<lambda>s. s)" "u_retry_attempts (ws_uploader served_setup) \<noteq> 0"
  "r_retry_attempts (s_reader example_reader_settings) \<noteq> 0" "ws_put served_setup = Some map_put"
  by (simp_all add: puts_succeed_def map_put_def gets_succeed_def map_get_def served_setup_def example_uploader_def
      example_reader_settings_def default_reader_def)

lemma served_listed: "map_list (wr_net (sys_writer served_uploaded)) = (Inr [served_remote], wr_net (sys_writer served_uploaded))"
  "key_of_remote served_remote = \<lparr>ck3_stream = Block, ck3_start = 40, ck3_end = 50\<rparr>"
  by (simp_all add: map_list_def served_remote_def key_of_remote_def)

lemma served_window: "window_start (r_local_retention_hours (s_reader example_reader_settings))
    (local_chunks (sy_store (rd_syncer (sys_reader served_system)))) [served_remote] \<le> 50"
  by (simp add: window_start_def served_system_reader local_chunks_def all_streams_def newest_end_def max_opt_def served_remote_def
      sat_sub_def retention_slots_def example_reader_settings_def default_reader_def)

lemma served_single: "\<forall>k \<in> set (local_chunks (sy_store (rd_syncer (sys_reader served_system)))) \<union> key_of_remote ` set [served_remote].
    ck3_stream k = Block \<and> ck3_start k = 40 \<longrightarrow> ck3_end k = 50"
  by (simp add: served_system_reader local_chunks_def all_streams_def served_listed)

lemma served_reads: "\<forall>n. re_file (served_reader d) st n = map_option content (map_of d n)"
  by (simp add: served_reader_def)

text \<open>The two cycles are a run of the system, and end with the chunk in the catalog.\<close>

lemma served_ok: "system_ok (\<lambda>s. s) served_writer served_parse example_reader_settings served_system"
proof -
  have "system_ok (\<lambda>s. s) served_writer served_parse example_reader_settings served_start"
    unfolding served_start_def by (rule system_start_ok [OF served_clean])
  from few_run_ok [OF served_run served_network this] show ?thesis .
qed

lemma served_shown: "\<exists>en. catalog_get (served_catalog served_synced) Block 40 = Some en \<and> ce_end_slot_exclusive en = 50"
  using cycles_serve [OF served_sealed served_uploaded_def served_synced_def served_network served_ok
      served_system_reader(3), unfolded served_streamed(2) served_range,
      OF served_on_disk served_unknown served_settings(5,1,3,2,4) served_listed(1) _ served_listed(2) served_window served_single
      served_reads]
  by auto

lemma served_cycles: "(chunk_step served_writer served_setup served_parse (Some (map_list, map_get)) example_reader_settings Block 40 50)\<^sup>*\<^sup>*
    served_system served_synced"
proof -
  let ?step = "chunk_step served_writer served_setup served_parse (Some (map_list, map_get)) example_reader_settings Block 40 50"
  have R: "sys_reader served_uploaded = sys_reader served_system" by (simp add: served_uploaded_def after_upload_def)
  have "?step served_system served_uploaded"
    using after_upload_step after_upload_gone [OF served_network served_ok] served_system_reader(5)
    by (simp add: chunk_step_def few_step_def served_uploaded_def R [unfolded served_uploaded_def])
  moreover have "?step served_uploaded served_synced"
  proof -
    have "k = key_of_remote served_remote" if "k \<in> set (local_chunks (sy_store (rd_syncer (sys_reader served_synced))))" for k
      using healthy_cycles(4) [OF served_uploaded_def served_synced_def served_ok served_system_reader(3) served_settings(5) _ served_settings(1,3)
          _ _ served_settings(2,4) sealed_agreed(1) [OF served_sealed, unfolded served_streamed(2) served_range, OF served_on_disk(1) served_unknown]
          served_on_disk(2) sealed_agreed(2) [OF served_sealed, unfolded served_streamed(2) served_range, OF served_on_disk(1) served_unknown]
          served_listed(1) _ _ _ _ _ served_window _ that] served_network served_settings(5)
      by (auto simp: network_ok_def reader_laws_def served_system_reader(1) local_chunks_def all_streams_def served_remote_def)
    then have "set (local_chunks (sy_store (rd_syncer (sys_reader served_synced)))) \<subseteq> {key_of_remote served_remote}" by blast
    from card_mono [OF _ this] have "card (set (local_chunks (sy_store (rd_syncer (sys_reader served_synced))))) \<le> 1" by simp
    moreover have "distinct (local_chunks (sy_store (rd_syncer (sys_reader served_synced))))" by (simp add: local_chunks_def)
    ultimately have "few (sys_reader served_synced)" by (simp add: few_def distinct_card)
    moreover have "syncing (sys_reader served_uploaded)" using served_system_reader(3) by (simp add: R)
    ultimately show ?thesis
      unfolding chunk_step_def few_step_def served_synced_def by (intro conjI after_sync_step after_sync_gone)
  qed
  ultimately show ?thesis by (rule converse_rtranclp_into_rtranclp [OF _ r_into_rtranclp])
qed

section \<open>Properties\<close>

text \<open>C1: What the reader shows of a chunk is what was sealed, wherever the whole system has got to.
  From the start of both processes, in any interleaving of their steps, with any failing operations,
  restarts and calls, let the files of a freshly sealed chunk be on the disk of the writer and be unknown
  to the bucket and the reader. At every later moment an entry with the chunk's range in
  the catalog that the reader serves is the entry of this seal, and the chunk and its index hold exactly the
  sealed messages, in order: never part of a file, or the file of another seal. (A file that the writer
  has evicted does not come back: its slots are not delivered again.)\<close>

theorem reader_shows_only_what_was_sealed:
  assumes "sealed_with W E parse_meta c idx oc ms now reason d d'"
    and "network_ok P r2 obj" and "clean_start obj written s held"
    and "(few_step W P parse_meta r2 cfg)\<^sup>*\<^sup>* (system_start fails P parse_meta cfg written s held) X"
    and "same_files oc (writer_dir X (ch_stream c)) d'"
    and "unknown obj X (ch_stream c) (oc_start_slot oc) (oc_end_slot_exclusive oc)"
    and "(chunk_step W P parse_meta r2 cfg (ch_stream c) (oc_start_slot oc) (oc_end_slot_exclusive oc))\<^sup>*\<^sup>* X Y"
    and "catalog_get (served_catalog Y) (ch_stream c) (oc_start_slot oc) = Some en"
    and "ce_end_slot_exclusive en = oc_end_slot_exclusive oc"
    and "\<forall>n. re_file E (ch_stream c) n = map_option content (map_of (reader_dir Y (ch_stream c)) n)"
  shows "en = sealed_entry W (ch_stream c) reason oc \<and> holds E (ch_stream c) en (map (inner \<circ> fst) ms)"
proof -
  let ?st = "ch_stream c" and ?a = "oc_start_slot oc" and ?e = "oc_end_slot_exclusive oc"
  have ok: "system_ok obj W parse_meta cfg X" by (rule few_run_ok [OF assms(4,2) system_start_ok [OF assms(3)]])
  note Y = chunk_run_agreed [OF assms(7,2) ok sealed_agreed(2) [OF assms(1,5,6)]]
  from shown_entry [OF conjunct1 [OF Y] conjunct2 [OF Y] assms(8,9)] show ?thesis
    by (intro sealed_at_reader [where dr = "reader_dir Y ?st", OF assms(1) _ _ _ _ assms(9,10)]) simp_all
qed

lemma reader_shows_only_what_was_sealed_witness:
  "\<exists>en. catalog_get (served_catalog served_synced) Block 40 = Some en \<and>
     holds (served_reader (reader_dir served_synced Block)) Block en [inner (example_msg 42)]"
proof -
  obtain en where en: "catalog_get (served_catalog served_synced) Block 40 = Some en" "ce_end_slot_exclusive en = 50"
    using served_shown by blast
  from reader_shows_only_what_was_sealed [OF served_sealed served_network served_clean served_run [unfolded served_start_def],
      unfolded served_streamed(2) served_range, OF served_on_disk(1) served_unknown served_cycles en served_reads]
  show ?thesis using en by auto
qed

text \<open>C2: What is not hindered is served. Let a sealed chunk be on the disk of the writer, not marked as
  uploaded. After one cycle of the uploader whose puts succeed and one cycle of the syncer whose gets and
  file operations succeed, the catalog that the reader serves shows the chunk under its start slot, with
  its range and metadata, and it holds exactly the sealed messages. The listing shows the chunk, which is
  within the retention of the reader and the only one with its start slot.\<close>

theorem healthy_system_serves:
  assumes "sealed_with W E parse_meta c idx oc ms now reason d d'"
    and "X1 = after_upload W P now1 fails' X" and "X2 = after_sync parse_meta (Some (list_r2, get)) cfg now2 X1"
    and "network_ok P (Some (list_r2, get)) obj" and "clean_start obj written s held"
    and "(few_step W P parse_meta (Some (list_r2, get)) cfg)\<^sup>*\<^sup>* (system_start fails P parse_meta cfg written s held) X"
    and "syncing (sys_reader X)"
    and "same_files oc (writer_dir X (ch_stream c)) d'"
    and "\<not> exists_in (writer_dir X (ch_stream c)) (chunk_file (oc_start_slot oc) (oc_end_slot_exclusive oc) ''uploaded'')"
    and "unknown obj X (ch_stream c) (oc_start_slot oc) (oc_end_slot_exclusive oc)"
    and "ws_put P = Some put" and "puts_succeed put" and "u_retry_attempts (ws_uploader P) \<noteq> 0"
    and "gets_succeed get obj" and "r_retry_attempts (s_reader cfg) \<noteq> 0"
    and "list_r2 (wr_net (sys_writer X1)) = (Inr remote, s')" and "rc \<in> set remote"
    and "key_of_remote rc = \<lparr>ck3_stream = ch_stream c, ck3_start = oc_start_slot oc, ck3_end = oc_end_slot_exclusive oc\<rparr>"
    and "window_start (r_local_retention_hours (s_reader cfg)) (local_chunks (sy_store (rd_syncer (sys_reader X)))) remote
      \<le> oc_end_slot_exclusive oc"
    and "\<forall>k \<in> set (local_chunks (sy_store (rd_syncer (sys_reader X)))) \<union> key_of_remote ` set remote.
      ck3_stream k = ch_stream c \<and> ck3_start k = oc_start_slot oc \<longrightarrow> ck3_end k = oc_end_slot_exclusive oc"
    and "\<forall>n. re_file E (ch_stream c) n = map_option content (map_of (reader_dir X2 (ch_stream c)) n)"
  shows "\<exists>en. catalog_get (served_catalog X2) (ch_stream c) (oc_start_slot oc) = Some en \<and>
    ce_end_slot_exclusive en = oc_end_slot_exclusive oc \<and>
    en = sealed_entry W (ch_stream c) reason oc \<and> holds E (ch_stream c) en (map (inner \<circ> fst) ms)"
  by (rule cycles_serve [OF assms(1-4) few_run_ok [OF assms(6,4) system_start_ok [OF assms(5)]] assms(7-21)])

lemma healthy_system_serves_witness:
  "\<exists>en. catalog_get (served_catalog served_synced) Block 40 = Some en \<and> ce_end_slot_exclusive en = 50 \<and>
     holds (served_reader (reader_dir served_synced Block)) Block en [inner (example_msg 42)]"
  using healthy_system_serves [OF served_sealed served_uploaded_def served_synced_def served_network served_clean
      served_run [unfolded served_start_def] served_system_reader(3), unfolded served_streamed(2) served_range,
      OF served_on_disk served_unknown served_settings(5,1,3,2,4) served_listed(1) _ served_listed(2) served_window served_single
      served_reads]
  by auto

end
